(* ===== verification/Prelude.thy ===== *)
theory Prelude
  imports Main "HOL-Library.Word" "HOL-Library.Signed_Division" "HOL-Library.Multiset"
begin

text \<open>
  Shared vocabulary of the development: Go integers, the run-time panics of Go slices,
  sequencing of steps that may panic, and the block copy that \<open>copy\<close> performs, with the list
  lemmas the component theories rest on.

  Go's \<open>int\<close> and \<open>int64\<close> are values of type \<^typ>\<open>int\<close>; where the arithmetic of the source can
  leave the 64-bit range the wrap-around is written out with \<open>wrap64\<close>.  Go's \<open>/\<close> and \<open>%\<close>
  truncate towards zero: they are \<open>sdiv\<close> and \<open>smod\<close> of the library.
\<close>

named_theorems go_simps \<open>unfolding of the Go primitives\<close>

section \<open>Integers\<close>

definition maxInt :: int where
  "maxInt = 2 ^ 63 - 1"

definition wrap64 :: "int \<Rightarrow> int" where
  "wrap64 x = (x + 2 ^ 63) mod 2 ^ 64 - 2 ^ 63"

definition in64 :: "int \<Rightarrow> bool" where
  "in64 x \<longleftrightarrow> - (2 ^ 63) \<le> x \<and> x \<le> maxInt"

lemma wrap64_id: "in64 x \<Longrightarrow> wrap64 x = x"
  by (simp add: in64_def wrap64_def maxInt_def)

lemma in64_wrap64: "in64 (wrap64 x)"
proof -
  have "0 \<le> (x + 2 ^ 63) mod 2 ^ 64" "(x + 2 ^ 63) mod 2 ^ 64 < (2::int) ^ 64"
    by simp_all
  then show ?thesis by (simp add: in64_def wrap64_def maxInt_def)
qed

lemma wrap64_is_word: "wrap64 x = sint (word_of_int x :: 64 word)"
  by (simp add: wrap64_def sint_sbintrunc' signed_take_bit_eq_take_bit_shift take_bit_eq_mod)

lemma wrap64_above: "maxInt < x \<Longrightarrow> x < 2 ^ 64 \<Longrightarrow> wrap64 x = x - 2 ^ 64"
proof -
  assume "maxInt < x" "x < 2 ^ 64"
  then have "(x + 2 ^ 63) mod 2 ^ 64 = x + 2 ^ 63 - 2 ^ 64"
    by (intro int_mod_pos_eq [where q = 1]) (simp_all add: maxInt_def)
  then show ?thesis by (simp add: wrap64_def)
qed

lemma in64_len: "int n \<le> maxInt \<Longrightarrow> in64 (int n)"
  by (simp add: in64_def)

lemma smod_nonneg: "0 \<le> (a::int) \<Longrightarrow> 0 \<le> b \<Longrightarrow> a smod b = a mod b"
  by (simp add: signed_modulo_int_def sgn_if mod_minus_eq)

lemma sdiv_nonneg: "0 \<le> (a::int) \<Longrightarrow> 0 \<le> b \<Longrightarrow> a sdiv b = a div b"
  by (simp add: signed_divide_int_def sgn_if)

section \<open>Steps that may panic\<close>

text \<open>
  A step is a value of \<^typ>\<open>'e + 'a\<close>: \<open>Inl\<close> the panic that ends it, \<open>Inr\<close> its result.
\<close>

definition andThen :: "'e + 'a \<Rightarrow> ('a \<Rightarrow> 'e + 'b) \<Rightarrow> 'e + 'b" where
  "andThen m f = (case m of Inl e \<Rightarrow> Inl e | Inr x \<Rightarrow> f x)"

lemma andThen_simps [simp]:
  "andThen (Inl e) f = Inl e"
  "andThen (Inr x) f = f x"
  by (simp_all add: andThen_def)

lemma andThen_eq_Inr: "andThen m f = Inr y \<longleftrightarrow> (\<exists>x. m = Inr x \<and> f x = Inr y)"
  by (auto simp: andThen_def split: sum.splits)

lemma andThen_eq_Inl:
  "andThen m f = Inl e \<longleftrightarrow> m = Inl e \<or> (\<exists>x. m = Inr x \<and> f x = Inl e)"
  by (auto simp: andThen_def split: sum.splits)

lemma andThen_assoc: "andThen (andThen m f) g = andThen m (\<lambda>x. andThen (f x) g)"
  by (auto simp: andThen_def split: sum.splits)

section \<open>Windows of a list and block copy\<close>

text \<open>
  \<open>sub xs i j\<close> is the window \<open>xs[i:j]\<close>; \<open>overlay xs i ys\<close> is \<open>xs\<close> after \<open>copy(xs[i:], ys)\<close>:
  as many items of \<open>ys\<close> as fit replace those of \<open>xs\<close> from index \<open>i\<close> on.
\<close>

definition sub :: "'a list \<Rightarrow> nat \<Rightarrow> nat \<Rightarrow> 'a list" where
  "sub xs i j = take (j - i) (drop i xs)"

definition overlay :: "'a list \<Rightarrow> nat \<Rightarrow> 'a list \<Rightarrow> 'a list" where
  "overlay xs i ys = take i xs @ take (length xs - i) ys @ drop (i + length ys) xs"

lemma length_sub [simp]: "length (sub xs i j) = min (j - i) (length xs - i)"
  by (simp add: sub_def min.commute)

lemma nth_sub: "k < j - i \<Longrightarrow> k < length xs - i \<Longrightarrow> sub xs i j ! k = xs ! (i + k)"
  by (simp add: sub_def)

lemma sub_full [simp]: "sub xs 0 (length xs) = xs"
  by (simp add: sub_def)

lemma sub_same [simp]: "sub xs i i = []"
  by (simp add: sub_def)

lemma sub_to_end: "sub xs i (length xs) = drop i xs"
  by (simp add: sub_def)

lemma sub_from_start: "sub xs 0 j = take j xs"
  by (simp add: sub_def)

lemma sub_Cons: "i < j \<Longrightarrow> i < length xs \<Longrightarrow> sub xs i j = xs ! i # sub xs (Suc i) j"
proof -
  assume "i < j" "i < length xs"
  moreover from \<open>i < j\<close> have "j - i = Suc (j - Suc i)" by simp
  ultimately show ?thesis by (simp add: sub_def Cons_nth_drop_Suc [symmetric])
qed

lemma sub_take: "sub (take j xs) i j = sub xs i j"
  by (simp add: sub_def drop_take)

lemma sub_append: "i \<le> j \<Longrightarrow> j \<le> k \<Longrightarrow> sub xs i j @ sub xs j k = sub xs i k"
proof -
  assume "i \<le> j" "j \<le> k"
  then have "take (k - i) (drop i xs) = take (j - i) (drop i xs) @ take (k - j) (drop (j - i) (drop i xs))"
    using take_add [of "j - i" "k - j" "drop i xs"] by simp
  with \<open>i \<le> j\<close> show ?thesis by (simp add: sub_def)
qed

lemma take_sub: "take n (sub xs i j) = sub xs i (min (i + n) j)"
proof -
  have "min n (j - i) = min (i + n) j - i" by linarith
  then show ?thesis by (simp add: sub_def min.commute)
qed

lemma drop_sub: "drop n (sub xs i j) = sub xs (i + n) j"
  by (simp add: sub_def drop_take add.commute)

lemma length_overlay [simp]: "i \<le> length xs \<Longrightarrow> length (overlay xs i ys) = length xs"
  by (auto simp: overlay_def)

lemma overlay_Nil [simp]: "overlay xs i [] = xs"
  by (simp add: overlay_def)

lemma nth_overlay:
  assumes "k < length xs"
  shows "overlay xs i ys ! k = (if i \<le> k \<and> k < i + length ys then ys ! (k - i) else xs ! k)"
  using assms by (auto simp: overlay_def nth_append min_def)

lemma take_overlay [simp]: "i \<le> length xs \<Longrightarrow> take i (overlay xs i ys) = take i xs"
  by (simp add: overlay_def)

lemma overlay_take_fits:
  "i + length ys \<le> length xs \<Longrightarrow> take (i + length ys) (overlay xs i ys) = take i xs @ ys"
  by (simp add: overlay_def)

lemma drop_overlay_fits:
  "i + length ys \<le> length xs \<Longrightarrow>
    drop (i + length ys) (overlay xs i ys) = drop (i + length ys) xs"
  by (simp add: overlay_def)

lemma overlay_all: "length ys = length xs \<Longrightarrow> overlay xs 0 ys = ys"
  by (simp add: overlay_def)

lemma overlay_sub: "i \<le> j \<Longrightarrow> j \<le> i + length ys \<Longrightarrow> j \<le> length xs \<Longrightarrow>
    sub (overlay xs i ys) i j = take (j - i) ys"
  by (simp add: sub_def overlay_def)

lemma overlay_snoc:
  assumes "i + length ys < length xs"
  shows "overlay xs i (ys @ [y]) = (overlay xs i ys)[i + length ys := y]"
  by (rule nth_equalityI) (use assms in \<open>auto simp: nth_overlay nth_append nth_list_update\<close>)

section \<open>The last items of a list\<close>

text \<open>\<open>lastn k xs\<close> keeps the last \<open>k\<close> items: what survives in a buffer of capacity \<open>k\<close>.\<close>

definition lastn :: "nat \<Rightarrow> 'a list \<Rightarrow> 'a list" where
  "lastn k xs = drop (length xs - k) xs"

lemma length_lastn [simp]: "length (lastn k xs) = min k (length xs)"
  by (auto simp: lastn_def)

lemma lastn_all: "length xs \<le> k \<Longrightarrow> lastn k xs = xs"
  by (simp add: lastn_def)

lemma lastn_append_left: "lastn k (lastn k xs @ ys) = lastn k (xs @ ys)"
proof (cases "length xs \<le> k")
  case False
  then have "length xs + length ys - k - (length xs - k) = length ys"
    by simp
  with False show ?thesis by (cases "length ys \<le> k") (simp_all add: lastn_def add.commute)
qed (simp add: lastn_def)

lemma lastn_append_right: "k \<le> length ys \<Longrightarrow> lastn k (xs @ ys) = lastn k ys"
  by (simp add: lastn_def)

lemma set_lastn: "set (lastn k xs) \<subseteq> set xs"
  by (simp add: lastn_def set_drop_subset)

end
