(* ===== verification/Errs.thy ===== *)
theory Errs
  imports Prelude
begin

text \<open>
  Errors and panics: the package \<open>errs\<close> (\<open>errs/errs.go\<close>), the error values of \<open>errors.go\<close>,
  the standard \<open>errors.Is\<close> as far as the library uses it, and the panics a call can end with.
  The Go types \<open>Domain\<close>, \<open>Kind\<close> and \<open>Entity\<close> are strings that are errors themselves; they are
  constructors of \<open>go_error\<close> here, so that they can be targets of \<open>errors.Is\<close>.
\<close>

section \<open>Package errs\<close>

record errs_Error =
  domain :: string
  kind :: string
  entity :: string
  error :: string

text \<open>
  Error values.  \<open>EOF\<close>, \<open>ErrShortWrite\<close> and \<open>ErrNoProgress\<close> are those of package \<open>io\<close>;
  \<open>Errorf e s n\<close> is what \<open>fmt.Errorf("%w\<dots>%d", e, n)\<close> makes with the text \<open>s\<close> in between;
  \<open>Sentinel\<close> is an \<open>errors.New\<close> value, identified by the name of its variable; \<open>Foreign\<close> are the
  error values of client code (its readers, writers and filters).
\<close>

datatype go_error =
    EOF
  | ErrShortWrite
  | ErrNoProgress
  | Domain string
  | Kind string
  | Entity string
  | LibError errs_Error
  | Errorf go_error string int
  | Sentinel string
  | Foreign nat

definition defaultDomain :: string where
  "defaultDomain = ''gbuf''"

definition errs_New :: "string \<Rightarrow> string \<Rightarrow> string \<Rightarrow> go_error" where
  "errs_New d k e =
     (let d = (if d = [] then defaultDomain else d)
      in LibError \<lparr>domain = d, kind = k, entity = e, error = d @ '': '' @ k @ '' '' @ e\<rparr>)"

definition Error_Unwrap :: "errs_Error \<Rightarrow> go_error list" where
  "Error_Unwrap e = [Domain (domain e), Kind (kind e), Entity (entity e)]"

definition Error_Error :: "errs_Error \<Rightarrow> string" where
  "Error_Error e = error e"

text \<open>
  \<open>errors.Is\<close>: an error matches a target it equals or one that its \<open>Unwrap\<close> reaches; a nil
  error matches no (non-nil) target.
\<close>

fun errors_Is :: "go_error \<Rightarrow> go_error \<Rightarrow> bool" where
  "errors_Is (LibError e) t = (LibError e = t \<or> t \<in> set (Error_Unwrap e))"
| "errors_Is (Errorf e s n) t = (Errorf e s n = t \<or> errors_Is e t)"
| "errors_Is e t = (e = t)"

fun is_err :: "go_error option \<Rightarrow> go_error \<Rightarrow> bool" where
  "is_err None t = False"
| "is_err (Some e) t = errors_Is e t"

section \<open>The error values of errors.go\<close>

definition libDomain :: string where "libDomain = ''gbuf''"
definition bufferDomain :: string where "bufferDomain = ''gbuf/Buffer''"
definition readerDomain :: string where "readerDomain = ''gbuf/Reader''"
definition ringBufferDomain :: string where "ringBufferDomain = ''gbuf/RingBuffer''"
definition ringFilterDomain :: string where "ringFilterDomain = ''gbuf/RingFilter''"
definition peekBufferDomain :: string where "peekBufferDomain = ''gbuf/PeekBuffer''"

definition ErrInvalid :: string where "ErrInvalid = ''invalid''"
definition ErrPreviousOp :: string where "ErrPreviousOp = ''previous operation''"
definition ErrNegativeCount :: string where
  "ErrNegativeCount = ''reader returned negative count''"
definition ErrTooMuchOf :: string where "ErrTooMuchOf = ''too''"
definition ErrNegative :: string where "ErrNegative = ''negative''"
definition ErrRepeat :: string where "ErrRepeat = ''Repeat''"
definition ErrIndex :: string where "ErrIndex = ''index''"
definition ErrAtBeginning :: string where "ErrAtBeginning = ''at beginning of''"
definition ErrWhence :: string where "ErrWhence = ''whence''"
definition ErrUnsuccessfulRead :: string where
  "ErrUnsuccessfulRead = ''was not a successful read''"
definition ErrReadOp :: string where "ErrReadOp = ''from Read''"
definition ErrLargeSize :: string where "ErrLargeSize = ''large''"
definition ErrCount :: string where "ErrCount = ''count''"
definition ErrWriteCount :: string where "ErrWriteCount = ''write count''"
definition ErrRepeatCount :: string where "ErrRepeatCount = ''Repeat count''"
definition ErrOverflow :: string where "ErrOverflow = ''count causes overflow''"
definition ErrOutOfBounds :: string where "ErrOutOfBounds = ''out of bounds''"
definition ErrPosition :: string where "ErrPosition = ''position''"
definition ErrSlice :: string where "ErrSlice = ''slice''"
definition ErrOffset :: string where "ErrOffset = ''offset''"

definition ErrNegativeRepeatCount :: go_error where
  "ErrNegativeRepeatCount = errs_New libDomain ErrNegative ErrRepeatCount"
definition ErrCountOverflows :: go_error where
  "ErrCountOverflows = errs_New libDomain ErrRepeat ErrOverflow"
definition ErrBufferUnreadItem :: go_error where
  "ErrBufferUnreadItem = errs_New (bufferDomain @ ''.UnreadItem'') ErrPreviousOp ErrUnsuccessfulRead"
definition ErrRingBufferUnreadItem :: go_error where
  "ErrRingBufferUnreadItem =
     errs_New (ringBufferDomain @ ''.UnreadItem'') ErrPreviousOp ErrUnsuccessfulRead"
definition ErrRingFilterUnreadItem :: go_error where
  "ErrRingFilterUnreadItem =
     errs_New (ringFilterDomain @ ''.UnreadItem'') ErrPreviousOp ErrUnsuccessfulRead"
definition ErrReaderInvalidWhence :: go_error where
  "ErrReaderInvalidWhence = errs_New (readerDomain @ ''.Seek'') ErrInvalid ErrWhence"
definition ErrRingBufferInvalidWhence :: go_error where
  "ErrRingBufferInvalidWhence = errs_New (ringBufferDomain @ ''.Seek'') ErrInvalid ErrWhence"
definition ErrRingFilterInvalidWhence :: go_error where
  "ErrRingFilterInvalidWhence = errs_New (ringFilterDomain @ ''.Seek'') ErrInvalid ErrWhence"
definition ErrReaderNegativePosition :: go_error where
  "ErrReaderNegativePosition = errs_New (readerDomain @ ''.Seek'') ErrNegative ErrPosition"
definition ErrReaderAtTheBeginning :: go_error where
  "ErrReaderAtTheBeginning = errs_New (readerDomain @ ''.UnreadItem'') ErrAtBeginning ErrSlice"
definition ErrReaderNegativeOffset :: go_error where
  "ErrReaderNegativeOffset = errs_New (readerDomain @ ''.ReadAt'') ErrNegative ErrOffset"
definition ErrBufferNegativeRead :: go_error where
  "ErrBufferNegativeRead = errs_New bufferDomain ErrNegativeCount ErrReadOp"
definition ErrRingBufferNegativeRead :: go_error where
  "ErrRingBufferNegativeRead = errs_New ringBufferDomain ErrNegativeCount ErrReadOp"
definition ErrRingFilterNegativeRead :: go_error where
  "ErrRingFilterNegativeRead = errs_New ringFilterDomain ErrNegativeCount ErrReadOp"
definition ErrBufferTooLarge :: go_error where
  "ErrBufferTooLarge = errs_New bufferDomain ErrTooMuchOf ErrLargeSize"
definition ErrBufferNegativeCount :: go_error where
  "ErrBufferNegativeCount = errs_New (bufferDomain @ ''.Grow'') ErrNegative ErrCount"
definition ErrReaderNegativeCount :: go_error where
  "ErrReaderNegativeCount = errs_New (readerDomain @ ''.WriteTo'') ErrNegative ErrCount"
definition ErrBufferInvalidWriteCount :: go_error where
  "ErrBufferInvalidWriteCount = errs_New (bufferDomain @ ''.WriteTo'') ErrInvalid ErrWriteCount"
definition ErrIndexOutOfBounds :: go_error where
  "ErrIndexOutOfBounds = errs_New libDomain ErrIndex ErrOutOfBounds"
definition ErrPeekBufferIndexOutOfBounds :: go_error where
  "ErrPeekBufferIndexOutOfBounds = errs_New peekBufferDomain ErrIndex ErrOutOfBounds"

lemmas err_text_defs =
  libDomain_def bufferDomain_def readerDomain_def ringBufferDomain_def ringFilterDomain_def
  peekBufferDomain_def ErrInvalid_def ErrPreviousOp_def ErrNegativeCount_def ErrTooMuchOf_def
  ErrNegative_def ErrRepeat_def ErrIndex_def ErrAtBeginning_def ErrWhence_def
  ErrUnsuccessfulRead_def ErrReadOp_def ErrLargeSize_def ErrCount_def ErrWriteCount_def
  ErrRepeatCount_def ErrOverflow_def ErrOutOfBounds_def ErrPosition_def ErrSlice_def ErrOffset_def

lemmas err_value_defs =
  ErrNegativeRepeatCount_def ErrCountOverflows_def ErrBufferUnreadItem_def
  ErrRingBufferUnreadItem_def ErrRingFilterUnreadItem_def ErrReaderInvalidWhence_def
  ErrRingBufferInvalidWhence_def ErrRingFilterInvalidWhence_def ErrReaderNegativePosition_def
  ErrReaderAtTheBeginning_def ErrReaderNegativeOffset_def ErrBufferNegativeRead_def
  ErrRingBufferNegativeRead_def ErrRingFilterNegativeRead_def ErrBufferTooLarge_def
  ErrBufferNegativeCount_def ErrReaderNegativeCount_def ErrBufferInvalidWriteCount_def
  ErrIndexOutOfBounds_def ErrPeekBufferIndexOutOfBounds_def

text \<open>All the error values the package exports, in the order of the file.\<close>

definition gbuf_errors :: "go_error list" where
  "gbuf_errors =
     [ErrNegativeRepeatCount, ErrCountOverflows, ErrBufferUnreadItem, ErrRingBufferUnreadItem,
      ErrRingFilterUnreadItem, ErrReaderInvalidWhence, ErrRingBufferInvalidWhence,
      ErrRingFilterInvalidWhence, ErrReaderNegativePosition, ErrReaderAtTheBeginning,
      ErrReaderNegativeOffset, ErrBufferNegativeRead, ErrRingBufferNegativeRead,
      ErrRingFilterNegativeRead, ErrBufferTooLarge, ErrBufferNegativeCount,
      ErrReaderNegativeCount, ErrBufferInvalidWriteCount, ErrIndexOutOfBounds,
      ErrPeekBufferIndexOutOfBounds]"

section \<open>Panics\<close>

text \<open>
  A panic with an error value, a panic with a string, or one of the run-time panics: slice
  bounds or index out of range, division by zero, nil dereference, a negative length for
  \<open>make\<close>.
\<close>

datatype go_panic =
    PanicErr go_error
  | PanicStr string
  | SliceBounds
  | IndexRange
  | DivideByZero
  | NilDeref
  | MakeLen

section \<open>Slice expressions\<close>

text \<open>
  Slices whose capacity is their length (all but those of \<open>Buffer\<close>) are plain lists:
  \<open>go_slice xs lo hi\<close> is \<open>xs[lo:hi]\<close>, \<open>go_index xs i\<close> is \<open>xs[i]\<close>, \<open>go_update xs i x\<close> the list after
  \<open>xs[i] = x\<close>, \<open>go_copy xs lo hi ys\<close> the list after \<open>copy(xs[lo:hi], ys)\<close> with the number of
  items copied, \<open>go_rem a n\<close> is \<open>a % n\<close>.
\<close>

definition go_slice :: "'a list \<Rightarrow> int \<Rightarrow> int \<Rightarrow> go_panic + 'a list" where
  "go_slice xs lo hi =
     (if 0 \<le> lo \<and> lo \<le> hi \<and> hi \<le> int (length xs) then Inr (sub xs (nat lo) (nat hi))
      else Inl SliceBounds)"

definition go_index :: "'a list \<Rightarrow> int \<Rightarrow> go_panic + 'a" where
  "go_index xs i = (if 0 \<le> i \<and> i < int (length xs) then Inr (xs ! nat i) else Inl IndexRange)"

definition go_update :: "'a list \<Rightarrow> int \<Rightarrow> 'a \<Rightarrow> go_panic + 'a list" where
  "go_update xs i x =
     (if 0 \<le> i \<and> i < int (length xs) then Inr (xs[nat i := x]) else Inl IndexRange)"

definition go_copy :: "'a list \<Rightarrow> int \<Rightarrow> int \<Rightarrow> 'a list \<Rightarrow> go_panic + (int \<times> 'a list)" where
  "go_copy xs lo hi ys =
     (if 0 \<le> lo \<and> lo \<le> hi \<and> hi \<le> int (length xs)
      then Inr (min (hi - lo) (int (length ys)), overlay xs (nat lo) (take (nat (hi - lo)) ys))
      else Inl SliceBounds)"

definition go_rem :: "int \<Rightarrow> int \<Rightarrow> go_panic + int" where
  "go_rem a n = (if n = 0 then Inl DivideByZero else Inr (a smod n))"

lemma go_slice_ok [go_simps]:
  "0 \<le> lo \<Longrightarrow> lo \<le> hi \<Longrightarrow> hi \<le> int (length xs) \<Longrightarrow>
    go_slice xs lo hi = Inr (sub xs (nat lo) (nat hi))"
  by (simp add: go_slice_def)

lemma go_index_ok [go_simps]:
  "0 \<le> i \<Longrightarrow> i < int (length xs) \<Longrightarrow> go_index xs i = Inr (xs ! nat i)"
  by (simp add: go_index_def)

lemma go_update_ok [go_simps]:
  "0 \<le> i \<Longrightarrow> i < int (length xs) \<Longrightarrow> go_update xs i x = Inr (xs[nat i := x])"
  by (simp add: go_update_def)

lemma go_copy_ok [go_simps]:
  "0 \<le> lo \<Longrightarrow> lo \<le> hi \<Longrightarrow> hi \<le> int (length xs) \<Longrightarrow>
    go_copy xs lo hi ys =
      Inr (min (hi - lo) (int (length ys)), overlay xs (nat lo) (take (nat (hi - lo)) ys))"
  by (simp add: go_copy_def)

lemma go_rem_ok [go_simps]: "0 \<le> a \<Longrightarrow> 0 < n \<Longrightarrow> go_rem a n = Inr (a mod n)"
  by (simp add: go_rem_def smod_nonneg)

lemma go_copy_length: "go_copy xs lo hi ys = Inr (n, zs) \<Longrightarrow> length zs = length xs"
  by (auto simp: go_copy_def split: if_splits)

section \<open>Facts about the error values\<close>

lemma errors_Is_refl: "errors_Is e e"
  by (cases e) auto

lemma errors_Is_New:
  "errors_Is (errs_New d k e) t \<longleftrightarrow>
     t = errs_New d k e \<or> t = Domain (if d = [] then defaultDomain else d) \<or> t = Kind k \<or> t = Entity e"
  by (auto simp: errs_New_def Error_Unwrap_def Let_def)

lemma errs_New_not_EOF [simp]: "errs_New d k e \<noteq> EOF" "\<not> errors_Is (errs_New d k e) EOF"
  by (simp_all add: errs_New_def Let_def Error_Unwrap_def)

text \<open>
  \<open>errs.New\<close> builds an error whose text is "domain: kind entity" (the domain defaulting to
  "gbuf"), and which \<open>errors.Is\<close> matches against exactly itself, its domain, its kind and its
  entity, never against an unrelated error such as \<open>io.EOF\<close>.
\<close>

theorem errs_New_correct:
  "\<exists>x. errs_New d k e = LibError x
     \<and> Error_Error x = (if d = [] then ''gbuf'' else d) @ '': '' @ k @ '' '' @ e
     \<and> (\<forall>t. errors_Is (errs_New d k e) t
            \<longleftrightarrow> t \<in> {errs_New d k e, Domain (if d = [] then ''gbuf'' else d), Kind k, Entity e})"
  using errors_Is_New [of d k e]
  by (simp add: errs_New_def Error_Error_def Let_def defaultDomain_def)

text \<open>
  The twenty error values \<open>errors.go\<close> exports are pairwise different, and none of them
  matches another under \<open>errors.Is\<close>: testing for one never accepts another.
\<close>

theorem gbuf_errors_distinct:
  "distinct gbuf_errors
   \<and> list_all (\<lambda>e. list_all (\<lambda>t. errors_Is e t = (e = t)) gbuf_errors) gbuf_errors"
  by code_simp

end
