(* ===== verification/Slices.thy ===== *)
theory Slices
  imports Errs
begin

text \<open>
  Slices with a capacity, as \<open>Buffer\<close> uses them: the cells of the backing array from the first
  item of the slice up to its capacity, and its length.  Only a nil slice has \<open>s_nil\<close> set; it has
  no cells.  Also here: what the Go runtime supplies for an item type (its zero value, the
  capacity \<open>append\<close> allocates), and the loop combinator for steps that may run out of fuel.
\<close>

section \<open>Slices\<close>

record 'a slice =
  s_nil :: bool
  s_cells :: "'a list"
  s_len :: int

definition s_cap :: "'a slice \<Rightarrow> int" where
  "s_cap s = int (length (s_cells s))"

definition nil_slice :: "'a slice" where
  "nil_slice = \<lparr>s_nil = True, s_cells = [], s_len = 0\<rparr>"

text \<open>\<open>slice_of xs k\<close>: a non-nil slice whose first \<open>k\<close> cells are in use.\<close>

definition slice_of :: "'a list \<Rightarrow> int \<Rightarrow> 'a slice" where
  "slice_of xs k = \<lparr>s_nil = False, s_cells = xs, s_len = k\<rparr>"

text \<open>\<open>s_items s\<close>: the items \<open>s[0:len(s)]\<close>.\<close>

definition s_items :: "'a slice \<Rightarrow> 'a list" where
  "s_items s = take (nat (s_len s)) (s_cells s)"

text \<open>\<open>make([]T, n, c)\<close>.\<close>

definition make_slice :: "'a \<Rightarrow> int \<Rightarrow> int \<Rightarrow> go_panic + 'a slice" where
  "make_slice z n c =
     (if 0 \<le> n \<and> n \<le> c then Inr (slice_of (replicate (nat c) z) n) else Inl MakeLen)"

text \<open>\<open>s[:hi]\<close>, which may extend the slice up to its capacity.\<close>

definition reslice :: "'a slice \<Rightarrow> int \<Rightarrow> go_panic + 'a slice" where
  "reslice s hi = (if 0 \<le> hi \<and> hi \<le> s_cap s then Inr (s\<lparr>s_len := hi\<rparr>) else Inl SliceBounds)"

text \<open>\<open>s[lo:]\<close>.\<close>

definition slice_from :: "'a slice \<Rightarrow> int \<Rightarrow> go_panic + 'a slice" where
  "slice_from s lo =
     (if 0 \<le> lo \<and> lo \<le> s_len s
      then Inr \<lparr>s_nil = s_nil s, s_cells = drop (nat lo) (s_cells s), s_len = s_len s - lo\<rparr>
      else Inl SliceBounds)"

text \<open>The items \<open>s[lo:hi]\<close>; the upper bound may reach up to the capacity.\<close>

definition slice_window :: "'a slice \<Rightarrow> int \<Rightarrow> int \<Rightarrow> go_panic + 'a list" where
  "slice_window s lo hi = go_slice (s_cells s) lo hi"

text \<open>\<open>s[i]\<close> and \<open>s[i] = x\<close>.\<close>

definition slice_get :: "'a slice \<Rightarrow> int \<Rightarrow> go_panic + 'a" where
  "slice_get s i =
     (if 0 \<le> i \<and> i < s_len s then Inr (s_cells s ! nat i) else Inl IndexRange)"

definition slice_set :: "'a slice \<Rightarrow> int \<Rightarrow> 'a \<Rightarrow> go_panic + 'a slice" where
  "slice_set s i x =
     (if 0 \<le> i \<and> i < s_len s then Inr (s\<lparr>s_cells := (s_cells s)[nat i := x]\<rparr>)
      else Inl IndexRange)"

text \<open>\<open>copy(s[lo:], ys)\<close>: the number of items copied and the slice after it.\<close>

definition slice_copy :: "'a slice \<Rightarrow> int \<Rightarrow> 'a list \<Rightarrow> go_panic + (int \<times> 'a slice)" where
  "slice_copy s lo ys =
     (if 0 \<le> lo \<and> lo \<le> s_len s
      then Inr (min (s_len s - lo) (int (length ys)),
                s\<lparr>s_cells := overlay (s_cells s) (nat lo) (take (nat (s_len s - lo)) ys)\<rparr>)
      else Inl SliceBounds)"

definition slice_ok :: "'a slice \<Rightarrow> bool" where
  "slice_ok s \<longleftrightarrow> 0 \<le> s_len s \<and> s_len s \<le> s_cap s \<and> s_cap s \<le> maxInt
     \<and> (s_nil s \<longrightarrow> s_cells s = [])"

lemma reslice_ok [go_simps]: "0 \<le> hi \<Longrightarrow> hi \<le> s_cap s \<Longrightarrow> reslice s hi = Inr (s\<lparr>s_len := hi\<rparr>)"
  by (simp add: reslice_def)

lemma slice_from_ok [go_simps]:
  "0 \<le> lo \<Longrightarrow> lo \<le> s_len s \<Longrightarrow>
    slice_from s lo =
      Inr \<lparr>s_nil = s_nil s, s_cells = drop (nat lo) (s_cells s), s_len = s_len s - lo\<rparr>"
  by (simp add: slice_from_def)

lemma slice_copy_ok [go_simps]:
  "0 \<le> lo \<Longrightarrow> lo \<le> s_len s \<Longrightarrow>
    slice_copy s lo ys =
      Inr (min (s_len s - lo) (int (length ys)),
           s\<lparr>s_cells := overlay (s_cells s) (nat lo) (take (nat (s_len s - lo)) ys)\<rparr>)"
  by (simp add: slice_copy_def)

lemma slice_get_ok [go_simps]:
  "0 \<le> i \<Longrightarrow> i < s_len s \<Longrightarrow> slice_get s i = Inr (s_cells s ! nat i)"
  by (simp add: slice_get_def)

lemma slice_set_ok [go_simps]:
  "0 \<le> i \<Longrightarrow> i < s_len s \<Longrightarrow> slice_set s i x = Inr (s\<lparr>s_cells := (s_cells s)[nat i := x]\<rparr>)"
  by (simp add: slice_set_def)

lemma s_cap_simps [simp]:
  "s_cap (s\<lparr>s_len := n\<rparr>) = s_cap s"
  "s_cap (s\<lparr>s_cells := xs\<rparr>) = int (length xs)"
  "s_cap (slice_of xs n) = int (length xs)"
  "s_cap \<lparr>s_nil = b, s_cells = xs, s_len = n\<rparr> = int (length xs)"
  by (simp_all add: s_cap_def slice_of_def)

lemma slice_of_sel [simp]:
  "s_nil (slice_of xs n) = False" "s_cells (slice_of xs n) = xs" "s_len (slice_of xs n) = n"
  by (simp_all add: slice_of_def)

section \<open>The runtime\<close>

text \<open>
  \<open>zero_val\<close> is the zero value of the item type.  \<open>alloc c\<close> is the outcome of
  \<open>append([]T(nil), make([]T, c)...)\<close>: \<open>Some k\<close> when it yields a slice of capacity \<open>k\<close> (the
  runtime rounds \<open>c\<close> up to a size class), \<open>None\<close> when \<open>make\<close> panics because \<open>c\<close> items are more
  than the address space holds.
\<close>

record 'a runtime =
  zero_val :: 'a
  alloc :: "int \<Rightarrow> int option"

definition runtime_ok :: "'a runtime \<Rightarrow> bool" where
  "runtime_ok rt \<longleftrightarrow> (\<forall>c k. alloc rt c = Some k \<longrightarrow> 0 \<le> c \<and> c \<le> k \<and> k \<le> maxInt)"

lemma runtime_okD:
  "runtime_ok rt \<Longrightarrow> alloc rt c = Some k \<Longrightarrow> 0 \<le> c \<and> c \<le> k \<and> k \<le> maxInt"
  by (auto simp: runtime_ok_def)

section \<open>Loops with fuel\<close>

text \<open>
  The loops that run until a client's reader reports the end have no bound of their own.  They
  carry fuel; the result is an option, \<open>None\<close> meaning that the fuel ran out.  \<open>stepThen\<close>
  sequences a step of the body, whose panic ends the loop.
\<close>

definition stepThen :: "'e + 'a \<Rightarrow> ('a \<Rightarrow> ('e + 'b) option) \<Rightarrow> ('e + 'b) option" where
  "stepThen m f = (case m of Inl e \<Rightarrow> Some (Inl e) | Inr x \<Rightarrow> f x)"

lemma stepThen_simps [simp]:
  "stepThen (Inl e) f = Some (Inl e)"
  "stepThen (Inr x) f = f x"
  by (simp_all add: stepThen_def)

end
