(* ===== verification/Gio.thy ===== *)
theory Gio
  imports Slices
begin

text \<open>
  The interfaces of the external package \<open>gio\<close> that the library both implements and consumes:
  \<open>gio.Reader[T]\<close> (\<open>Read(p []T) (n int, err error)\<close>) and \<open>gio.Writer[T]\<close>
  (\<open>Write(p []T) (n int, err error)\<close>).  A reader is a state and a function that takes the items
  now in \<open>p\<close> and gives the results, the items of \<open>p\<close> afterwards and the new state; a writer
  takes the items of \<open>p\<close>.  The locales state the contract that the clients in this library
  (\<open>ReadFrom\<close>, \<open>WriteTo\<close>) rely on; the components that implement it are interpretations.
\<close>

type_synonym ('r, 'a) reader_fn =
  "'r \<Rightarrow> 'a list \<Rightarrow> go_panic + ((int \<times> go_error option \<times> 'a list) \<times> 'r)"

type_synonym ('w, 'a) writer_fn =
  "'w \<Rightarrow> 'a list \<Rightarrow> go_panic + ((int \<times> go_error option) \<times> 'w)"

section \<open>Readers\<close>

text \<open>
  \<open>rest r\<close> is the data still to come.  A call with a non-empty \<open>p\<close> delivers the next \<open>n\<close> items
  at the front of \<open>p\<close>; it either makes progress without an error, or reports \<open>io.EOF\<close> once
  everything has been delivered (possibly together with the last items).
\<close>

definition read_outcome ::
  "'a list \<Rightarrow> 'a list \<Rightarrow> int \<times> go_error option \<times> 'a list \<Rightarrow> 'a list \<Rightarrow> bool" where
  "read_outcome p todo res todo' \<longleftrightarrow>
     (case res of (n, e, q) \<Rightarrow>
        0 \<le> n \<and> n \<le> int (length p) \<and> n \<le> int (length todo) \<and> length q = length p
        \<and> take (nat n) q = take (nat n) todo \<and> todo' = drop (nat n) todo
        \<and> (e = None \<and> 0 < n \<or> e = Some EOF \<and> todo' = []))"

lemma read_outcomeE:
  assumes "read_outcome p todo res todo'"
  obtains (progress) n q where "res = (int n, None, q)" "0 < n" "n \<le> length p"
      "n \<le> length todo" "length q = length p" "take n q = take n todo" "todo' = drop n todo"
    | (eof) q where "res = (int (length todo), Some EOF, q)" "length todo \<le> length p"
      "length q = length p" "take (length todo) q = todo" "todo' = []"
proof -
  obtain n e q where res: "res = (n, e, q)" by (cases res)
  have n: "n = int (nat n)" "nat n \<le> length p" "nat n \<le> length todo"
    and q: "length q = length p" "take (nat n) q = take (nat n) todo" "todo' = drop (nat n) todo"
    and e: "e = None \<and> 0 < n \<or> e = Some EOF \<and> todo' = []"
    using assms by (auto simp: read_outcome_def res)
  from e show ?thesis
  proof
    assume "e = None \<and> 0 < n"
    with n q show ?thesis by (intro progress [of "nat n" q]) (auto simp: res)
  next
    assume *: "e = Some EOF \<and> todo' = []"
    with n(3) q(3) have "nat n = length todo" by simp
    with n(1,2) q * show ?thesis by (intro eof [of q]) (simp_all add: res)
  qed
qed

locale gio_reader =
  fixes read_call :: "('r, 'a) reader_fn"
    and rest :: "'r \<Rightarrow> 'a list"
    and reader_inv :: "'r \<Rightarrow> bool"
  assumes read_ok: "reader_inv r \<Longrightarrow> p \<noteq> [] \<Longrightarrow>
      \<exists>res r'. read_call r p = Inr (res, r') \<and> reader_inv r' \<and> read_outcome p (rest r) res (rest r')"

text \<open>Readers that never deliver items together with \<open>io.EOF\<close>.\<close>

locale gio_clean_reader = gio_reader read_call rest reader_inv
  for read_call :: "('r, 'a) reader_fn" and rest reader_inv +
  assumes eof_clean: "reader_inv r \<Longrightarrow> p \<noteq> [] \<Longrightarrow>
      read_call r p = Inr ((n, Some EOF, q), r') \<Longrightarrow> n = 0"

text \<open>Readers that leave the part of \<open>p\<close> they do not fill as it was.\<close>

locale gio_tidy_reader = gio_clean_reader read_call rest reader_inv
  for read_call :: "('r, 'a) reader_fn" and rest reader_inv +
  assumes tidy: "reader_inv r \<Longrightarrow> p \<noteq> [] \<Longrightarrow>
      read_call r p = Inr ((n, e, q), r') \<Longrightarrow> drop (nat n) q = drop (nat n) p"

text \<open>
  The weaker contract of a source that reports its counts truthfully: whatever it delivers is the
  front of \<open>rest\<close>.  It may report an error \<open>e\<close> only where \<open>stop e\<close> holds of what is then left,
  and it may deliver nothing without an error only where it may be given up with
  \<open>io.ErrNoProgress\<close>.
\<close>

locale gio_source =
  fixes read_call :: "('r, 'a) reader_fn"
    and rest :: "'r \<Rightarrow> 'a list"
    and reader_inv :: "'r \<Rightarrow> bool"
    and stop :: "go_error \<Rightarrow> 'a list \<Rightarrow> bool"
  assumes source_ok: "reader_inv r \<Longrightarrow> p \<noteq> [] \<Longrightarrow>
      \<exists>n e q r'. read_call r p = Inr ((int n, e, q), r') \<and> reader_inv r'
        \<and> n \<le> length p \<and> n \<le> length (rest r) \<and> length q = length p
        \<and> take n q = take n (rest r) \<and> rest r' = drop n (rest r)
        \<and> (\<forall>x. e = Some x \<longrightarrow> stop x (rest r'))
        \<and> (n = 0 \<and> e = None \<longrightarrow> stop ErrNoProgress (rest r'))"
    and stop_later: "stop e todo \<Longrightarrow> stop e (drop n todo)"

text \<open>A \<open>gio_reader\<close> stops with \<open>io.EOF\<close> only, and only at the end.\<close>

definition at_eof :: "go_error \<Rightarrow> 'a list \<Rightarrow> bool" where
  "at_eof e todo \<longleftrightarrow> e = EOF \<and> todo = []"

sublocale gio_reader \<subseteq> gio_source read_call rest reader_inv at_eof
proof
  fix r :: 'r and p :: "'a list"
  assume "reader_inv r" "p \<noteq> []"
  then obtain res r' where *: "read_call r p = Inr (res, r')" "reader_inv r'"
    and out: "read_outcome p (rest r) res (rest r')" using read_ok by blast
  from out show "\<exists>n e q r'. read_call r p = Inr ((int n, e, q), r') \<and> reader_inv r'
        \<and> n \<le> length p \<and> n \<le> length (rest r) \<and> length q = length p
        \<and> take n q = take n (rest r) \<and> rest r' = drop n (rest r)
        \<and> (\<forall>x. e = Some x \<longrightarrow> at_eof x (rest r'))
        \<and> (n = 0 \<and> e = None \<longrightarrow> at_eof ErrNoProgress (rest r'))"
    by (cases rule: read_outcomeE) (use * in \<open>auto simp: at_eof_def\<close>)
next
  show "at_eof e todo \<Longrightarrow> at_eof e (drop n todo)" for e n and todo :: "'a list"
    by (simp add: at_eof_def)
qed

context gio_reader
begin

lemma reader_is_source: "gio_source read_call rest reader_inv at_eof"
  by (rule gio_source_axioms)

end

lemma source_at_eof_reader:
  fixes read_call :: "('r, 'a) reader_fn" and rest :: "'r \<Rightarrow> 'a list"
  assumes "gio_source read_call rest reader_inv at_eof"
  shows "gio_reader read_call rest reader_inv"
proof
  fix r :: 'r and p :: "'a list"
  assume "reader_inv r" "p \<noteq> []"
  from gio_source.source_ok [OF assms this] obtain n e q r' where
    *: "read_call r p = Inr ((int n, e, q), r')" "reader_inv r'" "n \<le> length p" "n \<le> length (rest r)"
      "length q = length p" "take n q = take n (rest r)" "rest r' = drop n (rest r)"
      "\<forall>x. e = Some x \<longrightarrow> at_eof x (rest r')" "n = 0 \<and> e = None \<longrightarrow> at_eof ErrNoProgress (rest r')"
    by blast
  then have "read_outcome p (rest r) (int n, e, q) (rest r')"
    by (cases e) (auto simp: read_outcome_def at_eof_def)
  with * show "\<exists>res r'. read_call r p = Inr (res, r') \<and> reader_inv r' \<and> read_outcome p (rest r) res (rest r')"
    by blast
qed

section \<open>Writers\<close>

text \<open>
  \<open>got w\<close> is everything the writer has accepted.  A call accepts all of \<open>p\<close> or panics with one
  of \<open>faults\<close>.
\<close>

locale gio_writer =
  fixes write_call :: "('w, 'a) writer_fn"
    and got :: "'w \<Rightarrow> 'a list"
    and writer_inv :: "'w \<Rightarrow> bool"
    and faults :: "go_panic set"
  assumes write_ok: "writer_inv w \<Longrightarrow> write_call w p = Inr (res, w') \<Longrightarrow>
      res = (int (length p), None) \<and> writer_inv w' \<and> got w' = got w @ p"
    and write_panic: "writer_inv w \<Longrightarrow> write_call w p = Inl f \<Longrightarrow> f \<in> faults"

text \<open>
  The weaker contract of a writer that reports its counts truthfully, as \<open>io.Writer\<close> documents
  it: it accepts the front of \<open>p\<close>, and gives an error where that is not all of it.
\<close>

locale gio_sink =
  fixes write_call :: "('w, 'a) writer_fn"
    and got :: "'w \<Rightarrow> 'a list"
    and writer_inv :: "'w \<Rightarrow> bool"
    and faults :: "go_panic set"
  assumes sink_ok: "writer_inv w \<Longrightarrow> write_call w p = Inr ((n, e), w') \<Longrightarrow>
      \<exists>k. n = int k \<and> k \<le> length p \<and> writer_inv w' \<and> got w' = got w @ take k p
        \<and> (k < length p \<longrightarrow> e \<noteq> None)"
    and sink_panic: "writer_inv w \<Longrightarrow> write_call w p = Inl f \<Longrightarrow> f \<in> faults"

sublocale gio_writer \<subseteq> gio_sink write_call got writer_inv faults
proof
  fix w w' :: 'w and p n e f
  assume w: "writer_inv w"
  show "\<exists>k. n = int k \<and> k \<le> length p \<and> writer_inv w' \<and> got w' = got w @ take k p \<and> (k < length p \<longrightarrow> e \<noteq> None)"
    if "write_call w p = Inr ((n, e), w')"
    using write_ok [OF w that] by (intro exI [of _ "length p"]) simp
  show "f \<in> faults" if "write_call w p = Inl f"
    by (rule write_panic [OF w that])
qed

section \<open>Readers and writers that move the data themselves\<close>

text \<open>
  \<open>gio.WriterTo[T]\<close> (\<open>WriteTo(w Writer[T]) (n int64, err error)\<close>) and \<open>gio.ReaderFrom[T]\<close>
  (\<open>ReadFrom(r Reader[T]) (n int64, err error)\<close>): the client's reader or writer may have such a
  method, which the buffered readers and writers then call.  Both move items from a reader to a
  writer; \<open>None\<close> is a call that does not return.
\<close>

type_synonym ('r, 'w) write_to_fn = "'r \<Rightarrow> 'w \<Rightarrow> (go_panic + ((int \<times> go_error option) \<times> 'w \<times> 'r)) option"
type_synonym ('w, 'r) read_from_fn = "'w \<Rightarrow> 'r \<Rightarrow> (go_panic + ((int \<times> go_error option) \<times> 'r \<times> 'w)) option"

definition transfers ::
  "('r \<Rightarrow> 'a list) \<Rightarrow> ('r \<Rightarrow> bool) \<Rightarrow> ('w \<Rightarrow> 'a list) \<Rightarrow> ('w \<Rightarrow> bool) \<Rightarrow> 'r \<Rightarrow> 'w \<Rightarrow> int \<Rightarrow> 'r \<Rightarrow> 'w \<Rightarrow> bool" where
  "transfers rest ri got wi r w n r' w' \<longleftrightarrow>
     (\<exists>k. n = int k \<and> k \<le> length (rest r) \<and> ri r' \<and> wi w'
        \<and> rest r' = drop k (rest r) \<and> got w' = got w @ take k (rest r))"

text \<open>Without an error the reader was read to its end; \<open>io.EOF\<close> itself is no error.\<close>

definition ended :: "(go_error \<Rightarrow> 'a list \<Rightarrow> bool) \<Rightarrow> go_error option \<Rightarrow> 'a list \<Rightarrow> bool" where
  "ended stop e todo \<longleftrightarrow> (case e of None \<Rightarrow> stop EOF todo | Some x \<Rightarrow> x \<noteq> EOF \<and> stop x todo)"

lemma ended_at_eof [simp]: "ended at_eof e todo \<longleftrightarrow> e = None \<and> todo = []"
  by (auto simp: ended_def at_eof_def split: option.split)

locale gio_writer_to =
  fixes write_to :: "('r, 'w) write_to_fn"
    and rest :: "'r \<Rightarrow> 'a list"
    and reader_inv :: "'r \<Rightarrow> bool"
    and stop :: "go_error \<Rightarrow> 'a list \<Rightarrow> bool"
    and got :: "'w \<Rightarrow> 'a list"
    and writer_inv :: "'w \<Rightarrow> bool"
    and faults :: "go_panic set"
  assumes write_to_ok: "reader_inv r \<Longrightarrow> writer_inv w \<Longrightarrow>
      (\<exists>f. write_to r w = Some (Inl f) \<and> f \<in> faults)
      \<or> (\<exists>n e w' r'. write_to r w = Some (Inr ((n, e), w', r'))
          \<and> transfers rest reader_inv got writer_inv r w n r' w' \<and> ended stop e (rest r'))"

text \<open>
  The contract of \<open>ReadFrom\<close> leaves the writer room for errors of its own; \<open>gio_full_reader_from\<close>
  is that of a writer that has none.
\<close>

locale gio_reader_from =
  fixes read_from :: "('w, 'r) read_from_fn"
    and rest :: "'r \<Rightarrow> 'a list"
    and reader_inv :: "'r \<Rightarrow> bool"
    and stop :: "go_error \<Rightarrow> 'a list \<Rightarrow> bool"
    and got :: "'w \<Rightarrow> 'a list"
    and writer_inv :: "'w \<Rightarrow> bool"
    and faults :: "go_panic set"
  assumes read_from_ok: "reader_inv r \<Longrightarrow> writer_inv w \<Longrightarrow>
      (\<exists>f. read_from w r = Some (Inl f) \<and> f \<in> faults)
      \<or> (\<exists>n e r' w'. read_from w r = Some (Inr ((n, e), r', w'))
          \<and> transfers rest reader_inv got writer_inv r w n r' w' \<and> (e = None \<longrightarrow> stop EOF (rest r')))"

locale gio_full_reader_from = gio_reader_from read_from rest reader_inv stop got writer_inv faults
  for read_from :: "('w, 'r) read_from_fn" and rest :: "'r \<Rightarrow> 'a list"
    and reader_inv stop got writer_inv faults +
  assumes read_from_full: "reader_inv r \<Longrightarrow> writer_inv w \<Longrightarrow>
      read_from w r = Some (Inr ((n, Some x), r', w')) \<Longrightarrow> x \<noteq> EOF \<and> stop x (rest r')"

end
