(* ===== verification/Buffer.thy ===== *)
theory Buffer
  imports Gio
begin

text \<open>
  \<open>buffer.go\<close>: the variable-sized \<open>Buffer[T]\<close>.  A buffer is its slice \<open>buf\<close>, the read offset
  \<open>off\<close> and the flag \<open>isReading\<close>; every method is a function from the buffer (and, where items
  are allocated, the runtime) to a panic or the results with the new buffer.  Slices the code
  returns as views of the buffer (\<open>Value\<close>, \<open>Next\<close>, \<open>readSlice\<close>) are modelled by the items they
  hold when the method returns.  The contract is a queue: \<open>unread b\<close> is the list of items written
  and not yet read; writes append to it, reads take from its front.
\<close>

section \<open>State\<close>

definition smallBufferSize :: int where
  "smallBufferSize = 64"

definition MinRead :: int where
  "MinRead = 512"

record 'a Buffer =
  buf :: "'a slice"
  off :: int
  isReading :: bool

text \<open>The zero value, ready to use, and the constructor.\<close>

definition zero_Buffer :: "'a Buffer" where
  "zero_Buffer = \<lparr>buf = nil_slice, off = 0, isReading = False\<rparr>"

definition NewBuffer :: "'a slice \<Rightarrow> 'a Buffer" where
  "NewBuffer s = \<lparr>buf = s, off = 0, isReading = False\<rparr>"

section \<open>Methods\<close>

definition Buffer_Value :: "'a Buffer \<Rightarrow> go_panic + 'a list" where
  "Buffer_Value b = andThen (slice_from (buf b) (off b)) (\<lambda>s. Inr (s_items s))"

definition Buffer_empty :: "'a Buffer \<Rightarrow> bool" where
  "Buffer_empty b \<longleftrightarrow> s_len (buf b) \<le> off b"

definition Buffer_Len :: "'a Buffer \<Rightarrow> int" where
  "Buffer_Len b = s_len (buf b) - off b"

definition Buffer_Cap :: "'a Buffer \<Rightarrow> int" where
  "Buffer_Cap b = s_cap (buf b)"

definition Buffer_Reset :: "'a Buffer \<Rightarrow> 'a Buffer" where
  "Buffer_Reset b = b\<lparr>buf := (buf b)\<lparr>s_len := 0\<rparr>, off := 0, isReading := False\<rparr>"

definition Buffer_Truncate :: "'a Buffer \<Rightarrow> int \<Rightarrow> go_panic + 'a Buffer" where
  "Buffer_Truncate b n =
     (if n = 0 then Inr (Buffer_Reset b)
      else
        (let b1 = b\<lparr>isReading := False\<rparr>
         in if n < 0 \<or> n > Buffer_Len b1
            then Inl (PanicStr ''gbuf.Buffer: truncation out of range'')
            else andThen (reslice (buf b1) (off b1 + n)) (\<lambda>s. Inr (b1\<lparr>buf := s\<rparr>))))"

definition Buffer_tryGrowByReslice ::
  "'a Buffer \<Rightarrow> int \<Rightarrow> go_panic + ((int \<times> bool) \<times> 'a Buffer)" where
  "Buffer_tryGrowByReslice b n =
     (let l = s_len (buf b)
      in if n \<le> s_cap (buf b) - l
         then andThen (reslice (buf b) (l + n)) (\<lambda>s. Inr ((l, True), b\<lparr>buf := s\<rparr>))
         else Inr ((0, False), b))"

text \<open>
  \<open>growSlice\<close>: the new slice has room for \<open>len(b) + n\<close> items and at least twice the old
  capacity; a failing allocation is recovered and becomes a panic with \<open>ErrBufferTooLarge\<close>.
\<close>

definition growSlice :: "'a runtime \<Rightarrow> 'a slice \<Rightarrow> int \<Rightarrow> go_panic + 'a slice" where
  "growSlice rt s n =
     (let c0 = s_len s + n;
          c = (if c0 < 2 * s_cap s then 2 * s_cap s else c0)
      in case alloc rt c of
           None \<Rightarrow> Inl (PanicErr ErrBufferTooLarge)
         | Some k \<Rightarrow>
             andThen (slice_copy (slice_of (replicate (nat k) (zero_val rt)) c) 0 (s_items s))
               (\<lambda>(_, b2). reslice b2 (s_len s)))"

text \<open>
  The second half of \<open>grow\<close>, once the unread length \<open>m\<close> is known and reslicing has failed: a
  first allocation, sliding the items down, or a new slice.
\<close>

definition Buffer_makeRoom ::
  "'a runtime \<Rightarrow> 'a Buffer \<Rightarrow> int \<Rightarrow> int \<Rightarrow> go_panic + (int \<times> 'a Buffer)" where
  "Buffer_makeRoom rt b n m =
     (if s_nil (buf b) \<and> n \<le> smallBufferSize then
        andThen (make_slice (zero_val rt) n smallBufferSize) (\<lambda>s. Inr (0, b\<lparr>buf := s\<rparr>))
      else
        (let c = s_cap (buf b)
         in andThen
           (if n \<le> c sdiv 2 - m then
              andThen (slice_from (buf b) (off b)) (\<lambda>src.
              andThen (slice_copy (buf b) 0 (s_items src)) (\<lambda>(_, s). Inr s))
            else if c > maxInt - c - n then Inl (PanicErr ErrBufferTooLarge)
            else andThen (slice_from (buf b) (off b)) (\<lambda>src. growSlice rt src (off b + n)))
           (\<lambda>s. andThen (reslice s (m + n)) (\<lambda>s'. Inr (m, b\<lparr>buf := s', off := 0\<rparr>)))))"

definition Buffer_grow :: "'a runtime \<Rightarrow> 'a Buffer \<Rightarrow> int \<Rightarrow> go_panic + (int \<times> 'a Buffer)" where
  "Buffer_grow rt b n =
     (let m = Buffer_Len b;
          b1 = (if m = 0 \<and> off b \<noteq> 0 then Buffer_Reset b else b)
      in andThen (Buffer_tryGrowByReslice b1 n) (\<lambda>((i, ok), b2).
           if ok then Inr (i, b2) else Buffer_makeRoom rt b2 n m))"

definition Buffer_Grow :: "'a runtime \<Rightarrow> 'a Buffer \<Rightarrow> int \<Rightarrow> go_panic + 'a Buffer" where
  "Buffer_Grow rt b n =
     (if n < 0 then Inl (PanicErr ErrBufferNegativeCount)
      else andThen (Buffer_grow rt b n) (\<lambda>(m, b1).
             andThen (reslice (buf b1) m) (\<lambda>s. Inr (b1\<lparr>buf := s\<rparr>))))"

text \<open>The room for a write: by reslicing if the capacity allows it, by \<open>grow\<close> otherwise.\<close>

definition Buffer_room :: "'a runtime \<Rightarrow> 'a Buffer \<Rightarrow> int \<Rightarrow> go_panic + (int \<times> 'a Buffer)" where
  "Buffer_room rt b n =
     andThen (Buffer_tryGrowByReslice b n) (\<lambda>((m, ok), b1).
       if ok then Inr (m, b1) else Buffer_grow rt b1 n)"

definition Buffer_Write ::
  "'a runtime \<Rightarrow> 'a Buffer \<Rightarrow> 'a list \<Rightarrow> go_panic + ((int \<times> go_error option) \<times> 'a Buffer)" where
  "Buffer_Write rt b p =
     (let b1 = b\<lparr>isReading := False\<rparr>
      in andThen (Buffer_room rt b1 (int (length p))) (\<lambda>(m, b2).
         andThen (slice_copy (buf b2) m p) (\<lambda>(n, s). Inr ((n, None), b2\<lparr>buf := s\<rparr>))))"

definition Buffer_WriteItem ::
  "'a runtime \<Rightarrow> 'a Buffer \<Rightarrow> 'a \<Rightarrow> go_panic + (go_error option \<times> 'a Buffer)" where
  "Buffer_WriteItem rt b item =
     (let b1 = b\<lparr>isReading := False\<rparr>
      in andThen (Buffer_room rt b1 1) (\<lambda>(m, b2).
         andThen (slice_set (buf b2) m item) (\<lambda>s. Inr (None, b2\<lparr>buf := s\<rparr>))))"

text \<open>
  \<open>ReadFrom\<close>: the loop of the source with fuel; \<open>n\<close> counts the items read so far.  The reader
  gets the free cells \<open>buf[i:cap(buf)]\<close> and leaves them changed.
\<close>

fun Buffer_ReadFrom_loop ::
  "nat \<Rightarrow> 'a runtime \<Rightarrow> ('r, 'a) reader_fn \<Rightarrow> 'r \<Rightarrow> 'a Buffer \<Rightarrow> int
   \<Rightarrow> (go_panic + ((int \<times> go_error option) \<times> 'r \<times> 'a Buffer)) option" where
  "Buffer_ReadFrom_loop 0 rt rd r b n = None"
| "Buffer_ReadFrom_loop (Suc fuel) rt rd r b n =
     stepThen (Buffer_grow rt b MinRead) (\<lambda>(i, b1).
     stepThen (reslice (buf b1) i) (\<lambda>s1.
     stepThen (slice_window s1 i (s_cap s1)) (\<lambda>p.
     stepThen (rd r p) (\<lambda>((m, e, q), r').
       if m < 0 then Some (Inl (PanicErr ErrBufferNegativeRead))
       else
         stepThen (reslice (s1\<lparr>s_cells := overlay (s_cells s1) (nat i) q\<rparr>) (i + m)) (\<lambda>s2.
           let b2 = b1\<lparr>buf := s2\<rparr>; n' = n + m
           in if is_err e EOF then Some (Inr ((n', None), r', b2))
              else if e \<noteq> None then Some (Inr ((n', e), r', b2))
              else Buffer_ReadFrom_loop fuel rt rd r' b2 n')))))"

definition Buffer_ReadFrom ::
  "nat \<Rightarrow> 'a runtime \<Rightarrow> ('r, 'a) reader_fn \<Rightarrow> 'a Buffer \<Rightarrow> 'r
   \<Rightarrow> (go_panic + ((int \<times> go_error option) \<times> 'r \<times> 'a Buffer)) option" where
  "Buffer_ReadFrom fuel rt rd b r = Buffer_ReadFrom_loop fuel rt rd r (b\<lparr>isReading := False\<rparr>) 0"

definition Buffer_WriteTo ::
  "('w, 'a) writer_fn \<Rightarrow> 'a Buffer \<Rightarrow> 'w
   \<Rightarrow> go_panic + ((int \<times> go_error option) \<times> 'w \<times> 'a Buffer)" where
  "Buffer_WriteTo wr b w =
     (let b1 = b\<lparr>isReading := False\<rparr>; nItems = Buffer_Len b1
      in if nItems > 0 then
           andThen (slice_from (buf b1) (off b1)) (\<lambda>src.
           andThen (wr w (s_items src)) (\<lambda>((m, e), w').
             if m > nItems then Inl (PanicErr ErrBufferInvalidWriteCount)
             else
               (let b2 = b1\<lparr>off := off b1 + m\<rparr>
                in if e \<noteq> None then Inr ((m, e), w', b2)
                   else if m \<noteq> nItems then Inr ((m, Some ErrShortWrite), w', b2)
                   else Inr ((m, None), w', Buffer_Reset b2))))
         else Inr ((0, None), w, Buffer_Reset b1))"

definition Buffer_Read ::
  "'a Buffer \<Rightarrow> 'a list \<Rightarrow> go_panic + ((int \<times> go_error option \<times> 'a list) \<times> 'a Buffer)" where
  "Buffer_Read b p =
     (let b1 = b\<lparr>isReading := False\<rparr>
      in if Buffer_empty b1 then
           Inr ((0, if p = [] then None else Some EOF, p), Buffer_Reset b1)
         else
           andThen (slice_from (buf b1) (off b1)) (\<lambda>src.
           andThen (go_copy p 0 (int (length p)) (s_items src)) (\<lambda>(n, q).
             let b2 = b1\<lparr>off := off b1 + n\<rparr>
             in Inr ((n, None, q), if n > 0 then b2\<lparr>isReading := True\<rparr> else b2))))"

definition Buffer_Next :: "'a Buffer \<Rightarrow> int \<Rightarrow> go_panic + ('a list \<times> 'a Buffer)" where
  "Buffer_Next b n =
     (let b1 = b\<lparr>isReading := False\<rparr>; m = Buffer_Len b1; n' = (if n > m then m else n)
      in andThen (slice_window (buf b1) (off b1) (off b1 + n')) (\<lambda>data.
           let b2 = b1\<lparr>off := off b1 + n'\<rparr>
           in Inr (data, if n' > 0 then b2\<lparr>isReading := True\<rparr> else b2)))"

definition Buffer_ReadItem ::
  "'a runtime \<Rightarrow> 'a Buffer \<Rightarrow> go_panic + (('a \<times> go_error option) \<times> 'a Buffer)" where
  "Buffer_ReadItem rt b =
     (if Buffer_empty b then Inr ((zero_val rt, Some EOF), Buffer_Reset b)
      else andThen (slice_get (buf b) (off b)) (\<lambda>c.
             Inr ((c, None), b\<lparr>off := off b + 1, isReading := True\<rparr>)))"

definition Buffer_UnreadItem :: "'a Buffer \<Rightarrow> go_error option \<times> 'a Buffer" where
  "Buffer_UnreadItem b =
     (if \<not> isReading b then (Some ErrBufferUnreadItem, b)
      else
        (let b1 = b\<lparr>isReading := False\<rparr>
         in (None, if off b1 > 0 then b1\<lparr>off := off b1 - 1\<rparr> else b1)))"

text \<open>
  The search of \<open>readSlice\<close>: the index after the first item from \<open>i\<close> on that satisfies \<open>delim\<close>,
  or -1.
\<close>

function readSlice_find :: "('a \<Rightarrow> bool) \<Rightarrow> 'a slice \<Rightarrow> int \<Rightarrow> go_panic + int" where
  "readSlice_find delim s i =
     (if i < s_len s then
        andThen (slice_get s i) (\<lambda>x. if delim x then Inr (i + 1) else readSlice_find delim s (i + 1))
      else Inr (-1))"
  by pat_completeness auto
termination
  by (relation "measure (\<lambda>(delim, s, i). nat (s_len s - i))") auto

declare readSlice_find.simps [simp del]

definition Buffer_readSlice ::
  "('a \<Rightarrow> bool) \<Rightarrow> 'a Buffer \<Rightarrow> go_panic + (('a list \<times> go_error option) \<times> 'a Buffer)" where
  "Buffer_readSlice delim b =
     andThen (readSlice_find delim (buf b) (off b)) (\<lambda>end0.
       let (end, err) = (if end0 < 0 then (s_len (buf b), Some EOF) else (end0, None))
       in andThen (slice_window (buf b) (off b) end) (\<lambda>line.
            Inr ((line, err), b\<lparr>off := end, isReading := True\<rparr>)))"

definition Buffer_ReadItems ::
  "('a \<Rightarrow> bool) \<Rightarrow> 'a Buffer \<Rightarrow> go_panic + (('a list \<times> go_error option) \<times> 'a Buffer)" where
  "Buffer_ReadItems delim b =
     andThen (Buffer_readSlice delim b) (\<lambda>((slice, err), b1). Inr (([] @ slice, err), b1))"

section \<open>The queue a buffer holds\<close>

definition unread :: "'a Buffer \<Rightarrow> 'a list" where
  "unread b = sub (s_cells (buf b)) (nat (off b)) (nat (s_len (buf b)))"

definition buf_inv :: "'a Buffer \<Rightarrow> bool" where
  "buf_inv b \<longleftrightarrow> slice_ok (buf b) \<and> 0 \<le> off b \<and> off b \<le> s_len (buf b)"

lemma buf_invD:
  assumes "buf_inv b"
  shows "0 \<le> off b" "off b \<le> s_len (buf b)" "0 \<le> s_len (buf b)"
    "s_len (buf b) \<le> s_cap (buf b)" "s_len (buf b) \<le> int (length (s_cells (buf b)))"
    "s_cap (buf b) \<le> maxInt"
  using assms by (auto simp: buf_inv_def slice_ok_def s_cap_def)

lemma length_unread: "buf_inv b \<Longrightarrow> int (length (unread b)) = Buffer_Len b"
  using buf_invD[of b] by (simp add: unread_def Buffer_Len_def)

lemma unread_Nil_iff: "buf_inv b \<Longrightarrow> unread b = [] \<longleftrightarrow> Buffer_empty b"
  using buf_invD[of b] by (auto simp: unread_def Buffer_empty_def sub_def)

lemma unread_simps [simp]:
  "unread (b\<lparr>isReading := r\<rparr>) = unread b"
  "unread (b\<lparr>isReading := r, off := k\<rparr>) = unread (b\<lparr>off := k\<rparr>)"
  "unread (Buffer_Reset b) = []"
  by (simp_all add: unread_def Buffer_Reset_def)

lemma buf_inv_simps [simp]:
  "buf_inv (b\<lparr>isReading := r\<rparr>) = buf_inv b"
  "buf_inv (b\<lparr>isReading := r, off := k\<rparr>) = buf_inv (b\<lparr>off := k\<rparr>)"
  by (simp_all add: buf_inv_def)

lemma buf_inv_Reset: "buf_inv b \<Longrightarrow> buf_inv (Buffer_Reset b)"
  by (auto simp: buf_inv_def Buffer_Reset_def slice_ok_def)

lemma buf_inv_off: "buf_inv b \<Longrightarrow> 0 \<le> k \<Longrightarrow> k \<le> s_len (buf b) \<Longrightarrow> buf_inv (b\<lparr>off := k\<rparr>)"
  by (auto simp: buf_inv_def)

lemma unread_off:
  "buf_inv b \<Longrightarrow> 0 \<le> n \<Longrightarrow> unread (b\<lparr>off := off b + n\<rparr>) = drop (nat n) (unread b)"
  using buf_invD[of b] by (simp add: unread_def drop_sub nat_add_distrib)

lemma slice_from_unread:
  "buf_inv b \<Longrightarrow> \<exists>src. slice_from (buf b) (off b) = Inr src \<and> s_items src = unread b"
  using buf_invD[of b]
  by (simp add: slice_from_ok s_items_def unread_def sub_def nat_diff_distrib)

lemma Buffer_Value_ok: "buf_inv b \<Longrightarrow> Buffer_Value b = Inr (unread b)"
  using slice_from_unread[of b] by (auto simp: Buffer_Value_def)

lemma buf_inv_NewBuffer: "slice_ok s \<Longrightarrow> buf_inv (NewBuffer s)"
  by (auto simp: buf_inv_def NewBuffer_def slice_ok_def)

lemma buf_inv_zero: "buf_inv zero_Buffer" "unread zero_Buffer = []"
  by (simp_all add: buf_inv_def zero_Buffer_def slice_ok_def nil_slice_def s_cap_def maxInt_def
      unread_def)

lemma unread_NewBuffer: "unread (NewBuffer s) = s_items s"
  by (simp add: unread_def NewBuffer_def s_items_def sub_from_start)

section \<open>Growing\<close>

text \<open>
  What \<open>grow(n)\<close> guarantees: the unread items end at the returned index \<open>i\<close>, and \<open>n\<close> more cells
  from there on are part of the slice.
\<close>

definition grown :: "'a Buffer \<Rightarrow> int \<Rightarrow> int \<Rightarrow> 'a Buffer \<Rightarrow> bool" where
  "grown b n i b' \<longleftrightarrow> buf_inv b' \<and> s_len (buf b') = i + n \<and> off b' \<le> i
     \<and> sub (s_cells (buf b')) (nat (off b')) (nat i) = unread b
     \<and> (isReading b' \<longrightarrow> isReading b)"

lemma tryGrow_spec:
  assumes "buf_inv b" "0 \<le> n"
  shows "if n \<le> s_cap (buf b) - s_len (buf b)
    then \<exists>b'. Buffer_tryGrowByReslice b n = Inr ((s_len (buf b), True), b')
       \<and> grown b n (s_len (buf b)) b' \<and> s_cap (buf b') = s_cap (buf b)
    else Buffer_tryGrowByReslice b n = Inr ((0, False), b)"
  using assms buf_invD[OF assms(1)]
  by (auto simp: Buffer_tryGrowByReslice_def Let_def go_simps grown_def buf_inv_def slice_ok_def
      unread_def)

lemma growSlice_spec:
  assumes rt: "runtime_ok rt" and s: "slice_ok s" and n: "0 \<le> n"
  shows "growSlice rt s n = Inl (PanicErr ErrBufferTooLarge)
    \<or> (\<exists>t. growSlice rt s n = Inr t \<and> slice_ok t \<and> s_len t = s_len s \<and> s_items t = s_items s
          \<and> s_len s + n \<le> s_cap t)"
proof -
  define c where "c = (if s_len s + n < 2 * s_cap s then 2 * s_cap s else s_len s + n)"
  have c: "s_len s + n \<le> c" "0 \<le> s_len s" "s_len s \<le> int (length (s_cells s))"
    using s n by (auto simp: c_def slice_ok_def s_cap_def)
  show ?thesis
  proof (cases "alloc rt c")
    case None
    then show ?thesis by (simp add: growSlice_def Let_def c_def)
  next
    case (Some k)
    then have k: "c \<le> k" "k \<le> maxInt" "0 \<le> c" "0 \<le> k" using runtime_okD [OF rt, of c k] by auto
    have len: "length (s_items s) = nat (s_len s)"
      using c by (auto simp: s_items_def)
    let ?t = "slice_of (overlay (replicate (nat k) (zero_val rt)) 0 (s_items s)) (s_len s)"
    have "growSlice rt s n = Inr ?t"
      using Some c k n len by (simp add: growSlice_def Let_def c_def [symmetric] go_simps slice_of_def)
    moreover have "slice_ok ?t" "s_len s + n \<le> s_cap ?t"
      using c k n by (simp_all add: slice_ok_def)
    moreover have "s_items ?t = s_items s"
    proof -
      have "nat (s_len s) \<le> nat k" using c k n by simp
      then show ?thesis using len by (subst s_items_def) (simp add: overlay_def)
    qed
    ultimately show ?thesis by simp
  qed
qed

lemma grow_slide:
  assumes b: "buf_inv b" and n: "0 \<le> n" and fit: "n \<le> s_cap (buf b) sdiv 2 - Buffer_Len b"
  shows "\<exists>b'. andThen (slice_from (buf b) (off b)) (\<lambda>src.
            andThen (slice_copy (buf b) 0 (s_items src)) (\<lambda>(_, s).
            andThen (reslice s (Buffer_Len b + n)) (\<lambda>s'. Inr (Buffer_Len b, b\<lparr>buf := s', off := 0\<rparr>))))
          = Inr (Buffer_Len b, b') \<and> grown b n (Buffer_Len b) b' \<and> s_cap (buf b') = s_cap (buf b)"
proof -
  note inv = buf_invD [OF b]
  have half: "s_cap (buf b) sdiv 2 \<le> s_cap (buf b)" using inv by (simp add: sdiv_nonneg)
  obtain src where src: "slice_from (buf b) (off b) = Inr src" "s_items src = unread b"
    using slice_from_unread [OF b] by auto
  have len: "length (unread b) = nat (Buffer_Len b)" "0 \<le> Buffer_Len b"
    "Buffer_Len b \<le> s_len (buf b)"
    using length_unread [OF b] inv by (simp_all add: Buffer_Len_def)
  show ?thesis
    using b src inv half fit n len
    by (auto simp: go_simps grown_def buf_inv_def slice_ok_def overlay_def sub_from_start s_cap_def)
qed

lemma makeRoom_spec:
  assumes rt: "runtime_ok rt" and b: "buf_inv b" and n: "0 \<le> n" and m: "m = Buffer_Len b"
  shows "Buffer_makeRoom rt b n m = Inl (PanicErr ErrBufferTooLarge)
    \<or> (\<exists>i b'. Buffer_makeRoom rt b n m = Inr (i, b') \<and> grown b n i b')"
proof -
  note inv = buf_invD [OF b]
  consider (small) "s_nil (buf b)" "n \<le> smallBufferSize"
    | (slide) "\<not> (s_nil (buf b) \<and> n \<le> smallBufferSize)" "n \<le> s_cap (buf b) sdiv 2 - m"
    | (large) "\<not> (s_nil (buf b) \<and> n \<le> smallBufferSize)" "\<not> n \<le> s_cap (buf b) sdiv 2 - m"
        "s_cap (buf b) > maxInt - s_cap (buf b) - n"
    | (alloc) "\<not> (s_nil (buf b) \<and> n \<le> smallBufferSize)" "\<not> n \<le> s_cap (buf b) sdiv 2 - m"
        "\<not> s_cap (buf b) > maxInt - s_cap (buf b) - n"
    by blast
  then show ?thesis
  proof cases
    case small
    then have "s_cells (buf b) = []" using b by (simp add: buf_inv_def slice_ok_def)
    then have "s_len (buf b) = 0" "off b = 0" "unread b = []"
      using inv by (auto simp: unread_def sub_def)
    with small n b show ?thesis
      by (simp add: Buffer_makeRoom_def make_slice_def smallBufferSize_def grown_def buf_inv_def slice_ok_def
          maxInt_def)
  next
    case slide
    then show ?thesis
      using grow_slide [OF b n] by (auto simp: Buffer_makeRoom_def Let_def m andThen_assoc split_def)
  next
    case large
    then show ?thesis by (auto simp: Buffer_makeRoom_def)
  next
    case alloc
    obtain src where src: "slice_from (buf b) (off b) = Inr src" "s_items src = unread b"
      using slice_from_unread [OF b] by auto
    have "slice_ok src" and len: "s_len src = m"
      using src inv b by (auto simp: go_simps slice_ok_def buf_inv_def s_cap_def m Buffer_Len_def)
    moreover have "0 \<le> m" "0 \<le> off b" using inv by (simp_all add: m Buffer_Len_def)
    ultimately show ?thesis
      using growSlice_spec [OF rt, of src "off b + n"] alloc src n length_unread [OF b]
      by (auto simp: Buffer_makeRoom_def Let_def go_simps grown_def buf_inv_def slice_ok_def s_items_def
          sub_from_start m)
  qed
qed

text \<open>\<open>grow\<close> works on a buffer that was reset if nothing is unread.\<close>

definition compacted :: "'a Buffer \<Rightarrow> 'a Buffer" where
  "compacted b = (if Buffer_Len b = 0 \<and> off b \<noteq> 0 then Buffer_Reset b else b)"

lemma compacted:
  assumes b: "buf_inv b"
  shows "buf_inv (compacted b)" "unread (compacted b) = unread b"
    "isReading (compacted b) \<longrightarrow> isReading b" "Buffer_Len (compacted b) = Buffer_Len b"
    "s_cap (buf (compacted b)) = s_cap (buf b)" "grown (compacted b) n i b' \<Longrightarrow> grown b n i b'"
  using b length_unread [OF b] buf_inv_Reset [OF b]
  by (auto simp: compacted_def grown_def) (auto simp: Buffer_Reset_def Buffer_Len_def)

lemma Buffer_grow_cases:
  assumes b: "buf_inv b" and n: "0 \<le> n"
  shows "if n \<le> s_cap (buf b) - s_len (buf (compacted b))
    then \<exists>i b'. Buffer_grow rt b n = Inr (i, b') \<and> grown b n i b' \<and> s_cap (buf b') = s_cap (buf b)
    else Buffer_grow rt b n = Buffer_makeRoom rt (compacted b) n (Buffer_Len b)"
  using tryGrow_spec [OF compacted(1) [OF b] n] compacted [OF b]
  unfolding Buffer_grow_def Let_def compacted_def [symmetric]
  by (auto split: if_splits)

lemma Buffer_grow_spec:
  assumes rt: "runtime_ok rt" and b: "buf_inv b" and n: "0 \<le> n"
  shows "Buffer_grow rt b n = Inl (PanicErr ErrBufferTooLarge)
    \<or> (\<exists>i b'. Buffer_grow rt b n = Inr (i, b') \<and> grown b n i b')"
  using Buffer_grow_cases [OF b n, of rt] compacted [OF b]
    makeRoom_spec [OF rt compacted(1) [OF b] n, of "Buffer_Len b"]
  by (auto split: if_splits)

section \<open>Writing\<close>

text \<open>\<open>spec_or_toolarge m P\<close>: the step panics with \<open>ErrBufferTooLarge\<close> or its result satisfies \<open>P\<close>.\<close>

definition or_too_large :: "go_panic + 'x \<Rightarrow> ('x \<Rightarrow> bool) \<Rightarrow> bool" where
  "or_too_large m P \<longleftrightarrow> (case m of Inl f \<Rightarrow> f = PanicErr ErrBufferTooLarge | Inr x \<Rightarrow> P x)"

lemma or_too_large_simps [simp]:
  "or_too_large (Inl f) P \<longleftrightarrow> f = PanicErr ErrBufferTooLarge"
  "or_too_large (Inr x) P \<longleftrightarrow> P x"
  by (simp_all add: or_too_large_def)

lemma or_too_large_andThen:
  "or_too_large m P \<Longrightarrow> (\<And>x. P x \<Longrightarrow> or_too_large (f x) Q) \<Longrightarrow> or_too_large (andThen m f) Q"
  by (cases m) auto

lemma or_too_large_mono:
  "or_too_large m P \<Longrightarrow> (\<And>x. P x \<Longrightarrow> Q x) \<Longrightarrow> or_too_large m Q"
  by (cases m) auto

lemma or_too_largeD: "or_too_large m P \<Longrightarrow> m = Inr x \<Longrightarrow> P x"
  by simp

lemma grow_or_too_large:
  "runtime_ok rt \<Longrightarrow> buf_inv b \<Longrightarrow> 0 \<le> n \<Longrightarrow>
    or_too_large (Buffer_grow rt b n) (\<lambda>(i, b'). grown b n i b')"
  using Buffer_grow_spec [of rt b n] by auto

lemma room_or_too_large:
  assumes "runtime_ok rt" "buf_inv b" "0 \<le> n"
  shows "or_too_large (Buffer_room rt b n) (\<lambda>(i, b'). grown b n i b')"
  using tryGrow_spec [OF assms(2,3)] grow_or_too_large [OF assms]
  by (auto simp: Buffer_room_def split: if_splits)

lemma room_without_alloc:
  assumes "buf_inv b" "0 \<le> n" "n \<le> s_cap (buf b) - s_len (buf b)"
  shows "\<exists>i b'. Buffer_room rt b n = Inr (i, b') \<and> grown b n i b' \<and> s_cap (buf b') = s_cap (buf b)"
  using tryGrow_spec [OF assms(1,2)] assms(3) by (auto simp: Buffer_room_def)

text \<open>Filling the room: the cells from \<open>i\<close> on take the new items.\<close>

lemma grown_fill:
  assumes g: "grown b (int (length p)) i b'"
  defines "b'' \<equiv> b'\<lparr>buf := (buf b')\<lparr>s_cells := overlay (s_cells (buf b')) (nat i) p\<rparr>\<rparr>"
  shows "buf_inv b'' \<and> unread b'' = unread b @ p"
proof -
  have inv: "buf_inv b'" and len: "s_len (buf b') = i + int (length p)" and off: "off b' \<le> i"
    and unr: "sub (s_cells (buf b')) (nat (off b')) (nat i) = unread b"
    using g by (auto simp: grown_def)
  note ineq = buf_invD [OF inv]
  have i: "0 \<le> i" "nat i + length p \<le> length (s_cells (buf b'))" using ineq len off by auto
  have "buf_inv b''"
    using inv i by (auto simp: b''_def buf_inv_def slice_ok_def s_cap_def)
  moreover have "unread b'' = drop (nat (off b')) (take (nat i + length p) (s_cells (buf b'')))"
    using i len by (simp add: unread_def b''_def sub_def drop_take nat_add_distrib)
  moreover have "\<dots> = drop (nat (off b')) (take (nat i) (s_cells (buf b')) @ p)"
    using i by (simp add: b''_def overlay_take_fits)
  moreover have "\<dots> = unread b @ p"
    using unr i off by (simp add: sub_def drop_take nat_le_iff)
  ultimately show ?thesis by simp
qed

lemma grown_copy:
  assumes g: "grown b (int (length p)) i b'"
  shows "slice_copy (buf b') i p =
    Inr (int (length p), (buf b')\<lparr>s_cells := overlay (s_cells (buf b')) (nat i) p\<rparr>)"
  using g buf_invD [of b'] by (auto simp: grown_def go_simps)

lemma grown_set:
  assumes g: "grown b 1 i b'"
  shows "slice_set (buf b') i x =
    Inr ((buf b')\<lparr>s_cells := overlay (s_cells (buf b')) (nat i) [x]\<rparr>)"
proof -
  have "0 \<le> i" "i < s_len (buf b')" "nat i < length (s_cells (buf b'))"
    using g buf_invD [of b'] by (auto simp: grown_def)
  then show ?thesis by (simp add: go_simps overlay_def upd_conv_take_nth_drop)
qed

definition wrote :: "'a Buffer \<Rightarrow> 'a list \<Rightarrow> 'a Buffer \<Rightarrow> bool" where
  "wrote b p b' \<longleftrightarrow> buf_inv b' \<and> unread b' = unread b @ p \<and> \<not> isReading b'"

lemma grown_wrote:
  assumes "grown (b\<lparr>isReading := False\<rparr>) (int (length p)) i b'"
  shows "wrote b p (b'\<lparr>buf := (buf b')\<lparr>s_cells := overlay (s_cells (buf b')) (nat i) p\<rparr>\<rparr>)"
  using grown_fill [OF assms] assms by (auto simp: wrote_def grown_def)

lemma Buffer_Write_spec:
  assumes "runtime_ok rt" "buf_inv b"
  shows "or_too_large (Buffer_Write rt b p) (\<lambda>(res, b'). res = (int (length p), None) \<and> wrote b p b')"
  unfolding Buffer_Write_def Let_def
  by (rule or_too_large_andThen [OF room_or_too_large])
    (use assms in \<open>auto simp: grown_copy dest: grown_wrote\<close>)

lemma Buffer_WriteItem_spec:
  assumes "runtime_ok rt" "buf_inv b"
  shows "or_too_large (Buffer_WriteItem rt b x) (\<lambda>(err, b'). err = None \<and> wrote b [x] b')"
  unfolding Buffer_WriteItem_def Let_def
  by (rule or_too_large_andThen [OF room_or_too_large])
    (use assms grown_wrote [of b "[x]"] in \<open>auto simp: grown_set\<close>)

lemma Buffer_Write_in_place:
  assumes b: "buf_inv b" and fit: "int (length p) \<le> s_cap (buf b) - s_len (buf b)"
  shows "\<exists>b'. Buffer_Write rt b p = Inr ((int (length p), None), b') \<and> wrote b p b'
    \<and> Buffer_Cap b' = Buffer_Cap b"
proof -
  have "buf_inv (b\<lparr>isReading := False\<rparr>)" using b by simp
  from room_without_alloc [OF this, of "int (length p)" rt] fit
  obtain i b1 where b1: "Buffer_room rt (b\<lparr>isReading := False\<rparr>) (int (length p)) = Inr (i, b1)"
    "grown (b\<lparr>isReading := False\<rparr>) (int (length p)) i b1" "s_cap (buf b1) = s_cap (buf b)"
    by auto
  moreover have "nat i \<le> length (s_cells (buf b1))"
    using b1(2) buf_invD [of b1] by (auto simp: grown_def)
  ultimately show ?thesis
    by (simp add: Buffer_Write_def grown_copy grown_wrote Buffer_Cap_def s_cap_def)
qed

lemma Buffer_Grow_spec:
  assumes rt: "runtime_ok rt" and b: "buf_inv b" and n: "0 \<le> n"
  shows "or_too_large (Buffer_Grow rt b n) (\<lambda>b'. buf_inv b' \<and> unread b' = unread b
    \<and> n \<le> s_cap (buf b') - s_len (buf b') \<and> (isReading b' \<longrightarrow> isReading b))"
proof -
  have "or_too_large (andThen (reslice (buf b1) i) (\<lambda>s. Inr (b1\<lparr>buf := s\<rparr>)))
      (\<lambda>b'. buf_inv b' \<and> unread b' = unread b \<and> n \<le> s_cap (buf b') - s_len (buf b')
        \<and> (isReading b' \<longrightarrow> isReading b))"
    if "grown b n i b1" for i b1
  proof -
    have b1: "buf_inv b1" "s_len (buf b1) = i + n" "off b1 \<le> i" "isReading b1 \<longrightarrow> isReading b"
      "sub (s_cells (buf b1)) (nat (off b1)) (nat i) = unread b"
      using that by (auto simp: grown_def)
    note inv = buf_invD [OF b1(1)]
    have "reslice (buf b1) i = Inr ((buf b1)\<lparr>s_len := i\<rparr>)"
      using b1 inv n by (simp add: go_simps)
    moreover have "buf_inv (b1\<lparr>buf := (buf b1)\<lparr>s_len := i\<rparr>\<rparr>)"
      using b1 inv n by (simp add: buf_inv_def slice_ok_def)
    moreover have "unread (b1\<lparr>buf := (buf b1)\<lparr>s_len := i\<rparr>\<rparr>) = unread b"
      using b1 by (simp add: unread_def [of "b1\<lparr>buf := _\<rparr>"])
    ultimately show ?thesis using b1 inv by simp
  qed
  then have "or_too_large (case x of (i, b1) \<Rightarrow> andThen (reslice (buf b1) i) (\<lambda>s. Inr (b1\<lparr>buf := s\<rparr>)))
      (\<lambda>b'. buf_inv b' \<and> unread b' = unread b \<and> n \<le> s_cap (buf b') - s_len (buf b')
        \<and> (isReading b' \<longrightarrow> isReading b))" if "case x of (i, b1) \<Rightarrow> grown b n i b1" for x
    using that by (cases x) simp
  then show ?thesis
    using n by (simp add: Buffer_Grow_def or_too_large_andThen [OF grow_or_too_large [OF rt b n]])
qed

section \<open>Reading\<close>

lemma buf_inv_advance:
  "buf_inv b \<Longrightarrow> n \<le> length (unread b) \<Longrightarrow> buf_inv (b\<lparr>off := off b + int n, isReading := r\<rparr>)"
  using length_unread [of b] by (auto simp: buf_inv_def Buffer_Len_def)

lemma unread_advance:
  "buf_inv b \<Longrightarrow> unread (b\<lparr>off := off b + int n, isReading := r\<rparr>) = drop n (unread b)"
  using buf_invD [of b] by (simp add: unread_def drop_sub nat_add_distrib)

lemma unread_back:
  assumes "buf_inv b" "0 < off b"
  shows "unread (b\<lparr>off := off b - 1, isReading := r\<rparr>) = s_cells (buf b) ! nat (off b - 1) # unread b"
proof -
  let ?xs = "s_cells (buf b)" and ?i = "nat (off b - 1)" and ?j = "nat (s_len (buf b))"
  have i: "?i < ?j" "?i < length ?xs" "Suc ?i = nat (off b)"
    using assms(2) buf_invD [OF assms(1)] by linarith+
  have "sub ?xs ?i ?j = ?xs ! ?i # sub ?xs (Suc ?i) ?j"
    using i by (simp add: sub_Cons)
  then show ?thesis by (simp add: unread_def i)
qed

lemma unread_nth:
  "buf_inv b \<Longrightarrow> k < length (unread b) \<Longrightarrow> s_cells (buf b) ! nat (off b + int k) = unread b ! k"
  using buf_invD [of b] by (simp add: unread_def nth_sub nat_add_distrib)

lemma window_unread:
  assumes "buf_inv b" "j \<le> length (unread b)"
  shows "slice_window (buf b) (off b) (off b + int j) = Inr (take j (unread b))"
proof -
  note inv = buf_invD [OF assms(1)]
  have "off b + int j \<le> s_len (buf b)"
    using assms length_unread [of b] by (simp add: Buffer_Len_def)
  then have "min (nat (off b) + j) (nat (s_len (buf b))) = nat (off b) + j"
      "off b + int j \<le> int (length (s_cells (buf b)))"
    using inv by linarith+
  then show ?thesis
    using inv by (simp add: slice_window_def go_simps unread_def take_sub nat_add_distrib)
qed

lemma Buffer_Read_empty:
  "unread b = [] \<Longrightarrow> buf_inv b \<Longrightarrow>
    Buffer_Read b p = Inr ((0, if p = [] then None else Some EOF, p), Buffer_Reset b)"
  using unread_Nil_iff [of b]
  by (simp add: Buffer_Read_def Buffer_empty_def Buffer_Reset_def)

lemma Buffer_Read_items:
  fixes p :: "'a list"
  assumes "buf_inv b" "unread b \<noteq> []"
  defines "n \<equiv> min (length p) (length (unread b))"
  shows "Buffer_Read b p = Inr ((int n, None, overlay p 0 (take (length p) (unread b))),
    b\<lparr>off := off b + int n, isReading := (p \<noteq> [])\<rparr>)"
proof -
  obtain src where "slice_from (buf b) (off b) = Inr src" "s_items src = unread b"
    using slice_from_unread [OF assms(1)] by auto
  then show ?thesis
    using unread_Nil_iff [OF assms(1)] assms(2)
    by (auto simp: Buffer_Read_def Buffer_empty_def go_simps n_def Let_def)
qed

lemma Buffer_ReadItem_empty:
  "unread b = [] \<Longrightarrow> buf_inv b \<Longrightarrow>
    Buffer_ReadItem rt b = Inr ((zero_val rt, Some EOF), Buffer_Reset b)"
  using unread_Nil_iff [of b] by (simp add: Buffer_ReadItem_def)

lemma Buffer_ReadItem_item:
  assumes "buf_inv b" "unread b \<noteq> []"
  shows "Buffer_ReadItem rt b =
    Inr ((hd (unread b), None), b\<lparr>off := off b + 1, isReading := True\<rparr>)"
  using assms buf_invD [OF assms(1)] unread_Nil_iff [of b] unread_nth [of b 0]
  by (simp add: Buffer_ReadItem_def Buffer_empty_def go_simps hd_conv_nth)

lemma Buffer_Next_ok:
  assumes b: "buf_inv b" and n: "0 \<le> n"
  defines "k \<equiv> min (nat n) (length (unread b))"
  shows "Buffer_Next b n = Inr (take k (unread b), b\<lparr>off := off b + int k, isReading := (0 < k)\<rparr>)"
proof -
  have k: "(if n > Buffer_Len b then Buffer_Len b else n) = int k"
    using n length_unread [OF b] by (auto simp: k_def)
  have "slice_window (buf b) (off b) (off b + int k) = Inr (take k (unread b))"
    by (rule window_unread [OF b]) (simp add: k_def)
  moreover have "Buffer_Len (b\<lparr>isReading := False\<rparr>) = Buffer_Len b"
    by (simp add: Buffer_Len_def)
  ultimately show ?thesis unfolding Buffer_Next_def Let_def by (simp only: k) simp
qed

lemma Buffer_Next_negative: "buf_inv b \<Longrightarrow> n < 0 \<Longrightarrow> Buffer_Next b n = Inl SliceBounds"
  using buf_invD [of b]
  by (simp add: Buffer_Next_def Buffer_Len_def slice_window_def go_slice_def)

text \<open>The search of \<open>readSlice\<close> finds the first match among the unread items.\<close>

lemma readSlice_find_spec:
  assumes "0 \<le> i" "i \<le> s_len s" "s_len s \<le> int (length (s_cells s))"
  defines "xs \<equiv> sub (s_cells s) (nat i) (nat (s_len s))"
  shows "readSlice_find delim s i =
    Inr (if \<exists>x\<in>set xs. delim x then i + int (length (takeWhile (\<lambda>x. \<not> delim x) xs)) + 1 else -1)"
  using assms(1-3) unfolding xs_def
proof (induction delim s i rule: readSlice_find.induct)
  case (1 delim s i)
  show ?case
  proof (cases "i < s_len s")
    case False
    with "1.prems" show ?thesis by (simp add: readSlice_find.simps sub_def)
  next
    case True
    have Cons: "sub (s_cells s) (nat i) (nat (s_len s)) =
        s_cells s ! nat i # sub (s_cells s) (nat (i + 1)) (nat (s_len s))"
      using True "1.prems"
      by (simp add: sub_def Cons_nth_drop_Suc [symmetric] take_Cons' nat_add_distrib)
    show ?thesis
    proof (cases "delim (s_cells s ! nat i)")
      case d: True
      with True "1.prems" Cons show ?thesis by (subst readSlice_find.simps) (simp add: go_simps)
    next
      case d: False
      with True "1.prems" Cons "1.IH" [OF True] show ?thesis
        by (subst readSlice_find.simps) (simp add: go_simps)
    qed
  qed
qed

text \<open>\<open>upto_delim\<close>: the items up to and including the first match; everything without a match.\<close>

definition upto_delim :: "('a \<Rightarrow> bool) \<Rightarrow> 'a list \<Rightarrow> 'a list" where
  "upto_delim delim xs = take (Suc (length (takeWhile (\<lambda>x. \<not> delim x) xs))) xs"

lemma upto_delim_no_match: "\<not> (\<exists>x\<in>set xs. delim x) \<Longrightarrow> upto_delim delim xs = xs"
proof -
  assume "\<not> (\<exists>x\<in>set xs. delim x)"
  then have "takeWhile (\<lambda>x. \<not> delim x) xs = xs" by (simp add: takeWhile_eq_all_conv)
  then show ?thesis by (simp add: upto_delim_def del: takeWhile_eq_all_conv)
qed

lemma length_upto_delim:
  "length (upto_delim delim xs) =
     (if \<exists>x\<in>set xs. delim x then Suc (length (takeWhile (\<lambda>x. \<not> delim x) xs)) else length xs)"
proof (cases "\<exists>x\<in>set xs. delim x")
  case True
  then have "length (takeWhile (\<lambda>x. \<not> delim x) xs) < length xs"
    by (induction xs) auto
  with True show ?thesis by (simp add: upto_delim_def)
qed (simp add: upto_delim_no_match)

lemma upto_delim_last:
  "\<exists>x\<in>set xs. delim x \<Longrightarrow> \<exists>ys x. upto_delim delim xs = ys @ [x] \<and> delim x \<and> (\<forall>y\<in>set ys. \<not> delim y)"
proof (induction xs)
  case (Cons a xs)
  show ?case
  proof (cases "delim a")
    case True
    then show ?thesis by (intro exI [of _ "[]"]) (simp add: upto_delim_def)
  next
    case False
    with Cons obtain ys x where "upto_delim delim xs = ys @ [x]" "delim x" "\<forall>y\<in>set ys. \<not> delim y"
      by auto
    with False show ?thesis by (intro exI [of _ "a # ys"]) (simp add: upto_delim_def)
  qed
qed simp

lemma Buffer_ReadItems_ok:
  fixes delim :: "'a \<Rightarrow> bool"
  assumes b: "buf_inv b"
  defines "line \<equiv> upto_delim delim (unread b)"
  shows "Buffer_ReadItems delim b =
    Inr ((line, if \<exists>x\<in>set (unread b). delim x then None else Some EOF),
         b\<lparr>off := off b + int (length line), isReading := True\<rparr>)"
proof -
  note inv = buf_invD [OF b]
  let ?k = "length (takeWhile (\<lambda>x. \<not> delim x) (unread b))"
  have find: "readSlice_find delim (buf b) (off b) =
     Inr (if \<exists>x\<in>set (unread b). delim x then off b + int ?k + 1 else -1)"
    using readSlice_find_spec [of "off b" "buf b" delim] inv by (simp add: unread_def)
  note win = window_unread [OF b]
  show ?thesis
  proof (cases "\<exists>x\<in>set (unread b). delim x")
    case True
    then have len: "length line = Suc ?k" by (simp add: line_def length_upto_delim)
    then have "Suc ?k \<le> length (unread b)" by (simp add: line_def upto_delim_def split: if_splits)
    then have "slice_window (buf b) (off b) (off b + int (Suc ?k)) = Inr line"
      by (subst win) (simp_all add: line_def upto_delim_def)
    moreover have "off b + int (Suc ?k) = off b + int ?k + 1" by simp
    ultimately show ?thesis
      using True find len inv by (simp add: Buffer_ReadItems_def Buffer_readSlice_def ac_simps)
  next
    case False
    then have line: "line = unread b" by (simp add: line_def upto_delim_no_match)
    have "s_len (buf b) = off b + int (length (unread b))"
      using length_unread [OF b] by (simp add: Buffer_Len_def)
    with False find win [of "length (unread b)"] show ?thesis
      by (simp add: Buffer_ReadItems_def Buffer_readSlice_def line)
  qed
qed

lemma Buffer_Truncate_ok:
  assumes b: "buf_inv b" and n: "0 \<le> n" "n \<le> Buffer_Len b"
  shows "\<exists>b'. Buffer_Truncate b n = Inr b' \<and> buf_inv b' \<and> unread b' = take (nat n) (unread b)
    \<and> \<not> isReading b' \<and> Buffer_Cap b' = Buffer_Cap b"
proof (cases "n = 0")
  case True
  then show ?thesis
    using buf_inv_Reset [OF b]
    by (simp add: Buffer_Truncate_def Buffer_Cap_def) (simp add: Buffer_Reset_def)
next
  case False
  note inv = buf_invD [OF b]
  have "off b + n \<le> s_len (buf b)" using n by (simp add: Buffer_Len_def)
  moreover have "nat (off b + n) \<le> nat (s_len (buf b))" using calculation inv by simp
  ultimately show ?thesis
    using False n inv b
    by (auto simp: Buffer_Truncate_def Buffer_Len_def go_simps buf_inv_def slice_ok_def unread_def
        Buffer_Cap_def take_sub nat_add_distrib min_absorb1)
qed

lemma Buffer_Truncate_panics:
  "n < 0 \<or> Buffer_Len b < n \<Longrightarrow> n \<noteq> 0 \<Longrightarrow>
    Buffer_Truncate b n = Inl (PanicStr ''gbuf.Buffer: truncation out of range'')"
  by (auto simp: Buffer_Truncate_def Buffer_Len_def)

section \<open>ReadFrom and WriteTo against the interfaces\<close>

text \<open>A reader's items land behind the unread ones.\<close>

lemma grown_read:
  assumes g: "grown b n i b1" and n: "0 \<le> n"
    and q: "nat i + length q = length (s_cells (buf b1))" "k \<le> length q"
  defines "s2 \<equiv> (buf b1)\<lparr>s_len := i + int k, s_cells := overlay (s_cells (buf b1)) (nat i) q\<rparr>"
  shows "buf_inv (b1\<lparr>buf := s2\<rparr>) \<and> unread (b1\<lparr>buf := s2\<rparr>) = unread b @ take k q"
proof -
  have b1: "buf_inv b1" "off b1 \<le> i" "sub (s_cells (buf b1)) (nat (off b1)) (nat i) = unread b"
    using g by (auto simp: grown_def)
  note inv = buf_invD [OF b1(1)]
  have i: "0 \<le> i" "nat i \<le> length (s_cells (buf b1))" "nat (off b1) \<le> nat i"
    using b1 inv q by auto
  have "buf_inv (b1\<lparr>buf := s2\<rparr>)"
    using b1 i q by (auto simp: s2_def buf_inv_def slice_ok_def s_cap_def)
  moreover have "unread (b1\<lparr>buf := s2\<rparr>) =
      sub (overlay (s_cells (buf b1)) (nat i) q) (nat (off b1)) (nat i)
      @ sub (overlay (s_cells (buf b1)) (nat i) q) (nat i) (nat i + k)"
    using i by (simp add: unread_def s2_def sub_append nat_add_distrib)
  moreover have "sub (overlay (s_cells (buf b1)) (nat i) q) (nat (off b1)) (nat i) = unread b"
    using b1(3) i by (metis sub_take take_overlay)
  moreover have "sub (overlay (s_cells (buf b1)) (nat i) q) (nat i) (nat i + k) = take k q"
    using q i by (subst overlay_sub) auto
  ultimately show ?thesis by simp
qed

context gio_reader
begin

text \<open>One round of the loop: a grown buffer, the free cells handed to the reader.\<close>

text \<open>One round: the buffer is too large, or \<open>m\<close> items come from the reader.\<close>

lemma fill_round:
  assumes rt: "runtime_ok rt" and b: "buf_inv b" "\<not> isReading b" and r: "reader_inv r"
  obtains (large) "Buffer_grow rt b MinRead = Inl (PanicErr ErrBufferTooLarge)"
  | (round) m e r' b2 where
    "\<And>fuel n. Buffer_ReadFrom_loop (Suc fuel) rt read_call r b n =
      (if e = Some EOF then Some (Inr ((n + m, None), r', b2))
       else Buffer_ReadFrom_loop fuel rt read_call r' b2 (n + m))"
    "buf_inv b2" "\<not> isReading b2" "unread b2 = unread b @ take (nat m) (rest r)" "reader_inv r'"
    "0 \<le> m" "m \<le> int (length (rest r))" "rest r' = drop (nat m) (rest r)"
    "e = None \<and> 0 < m \<or> e = Some EOF \<and> rest r' = []"
proof (cases "Buffer_grow rt b MinRead")
  case (Inl f)
  then show ?thesis using grow_or_too_large [OF rt b(1), of MinRead] by (intro large) (simp add: MinRead_def)
next
  case (Inr x)
  then obtain i b1 where grow: "Buffer_grow rt b MinRead = Inr (i, b1)" by (cases x) auto
  have g: "grown b MinRead i b1"
    using grow_or_too_large [OF rt b(1), of MinRead] grow by (simp add: MinRead_def)
  have b1: "buf_inv b1" "s_len (buf b1) = i + 512" "0 \<le> i" "off b1 \<le> i" "\<not> isReading b1"
    using g b(2) buf_invD [of b1] by (auto simp: grown_def MinRead_def)
  note inv = buf_invD [OF b1(1)]
  let ?s1 = "(buf b1)\<lparr>s_len := i\<rparr>"
  let ?p = "drop (nat i) (s_cells (buf b1))"
  have i: "nat i + 512 \<le> length (s_cells (buf b1))" using b1 inv by simp
  have s1: "reslice (buf b1) i = Inr ?s1" using b1 inv by (simp add: go_simps)
  have win: "slice_window ?s1 i (s_cap ?s1) = Inr ?p"
    using b1 inv by (simp add: slice_window_def go_simps s_cap_def sub_to_end)
  have "?p \<noteq> []" using i by simp
  then obtain m e q r' where rd: "read_call r ?p = Inr ((m, e, q), r')" "reader_inv r'"
    and out: "read_outcome ?p (rest r) (m, e, q) (rest r')"
    using read_ok [OF r, of ?p] by auto
  from out have m: "0 \<le> m" "m \<le> int (length ?p)" "m \<le> int (length (rest r))" "length q = length ?p"
    "take (nat m) q = take (nat m) (rest r)" "rest r' = drop (nat m) (rest r)"
    "e = None \<and> 0 < m \<or> e = Some EOF \<and> rest r' = []"
    by (auto simp: read_outcome_def)
  let ?s2 = "(buf b1)\<lparr>s_len := i + m, s_cells := overlay (s_cells (buf b1)) (nat i) q\<rparr>"
  have s2: "reslice (?s1\<lparr>s_cells := overlay (s_cells ?s1) (nat i) q\<rparr>) (i + m) = Inr ?s2"
    using m b1 i by (simp add: go_simps)
  have mq: "nat m \<le> length q" using m(2) by (simp only: nat_le_iff m(4))
  have b2: "buf_inv (b1\<lparr>buf := ?s2\<rparr>)" "unread (b1\<lparr>buf := ?s2\<rparr>) = unread b @ take (nat m) (rest r)"
    using grown_read [OF g _ _ mq] m(1,4,5) i by (simp_all add: MinRead_def)
  show ?thesis
  proof (rule round)
    show "Buffer_ReadFrom_loop (Suc fuel) rt read_call r b n =
        (if e = Some EOF then Some (Inr ((n + m, None), r', b1\<lparr>buf := ?s2\<rparr>))
         else Buffer_ReadFrom_loop fuel rt read_call r' (b1\<lparr>buf := ?s2\<rparr>) (n + m))" for fuel n
      using grow s1 win rd(1) s2 m by auto
  qed (use b2 b1(5) rd(2) m in auto)
qed

lemma ReadFrom_loop_correct:
  assumes rt: "runtime_ok rt"
  shows "buf_inv b \<Longrightarrow> \<not> isReading b \<Longrightarrow> reader_inv r \<Longrightarrow> length (rest r) < fuel \<Longrightarrow>
    \<exists>res. Buffer_ReadFrom_loop fuel rt read_call r b n = Some res
      \<and> or_too_large res (\<lambda>((k, err), r', b').
           k = n + int (length (rest r)) \<and> err = None \<and> wrote b (rest r) b'
           \<and> reader_inv r' \<and> rest r' = [])"
proof (induction fuel arbitrary: r b n)
  case 0
  then show ?case by simp
next
  case (Suc fuel)
  show ?case
  proof (cases rule: fill_round [OF rt Suc.prems(1-3), case_names large round])
    case large
    then show ?thesis by simp
  next
    case (round m e r' b2)
    from round(9) show ?thesis
    proof
      assume e: "e = Some EOF \<and> rest r' = []"
      then have "nat m = length (rest r)" using round(6-8) by auto
      with e round show ?thesis by (simp add: wrote_def)
    next
      assume e: "e = None \<and> 0 < m"
      then have "0 < nat m" "0 < length (rest r)" using round(7) by linarith+
      moreover have "length (rest r') = length (rest r) - nat m" using round(8) by simp
      ultimately have "length (rest r') < fuel" using Suc.prems(4) by linarith
      from Suc.IH [OF round(2,3,5) this, of "n + m"] obtain res where
        res: "Buffer_ReadFrom_loop fuel rt read_call r' b2 (n + m) = Some res"
          "or_too_large res (\<lambda>((k, err), r'', b').
            k = n + m + int (length (rest r')) \<and> err = None \<and> wrote b2 (rest r') b'
            \<and> reader_inv r'' \<and> rest r'' = [])" by auto
      have "or_too_large res (\<lambda>((k, err), r', b').
           k = n + int (length (rest r)) \<and> err = None \<and> wrote b (rest r) b'
           \<and> reader_inv r' \<and> rest r' = [])"
        using round(4,7,8) e by (intro or_too_large_mono [OF res(2)]) (auto simp: wrote_def)
      with e res(1) show ?thesis by (simp only: round(1)) simp
    qed
  qed
qed

text \<open>With fuel above the length of the input, \<open>ReadFrom\<close> appends all of it.\<close>

lemma Buffer_ReadFrom_correct:
  assumes "runtime_ok rt" "buf_inv b" "reader_inv r" "length (rest r) < fuel"
  shows "\<exists>res. Buffer_ReadFrom fuel rt read_call b r = Some res
      \<and> or_too_large res (\<lambda>((k, err), r', b').
           k = int (length (rest r)) \<and> err = None \<and> wrote b (rest r) b'
           \<and> reader_inv r' \<and> rest r' = [])"
  using ReadFrom_loop_correct [OF assms(1), of "b\<lparr>isReading := False\<rparr>" r fuel 0] assms(2-)
  by (simp add: Buffer_ReadFrom_def wrote_def)

end

text \<open>The two ways through \<open>WriteTo\<close>: nothing to write, or one call with all unread items.\<close>

lemma Buffer_WriteTo_empty:
  assumes "buf_inv b" "unread b = []"
  shows "Buffer_WriteTo wr b w = Inr ((0, None), w, Buffer_Reset b)"
  using assms length_unread [OF assms(1)]
  by (simp add: Buffer_WriteTo_def Buffer_Len_def Buffer_Reset_def)

lemma Buffer_WriteTo_items:
  assumes "buf_inv b" "unread b \<noteq> []"
  defines "k \<equiv> int (length (unread b))"
  shows "Buffer_WriteTo wr b w =
    andThen (wr w (unread b)) (\<lambda>((m, e), w').
      if m > k then Inl (PanicErr ErrBufferInvalidWriteCount)
      else if e \<noteq> None then Inr ((m, e), w', b\<lparr>isReading := False, off := off b + m\<rparr>)
      else if m \<noteq> k
        then Inr ((m, Some ErrShortWrite), w', b\<lparr>isReading := False, off := off b + m\<rparr>)
      else Inr ((m, None), w', Buffer_Reset b))"
proof -
  obtain src where src: "slice_from (buf b) (off b) = Inr src" "s_items src = unread b"
    using slice_from_unread [OF assms(1)] by auto
  have k: "s_len (buf b) - off b = k" "0 < k"
    using assms(2) length_unread [OF assms(1)]
    by (simp_all add: Buffer_Len_def k_def flip: length_greater_0_conv)
  then show ?thesis
    by (simp add: Buffer_WriteTo_def Buffer_Len_def Let_def src Buffer_Reset_def cong: if_cong)
qed

context gio_writer
begin

text \<open>\<open>WriteTo\<close> hands over all the unread items and leaves the buffer empty.\<close>

lemma Buffer_WriteTo_correct:
  assumes b: "buf_inv b" and w: "writer_inv w"
  shows "case Buffer_WriteTo write_call b w of
      Inl f \<Rightarrow> f \<in> faults
    | Inr ((n, err), w', b') \<Rightarrow>
        n = int (length (unread b)) \<and> err = None \<and> writer_inv w' \<and> got w' = got w @ unread b
        \<and> buf_inv b' \<and> unread b' = [] \<and> Buffer_Cap b' = Buffer_Cap b"
proof (cases "unread b = []")
  case True
  with b w show ?thesis
    using buf_inv_Reset [OF b]
    by (simp add: Buffer_WriteTo_empty) (simp add: Buffer_Reset_def Buffer_Cap_def)
next
  case False
  show ?thesis
  proof (cases "write_call w (unread b)")
    case (Inl f)
    then show ?thesis using write_panic [OF w Inl] b False by (simp add: Buffer_WriteTo_items)
  next
    case (Inr x)
    then obtain res w' where wr: "write_call w (unread b) = Inr (res, w')" by (cases x) auto
    from write_ok [OF w wr] show ?thesis
      using wr b False buf_inv_Reset [OF b]
      by (simp add: Buffer_WriteTo_items) (simp add: Buffer_Reset_def Buffer_Cap_def)
  qed
qed

end

section \<open>The buffer implements the interfaces\<close>

lemma Buffer_Read_outcome:
  assumes b: "buf_inv b" and p: "p \<noteq> []"
  shows "\<exists>res b'. Buffer_Read b p = Inr (res, b') \<and> buf_inv b'
    \<and> read_outcome p (unread b) res (unread b')"
proof (cases "unread b = []")
  case True
  with b p show ?thesis
    using buf_inv_Reset [OF b] by (simp add: Buffer_Read_empty read_outcome_def)
next
  case False
  let ?n = "min (length p) (length (unread b))"
  let ?b' = "b\<lparr>off := off b + int ?n, isReading := (p \<noteq> [])\<rparr>"
  have "take ?n (overlay p 0 (take (length p) (unread b))) = take ?n (unread b)"
    by (simp add: overlay_def min_def)
  moreover have "0 < ?n" using p False by simp
  ultimately have "read_outcome p (unread b)
      (int ?n, None, overlay p 0 (take (length p) (unread b))) (drop ?n (unread b))"
    unfolding read_outcome_def by simp
  moreover have "unread ?b' = drop ?n (unread b)" "buf_inv ?b'"
    using unread_advance [OF b] buf_inv_advance [OF b, of ?n] by simp_all
  ultimately show ?thesis using Buffer_Read_items [OF b False, of p] by simp
qed

interpretation buffer_reader: gio_clean_reader Buffer_Read unread buf_inv
proof
  show "\<exists>res r'. Buffer_Read r p = Inr (res, r') \<and> buf_inv r' \<and> read_outcome p (unread r) res (unread r')"
    if "buf_inv r" "p \<noteq> []" for r :: "'a Buffer" and p
    using Buffer_Read_outcome that by blast
  show "n = 0" if "buf_inv r" "p \<noteq> []" "Buffer_Read r p = Inr ((n, Some EOF, q), r')"
    for r r' :: "'a Buffer" and n p q
    using that by (cases "unread r = []") (simp_all add: Buffer_Read_empty Buffer_Read_items)
qed

interpretation buffer_writer:
  gio_writer "Buffer_Write rt" unread "\<lambda>b. runtime_ok rt \<and> buf_inv b" "{PanicErr ErrBufferTooLarge}"
  for rt :: "'a runtime"
proof
  fix b b' :: "'a Buffer" and p res f
  assume inv: "runtime_ok rt \<and> buf_inv b"
  note spec = Buffer_Write_spec [of rt b p]
  show "res = (int (length p), None) \<and> (runtime_ok rt \<and> buf_inv b') \<and> unread b' = unread b @ p"
    if "Buffer_Write rt b p = Inr (res, b')"
    using spec inv that by (auto simp: wrote_def)
  show "f \<in> {PanicErr ErrBufferTooLarge}" if "Buffer_Write rt b p = Inl f"
    using spec inv that by auto
qed

section \<open>Reachable buffers\<close>

text \<open>
  One round of \<open>ReadFrom\<close>: no room, or one call of the reader with the free cells \<open>p\<close>.  A count that
  is negative or above the length of \<open>p\<close> panics; with any other the invariant is kept.
\<close>

lemma ReadFrom_step:
  assumes rt: "runtime_ok rt" and b: "buf_inv b"
  shows "Buffer_ReadFrom_loop (Suc fuel) rt rd r b n = Some (Inl (PanicErr ErrBufferTooLarge))
    \<or> (\<exists>p B. Buffer_ReadFrom_loop (Suc fuel) rt rd r b n =
          stepThen (rd r p) (\<lambda>((m, e, q), r').
            if m < 0 then Some (Inl (PanicErr ErrBufferNegativeRead))
            else if int (length p) < m then Some (Inl SliceBounds)
            else if is_err e EOF then Some (Inr ((n + m, None), r', B q m))
            else if e \<noteq> None then Some (Inr ((n + m, e), r', B q m))
            else Buffer_ReadFrom_loop fuel rt rd r' (B q m) (n + m))
        \<and> (\<forall>q m. 0 \<le> m \<and> m \<le> int (length p) \<longrightarrow>
             buf_inv (B q m) \<and> (isReading (B q m) \<longrightarrow> isReading b)))"
proof (cases "Buffer_grow rt b MinRead")
  case (Inl f)
  then show ?thesis using grow_or_too_large [OF rt b, of MinRead] by (simp add: MinRead_def)
next
  case (Inr x)
  then obtain i b1 where grow: "Buffer_grow rt b MinRead = Inr (i, b1)" by (cases x) auto
  have g: "grown b MinRead i b1"
    using grow_or_too_large [OF rt b, of MinRead] grow by (simp add: MinRead_def)
  have b1: "buf_inv b1" "s_len (buf b1) = i + 512" "0 \<le> i" "off b1 \<le> i" "isReading b1 \<longrightarrow> isReading b"
    using g buf_invD [of b1] by (auto simp: grown_def MinRead_def)
  note inv = buf_invD [OF b1(1)]
  let ?s1 = "(buf b1)\<lparr>s_len := i\<rparr>"
  let ?p = "drop (nat i) (s_cells (buf b1))"
  let ?s2 = "\<lambda>q m. (buf b1)\<lparr>s_len := i + m, s_cells := overlay (s_cells (buf b1)) (nat i) q\<rparr>"
  have s1: "reslice (buf b1) i = Inr ?s1" using b1 inv by (simp add: go_simps)
  have win: "slice_window ?s1 i (s_cap ?s1) = Inr ?p"
    using b1 inv by (simp add: slice_window_def go_simps s_cap_def sub_to_end)
  have s2: "reslice (?s1\<lparr>s_cells := overlay (s_cells ?s1) (nat i) q\<rparr>) (i + m) =
      (if int (length ?p) < m then Inl SliceBounds else Inr (?s2 q m))" if "0 \<le> m" for q m
    using b1 inv that by (auto simp: reslice_def s_cap_def)
  have kept: "buf_inv (b1\<lparr>buf := ?s2 q m\<rparr>)" if "0 \<le> m" "m \<le> int (length ?p)" for q m
    using b1 inv that by (auto simp: buf_inv_def slice_ok_def s_cap_def)
  have "Buffer_ReadFrom_loop (Suc fuel) rt rd r b n =
      stepThen (rd r ?p) (\<lambda>((m, e, q), r').
        if m < 0 then Some (Inl (PanicErr ErrBufferNegativeRead))
        else if int (length ?p) < m then Some (Inl SliceBounds)
        else if is_err e EOF then Some (Inr ((n + m, None), r', b1\<lparr>buf := ?s2 q m\<rparr>))
        else if e \<noteq> None then Some (Inr ((n + m, e), r', b1\<lparr>buf := ?s2 q m\<rparr>))
        else Buffer_ReadFrom_loop fuel rt rd r' (b1\<lparr>buf := ?s2 q m\<rparr>) (n + m))"
    using grow s1 win s2 by (cases "rd r ?p") (auto simp: Let_def split_def)
  with kept b1(5) show ?thesis by (intro disjI2 exI [of _ ?p] exI [of _ "\<lambda>q m. b1\<lparr>buf := ?s2 q m\<rparr>"]) simp
qed

text \<open>\<open>ReadFrom\<close> keeps the invariant whatever the reader does, unless it panics.\<close>

lemma ReadFrom_loop_inv:
  assumes rt: "runtime_ok rt"
  shows "buf_inv b \<Longrightarrow> Buffer_ReadFrom_loop fuel rt rd r b n = Some (Inr (res, r', b')) \<Longrightarrow>
    buf_inv b' \<and> (isReading b' \<longrightarrow> isReading b)"
proof (induction fuel arbitrary: r b n)
  case (Suc fuel)
  from ReadFrom_step [OF rt Suc.prems(1), of fuel rd r n] show ?case
  proof (elim disjE exE conjE)
    fix p B
    assume run: "Buffer_ReadFrom_loop (Suc fuel) rt rd r b n =
          stepThen (rd r p) (\<lambda>((m, e, q), r').
            if m < 0 then Some (Inl (PanicErr ErrBufferNegativeRead))
            else if int (length p) < m then Some (Inl SliceBounds)
            else if is_err e EOF then Some (Inr ((n + m, None), r', B q m))
            else if e \<noteq> None then Some (Inr ((n + m, e), r', B q m))
            else Buffer_ReadFrom_loop fuel rt rd r' (B q m) (n + m))"
      and B: "\<forall>q m. 0 \<le> m \<and> m \<le> int (length p) \<longrightarrow> buf_inv (B q m) \<and> (isReading (B q m) \<longrightarrow> isReading b)"
    from Suc.prems(2) run obtain m e q r1 where rd: "rd r p = Inr ((m, e, q), r1)"
      by (cases "rd r p") auto
    with Suc.prems(2) run have "0 \<le> m" "m \<le> int (length p)" by (auto split: if_splits)
    with B have ok: "buf_inv (B q m)" "isReading (B q m) \<longrightarrow> isReading b" by auto
    from Suc.prems(2) show ?thesis
      using run rd ok Suc.IH [OF ok(1), of r1 "n + m"] by (auto split: if_splits)
  qed (use Suc.prems(2) in simp)
qed simp

text \<open>The panics of \<open>ReadFrom\<close>: its own two, the reader's, and a slice error for a count above \<open>len(p)\<close>.\<close>

definition ReadFrom_panic :: "('r, 'a) reader_fn \<Rightarrow> go_panic \<Rightarrow> bool" where
  "ReadFrom_panic rd f \<longleftrightarrow> f = PanicErr ErrBufferTooLarge \<or> f = PanicErr ErrBufferNegativeRead
     \<or> (\<exists>r p. rd r p = Inl f)
     \<or> f = SliceBounds \<and> (\<exists>r p m e q r'. rd r p = Inr ((m, e, q), r') \<and> int (length p) < m)"

lemma ReadFrom_loop_panics:
  assumes rt: "runtime_ok rt"
  shows "buf_inv b \<Longrightarrow> Buffer_ReadFrom_loop fuel rt rd r b n = Some (Inl f) \<Longrightarrow> ReadFrom_panic rd f"
proof (induction fuel arbitrary: r b n)
  case (Suc fuel)
  from ReadFrom_step [OF rt Suc.prems(1), of fuel rd r n] show ?case
  proof (elim disjE exE conjE)
    fix p B
    assume run: "Buffer_ReadFrom_loop (Suc fuel) rt rd r b n =
          stepThen (rd r p) (\<lambda>((m, e, q), r').
            if m < 0 then Some (Inl (PanicErr ErrBufferNegativeRead))
            else if int (length p) < m then Some (Inl SliceBounds)
            else if is_err e EOF then Some (Inr ((n + m, None), r', B q m))
            else if e \<noteq> None then Some (Inr ((n + m, e), r', B q m))
            else Buffer_ReadFrom_loop fuel rt rd r' (B q m) (n + m))"
      and B: "\<forall>q m. 0 \<le> m \<and> m \<le> int (length p) \<longrightarrow> buf_inv (B q m) \<and> (isReading (B q m) \<longrightarrow> isReading b)"
    show ?thesis
    proof (cases "rd r p")
      case (Inl g)
      with Suc.prems(2) run show ?thesis by (auto simp: ReadFrom_panic_def)
    next
      case (Inr x)
      then obtain m e q r1 where rd: "rd r p = Inr ((m, e, q), r1)" by (cases x) auto
      show ?thesis
      proof (cases "0 \<le> m \<and> m \<le> int (length p)")
        case True
        with B have ok: "buf_inv (B q m)" by auto
        from Suc.prems(2) show ?thesis
          using run rd True Suc.IH [OF ok, of r1 "n + m"] by (auto split: if_splits)
      next
        case False
        with Suc.prems(2) rd have "f = (if m < 0 then PanicErr ErrBufferNegativeRead else SliceBounds)"
          unfolding run by auto
        moreover have "m < 0 \<or> (\<exists>r p m e q r'. rd r p = Inr ((m, e, q), r') \<and> int (length p) < m)"
          using False rd not_le by blast
        ultimately show ?thesis unfolding ReadFrom_panic_def by (cases "m < 0") simp_all
      qed
    qed
  qed (use Suc.prems(2) in \<open>simp add: ReadFrom_panic_def\<close>)
qed simp

text \<open>
  One method call of a client: its reader function \<open>rd\<close> is arbitrary, its writer function \<open>wr\<close>
  must not report a negative count.
\<close>

inductive Buffer_step ::
  "'a runtime \<Rightarrow> ('r, 'a) reader_fn \<Rightarrow> ('w, 'a) writer_fn \<Rightarrow> 'a Buffer \<Rightarrow> 'a Buffer \<Rightarrow> bool"
  for rt rd wr where
  step_Truncate: "Buffer_Truncate b n = Inr b' \<Longrightarrow> Buffer_step rt rd wr b b'"
| step_Reset: "Buffer_step rt rd wr b (Buffer_Reset b)"
| step_Grow: "Buffer_Grow rt b n = Inr b' \<Longrightarrow> Buffer_step rt rd wr b b'"
| step_Write: "Buffer_Write rt b p = Inr (res, b') \<Longrightarrow> Buffer_step rt rd wr b b'"
| step_WriteItem: "Buffer_WriteItem rt b x = Inr (err, b') \<Longrightarrow> Buffer_step rt rd wr b b'"
| step_ReadFrom: "Buffer_ReadFrom fuel rt rd b r = Some (Inr (res, r', b')) \<Longrightarrow>
    Buffer_step rt rd wr b b'"
| step_WriteTo: "Buffer_WriteTo wr b w = Inr ((n, err), w', b') \<Longrightarrow> 0 \<le> n \<Longrightarrow>
    Buffer_step rt rd wr b b'"
| step_Read: "Buffer_Read b p = Inr (out, b') \<Longrightarrow> Buffer_step rt rd wr b b'"
| step_Next: "Buffer_Next b n = Inr (data, b') \<Longrightarrow> Buffer_step rt rd wr b b'"
| step_ReadItem: "Buffer_ReadItem rt b = Inr (out, b') \<Longrightarrow> Buffer_step rt rd wr b b'"
| step_UnreadItem: "Buffer_UnreadItem b = (err, b') \<Longrightarrow> Buffer_step rt rd wr b b'"
| step_ReadItems: "Buffer_ReadItems delim b = Inr (out, b') \<Longrightarrow> Buffer_step rt rd wr b b'"

inductive Buffer_reach ::
  "'a runtime \<Rightarrow> ('r, 'a) reader_fn \<Rightarrow> ('w, 'a) writer_fn \<Rightarrow> 'a Buffer \<Rightarrow> bool"
  for rt rd wr where
  reach_zero: "Buffer_reach rt rd wr zero_Buffer"
| reach_New: "slice_ok s \<Longrightarrow> Buffer_reach rt rd wr (NewBuffer s)"
| reach_step: "Buffer_reach rt rd wr b \<Longrightarrow> Buffer_step rt rd wr b b' \<Longrightarrow> Buffer_reach rt rd wr b'"

lemma Buffer_WriteTo_inv:
  assumes b: "buf_inv b" and wt: "Buffer_WriteTo wr b w = Inr ((n, err), w', b')" and n: "0 \<le> n"
  shows "buf_inv b'"
proof (cases "unread b = []")
  case True
  with b wt show ?thesis using buf_inv_Reset [OF b] by (auto simp: Buffer_WriteTo_empty)
next
  case False
  have "buf_inv (b\<lparr>isReading := False, off := off b + n\<rparr>)" if "n \<le> int (length (unread b))"
    using b n that length_unread [OF b] by (auto simp: buf_inv_def Buffer_Len_def)
  with b wt False show ?thesis
    using buf_inv_Reset [OF b]
    by (auto simp: Buffer_WriteTo_items andThen_eq_Inr split: if_splits prod.splits)
qed

lemma Buffer_UnreadItem_inv: "buf_inv b \<Longrightarrow> Buffer_UnreadItem b = (err, b') \<Longrightarrow> buf_inv b'"
  by (auto simp: Buffer_UnreadItem_def Let_def buf_inv_def split: if_splits)

lemma Buffer_step_inv:
  assumes rt: "runtime_ok rt"
  shows "Buffer_step rt rd wr b b' \<Longrightarrow> buf_inv b \<Longrightarrow> buf_inv b'"
proof (induction rule: Buffer_step.induct)
  case (step_Truncate b n b')
  then have "0 \<le> n \<and> n \<le> Buffer_Len b"
    using buf_invD [of b] by (auto simp: Buffer_Truncate_def Buffer_Len_def Let_def split: if_splits)
  with step_Truncate show ?case using Buffer_Truncate_ok [of b n] by auto
next
  case (step_Grow b n b')
  then have "0 \<le> n" by (auto simp: Buffer_Grow_def split: if_splits)
  with step_Grow show ?case using Buffer_Grow_spec [OF rt, of b n] by simp
next
  case (step_Next b n data b')
  then have "0 \<le> n" using Buffer_Next_negative [of b n] by (cases "n < 0") auto
  with step_Next show ?case
    using Buffer_Next_ok [of b n] buf_inv_advance [of b "min (nat n) (length (unread b))"] by auto
next
  case (step_ReadFrom fuel b r res r' b')
  then show ?case
    using ReadFrom_loop_inv [OF rt, of "b\<lparr>isReading := False\<rparr>", THEN conjunct1] by (cases res) (auto simp: Buffer_ReadFrom_def)
next
  case (step_Read b p out b')
  then show ?case
    using buf_inv_Reset [of b] buf_inv_advance [of b "min (length p) (length (unread b))"]
    by (cases "unread b = []") (auto simp: Buffer_Read_empty Buffer_Read_items)
next
  case (step_ReadItem b out b')
  then show ?case
    using buf_inv_Reset [of b] buf_inv_advance [of b 1]
    by (cases "unread b = []")
      (auto simp: Buffer_ReadItem_empty Buffer_ReadItem_item Suc_le_eq)
next
  case (step_ReadItems delim b out b')
  have "length (upto_delim delim (unread b)) \<le> length (unread b)" by (simp add: upto_delim_def)
  with step_ReadItems show ?case
    using buf_inv_advance [of b "length (upto_delim delim (unread b))"]
    by (auto simp: Buffer_ReadItems_ok)
next
  case (step_Write b p res b')
  then show ?case using Buffer_Write_spec [OF rt, of b p] by (simp add: wrote_def)
next
  case (step_WriteItem b x err b')
  then show ?case using Buffer_WriteItem_spec [OF rt, of b x] by (simp add: wrote_def)
qed (use rt in
  \<open>auto simp: buf_inv_Reset intro: Buffer_WriteTo_inv Buffer_UnreadItem_inv\<close>)

lemma Buffer_reach_inv: "Buffer_reach rt rd wr b \<Longrightarrow> runtime_ok rt \<Longrightarrow> buf_inv b"
  by (induction rule: Buffer_reach.induct)
    (auto intro: buf_inv_zero buf_inv_NewBuffer Buffer_step_inv)

section \<open>When growing succeeds\<close>

definition ample :: "'a runtime \<Rightarrow> bool" where
  "ample rt \<longleftrightarrow> (\<forall>c. 0 \<le> c \<and> c \<le> maxInt \<longrightarrow> alloc rt c \<noteq> None)"

lemma growSlice_returns:
  assumes rt: "runtime_ok rt" "ample rt" and s: "slice_ok s" and n: "0 \<le> n"
    and "s_len s + n \<le> maxInt" "2 * s_cap s \<le> maxInt"
  shows "\<exists>t. growSlice rt s n = Inr t"
proof -
  define c where "c = (if s_len s + n < 2 * s_cap s then 2 * s_cap s else s_len s + n)"
  have "0 \<le> c" "c \<le> maxInt" using assms by (auto simp: c_def slice_ok_def)
  then obtain k where "alloc rt c = Some k" using rt(2) by (auto simp: ample_def)
  then have "growSlice rt s n \<noteq> Inl (PanicErr ErrBufferTooLarge)"
    using runtime_okD [OF rt(1), of c k] s n
    by (auto simp: growSlice_def Let_def c_def [symmetric] andThen_eq_Inl slice_copy_def reslice_def
        slice_ok_def split: if_splits)
  then show ?thesis using growSlice_spec [OF rt(1) s n] by auto
qed

lemma makeRoom_returns:
  assumes rt: "runtime_ok rt" "ample rt" and b: "buf_inv b" and n: "0 \<le> n"
    and fits: "2 * s_cap (buf b) + n \<le> maxInt" and m: "m = Buffer_Len b"
  shows "\<exists>i b'. Buffer_makeRoom rt b n m = Inr (i, b')"
proof -
  note inv = buf_invD [OF b]
  obtain src where src: "slice_from (buf b) (off b) = Inr src"
    "slice_ok src" "s_len src = m" "s_cap src \<le> s_cap (buf b)"
    using inv b by (auto simp: go_simps buf_inv_def slice_ok_def s_cap_def Buffer_Len_def m)
  with growSlice_returns [OF rt src(2), of "off b + n"] inv n fits
  obtain t where t: "growSlice rt src (off b + n) = Inr t" by (auto simp: Buffer_Len_def m)
  have "\<not> (s_cap (buf b) > maxInt - s_cap (buf b) - n)" using fits by simp
  then have "Buffer_makeRoom rt b n m \<noteq> Inl (PanicErr ErrBufferTooLarge)"
    using src(1) t
    by (auto simp: Buffer_makeRoom_def Let_def andThen_eq_Inl make_slice_def reslice_def slice_copy_def
        split: if_splits)
  then show ?thesis using makeRoom_spec [OF rt(1) b n m] by blast
qed

lemma Buffer_grow_returns:
  assumes rt: "runtime_ok rt" "ample rt" and b: "buf_inv b" and n: "0 \<le> n"
    and fits: "2 * s_cap (buf b) + n \<le> maxInt"
  shows "\<exists>i b'. Buffer_grow rt b n = Inr (i, b')"
  using Buffer_grow_cases [OF b n, of rt] compacted [OF b] fits
    makeRoom_returns [OF rt compacted(1) [OF b] n _ refl]
  by (auto split: if_splits)

lemma Buffer_Write_returns:
  assumes rt: "runtime_ok rt" "ample rt" and b: "buf_inv b"
    and fits: "2 * s_cap (buf b) + int (length p) \<le> maxInt"
  shows "\<exists>b'. Buffer_Write rt b p = Inr ((int (length p), None), b') \<and> wrote b p b'"
proof -
  let ?b = "b\<lparr>isReading := False\<rparr>"
  have b': "buf_inv ?b" using b by simp
  have "\<exists>i b1. Buffer_room rt ?b (int (length p)) = Inr (i, b1)"
    using tryGrow_spec [OF b', of "int (length p)"] Buffer_grow_returns [OF rt b', of "int (length p)"] fits
    by (auto simp: Buffer_room_def split: if_splits)
  then obtain i b1 where room: "Buffer_room rt ?b (int (length p)) = Inr (i, b1)" by blast
  with room_or_too_large [OF rt(1) b', of "int (length p)"]
  have "grown ?b (int (length p)) i b1" by simp
  with room have "\<exists>x. Buffer_Write rt b p = Inr x" by (simp add: Buffer_Write_def grown_copy)
  with Buffer_Write_spec [OF rt(1) b, of p] show ?thesis by auto
qed

section \<open>Sequences of calls\<close>

text \<open>
  The calls of a client that writes and reads, as data; \<open>Buffer_run\<close> makes them in order and
  collects the items the reads deliver.
\<close>

datatype 'a buffer_op =
    OpWrite "'a list"
  | OpWriteItem 'a
  | OpGrow int
  | OpRead "'a list"
  | OpReadItem
  | OpNext int
  | OpReadItems "'a \<Rightarrow> bool"

fun Buffer_op :: "'a runtime \<Rightarrow> 'a buffer_op \<Rightarrow> 'a Buffer \<Rightarrow> go_panic + ('a list \<times> 'a Buffer)" where
  "Buffer_op rt (OpWrite p) b = andThen (Buffer_Write rt b p) (\<lambda>(_, b'). Inr ([], b'))"
| "Buffer_op rt (OpWriteItem x) b = andThen (Buffer_WriteItem rt b x) (\<lambda>(_, b'). Inr ([], b'))"
| "Buffer_op rt (OpGrow n) b = andThen (Buffer_Grow rt b n) (\<lambda>b'. Inr ([], b'))"
| "Buffer_op rt (OpRead p) b = andThen (Buffer_Read b p) (\<lambda>((n, _, q), b'). Inr (take (nat n) q, b'))"
| "Buffer_op rt OpReadItem b =
     andThen (Buffer_ReadItem rt b) (\<lambda>((x, err), b'). Inr (if err = None then [x] else [], b'))"
| "Buffer_op rt (OpNext n) b = Buffer_Next b n"
| "Buffer_op rt (OpReadItems delim) b =
     andThen (Buffer_ReadItems delim b) (\<lambda>((line, _), b'). Inr (line, b'))"

fun written :: "'a buffer_op \<Rightarrow> 'a list" where
  "written (OpWrite p) = p"
| "written (OpWriteItem x) = [x]"
| "written _ = []"

fun Buffer_run ::
  "'a runtime \<Rightarrow> 'a buffer_op list \<Rightarrow> 'a Buffer \<Rightarrow> go_panic + ('a list \<times> 'a Buffer)" where
  "Buffer_run rt [] b = Inr ([], b)"
| "Buffer_run rt (x # xs) b =
     andThen (Buffer_op rt x b) (\<lambda>(got, b1).
     andThen (Buffer_run rt xs b1) (\<lambda>(more, b2). Inr (got @ more, b2)))"

lemma Buffer_op_fifo:
  assumes rt: "runtime_ok rt" and b: "buf_inv b" and op: "Buffer_op rt x b = Inr (got, b')"
  shows "buf_inv b' \<and> got @ unread b' = unread b @ written x"
proof (cases x)
  case (OpWrite p)
  with op Buffer_Write_spec [OF rt b, of p] show ?thesis
    by (auto simp: andThen_eq_Inr wrote_def)
next
  case (OpWriteItem y)
  with op Buffer_WriteItem_spec [OF rt b, of y] show ?thesis
    by (auto simp: andThen_eq_Inr wrote_def)
next
  case (OpGrow n)
  with op have "0 \<le> n" by (auto simp: Buffer_Grow_def split: if_splits)
  with OpGrow op Buffer_Grow_spec [OF rt b, of n] show ?thesis by (auto simp: andThen_eq_Inr)
next
  case (OpRead p)
  show ?thesis
  proof (cases "unread b = []")
    case True
    with OpRead op b buf_inv_Reset [OF b] show ?thesis by (auto simp: Buffer_Read_empty)
  next
    case False
    define n where "n = min (length p) (length (unread b))"
    have t: "take n (overlay p 0 (take (length p) (unread b))) = take n (unread b)"
      by (simp add: overlay_def n_def)
    have "n \<le> length (unread b)" by (simp add: n_def)
    then show ?thesis
      using OpRead op unread_advance [OF b, where n = n] buf_inv_advance [OF b, of n]
      by (auto simp: Buffer_Read_items [OF b False, of p, folded n_def] t)
  qed
next
  case OpReadItem
  show ?thesis
  proof (cases "unread b = []")
    case True
    with OpReadItem op b buf_inv_Reset [OF b] show ?thesis by (auto simp: Buffer_ReadItem_empty)
  next
    case False
    with OpReadItem op b show ?thesis
      using unread_advance [OF b, where n = 1] buf_inv_advance [OF b, of 1]
      by (auto simp: Buffer_ReadItem_item Suc_le_eq drop_Suc)
  qed
next
  case (OpNext n)
  with op have "0 \<le> n" using Buffer_Next_negative [OF b, of n] by (cases "n < 0") auto
  with OpNext op show ?thesis
    using unread_advance [OF b] buf_inv_advance [OF b] by (auto simp: Buffer_Next_ok [OF b])
next
  case (OpReadItems delim)
  let ?line = "upto_delim delim (unread b)"
  have "?line @ drop (length ?line) (unread b) = unread b"
    by (simp add: upto_delim_def min_def)
  moreover have "length ?line \<le> length (unread b)" by (simp add: upto_delim_def)
  ultimately show ?thesis
    using OpReadItems op unread_advance [OF b, where n = "length ?line"] buf_inv_advance [OF b, of "length ?line"]
    by (auto simp: Buffer_ReadItems_ok [OF b])
qed

lemma Buffer_run_fifo:
  assumes rt: "runtime_ok rt"
  shows "buf_inv b \<Longrightarrow> Buffer_run rt xs b = Inr (got, b') \<Longrightarrow>
    buf_inv b' \<and> got @ unread b' = unread b @ concat (map written xs)"
proof (induction xs arbitrary: b got)
  case (Cons x xs)
  from Cons.prems(2) obtain g b1 more where
    "Buffer_op rt x b = Inr (g, b1)" "Buffer_run rt xs b1 = Inr (more, b')" "got = g @ more"
    by (auto simp: andThen_eq_Inr)
  with Cons.IH [of b1 more] Buffer_op_fifo [OF rt Cons.prems(1)] show ?case by fastforce
qed simp

section \<open>Correctness of the buffer\<close>

text \<open>
  The runtime the witnesses run in: items are integers, and \<open>append\<close> allocates exactly what is
  asked for.
\<close>

definition int_runtime :: "int runtime" where
  "int_runtime = \<lparr>zero_val = 0, alloc = (\<lambda>c. if 0 \<le> c \<and> c \<le> maxInt then Some c else None)\<rparr>"

lemma int_runtime_ok: "runtime_ok int_runtime" "ample int_runtime"
  by (auto simp: runtime_ok_def ample_def int_runtime_def)

lemma zero_Buffer_cap: "s_cap (buf zero_Buffer) = 0" "Buffer_Cap zero_Buffer = 0"
  by (simp_all add: zero_Buffer_def nil_slice_def s_cap_def Buffer_Cap_def)

text \<open>
  C2: First in, first out.  Whatever sequence of \<open>Write\<close>, \<open>WriteItem\<close>, \<open>Grow\<close>, \<open>Read\<close>, \<open>ReadItem\<close>,
  \<open>Next\<close> and \<open>ReadItems\<close> calls a client makes without a panic on a buffer that meets the invariant
  (\<open>UnreadItem\<close>, which delivers an item again, \<open>Truncate\<close> and \<open>Reset\<close>, which drop items, and
  \<open>ReadFrom\<close> and \<open>WriteTo\<close> are not among them), the items its reads
  delivered followed by the items still unread are exactly the items that were unread at the
  start followed by those it wrote, in order: growing, sliding and resetting lose, repeat and
  reorder nothing.
\<close>

theorem Buffer_fifo:
  assumes "runtime_ok rt" and "buf_inv b" and "Buffer_run rt ops b = Inr (got, b')"
  shows "got @ unread b' = unread b @ concat (map written ops) \<and> buf_inv b'"
  using Buffer_run_fifo [OF assms] by blast

theorem Buffer_fifo_witness:
  "\<exists>got b'. Buffer_run int_runtime
      [OpWrite [1, 2, 3], OpRead [0, 0], OpWriteItem 4, OpReadItems (\<lambda>x. x = 4), OpWrite [5]]
      zero_Buffer = Inr (got, b') \<and> got @ unread b' = [1, 2, 3, 4, 5]"
proof -
  let ?ops = "[OpWrite [1, 2, 3], OpRead [0, 0], OpWriteItem 4, OpReadItems (\<lambda>x. x = 4),
    OpWrite [5 :: int]]"
  have "\<not> isl (Buffer_run int_runtime ?ops zero_Buffer)" by code_simp
  then obtain got b' where run: "Buffer_run int_runtime ?ops zero_Buffer = Inr (got, b')"
    by (cases "Buffer_run int_runtime ?ops zero_Buffer") auto
  from Buffer_fifo [OF int_runtime_ok(1) buf_inv_zero(1) run] run buf_inv_zero(2)
  show ?thesis by auto
qed

text \<open>
  \<open>Write\<close> appends.  As long as the runtime can allocate every capacity up to \<open>maxInt\<close> and
  \<open>2 * cap + len(p)\<close> does not exceed it, \<open>Write\<close> returns \<open>len(p)\<close> and no error, the unread items
  are the old ones followed by \<open>p\<close>, \<open>UnreadItem\<close> is disabled and the invariant holds.
\<close>

theorem Buffer_Write_appends:
  assumes "runtime_ok rt" "ample rt" and "buf_inv b" and "2 * Buffer_Cap b + int (length p) \<le> maxInt"
  shows "\<exists>b'. Buffer_Write rt b p = Inr ((int (length p), None), b')
    \<and> Buffer_Value b' = Inr (unread b @ p) \<and> buf_inv b'
    \<and> Buffer_UnreadItem b' = (Some ErrBufferUnreadItem, b')"
  using Buffer_Write_returns [of rt b p] assms
  by (auto simp: wrote_def Buffer_Value_ok Buffer_UnreadItem_def Buffer_Cap_def)

theorem Buffer_Write_appends_witness:
  "\<exists>b'. Buffer_Write int_runtime zero_Buffer [7, 8] = Inr ((2, None), b')
    \<and> Buffer_Value b' = Inr [7, 8]"
  using Buffer_Write_appends [OF int_runtime_ok buf_inv_zero(1), of "[7, 8]"]
  by (auto simp: buf_inv_zero(2) zero_Buffer_cap maxInt_def)

text \<open>
  C10: The panics of reachable buffers.  In every state a client can reach from the zero value or
  \<open>NewBuffer\<close> by any method calls that return (with any reader for \<open>ReadFrom\<close>; the writer of
  \<open>WriteTo\<close> must not report a negative count) the invariant \<open>0 <= off <= len(buf) <= cap(buf)\<close> holds, and:
  \<open>Value\<close>, \<open>Read\<close>, \<open>ReadItem\<close>, \<open>ReadItems\<close>, \<open>Next(n)\<close> for \<open>n >= 0\<close> and \<open>Truncate(n)\<close> for
  \<open>0 <= n <= Len()\<close> do not panic; \<open>Next(n)\<close> for a negative \<open>n\<close> panics with a slice error, \<open>Truncate\<close>
  out of range with its message and \<open>Grow\<close> of a negative count with \<open>ErrBufferNegativeCount\<close>; \<open>Write\<close>,
  \<open>WriteItem\<close> and \<open>Grow(n)\<close> for \<open>n >= 0\<close> panic with nothing but \<open>ErrBufferTooLarge\<close>; \<open>WriteTo\<close>
  panics only as its writer does or with \<open>ErrBufferInvalidWriteCount\<close>; \<open>ReadFrom\<close> panics only as
  its reader does, with \<open>ErrBufferTooLarge\<close>, with \<open>ErrBufferNegativeRead\<close>, or with a slice error
  when its reader reports more items than it was given room for.
\<close>

theorem Buffer_reach_safe:
  assumes "runtime_ok rt" and "Buffer_reach rt rd wr b"
  shows "buf_inv b
    \<and> Buffer_Value b = Inr (unread b) \<and> Buffer_Len b = int (length (unread b))
    \<and> (\<forall>p. \<not> isl (Buffer_Read b p)) \<and> \<not> isl (Buffer_ReadItem rt b)
    \<and> (\<forall>delim. \<not> isl (Buffer_ReadItems delim b))
    \<and> (\<forall>n. if 0 \<le> n then \<not> isl (Buffer_Next b n) else Buffer_Next b n = Inl SliceBounds)
    \<and> (\<forall>n. if 0 \<le> n \<and> n \<le> Buffer_Len b then \<not> isl (Buffer_Truncate b n)
            else Buffer_Truncate b n = Inl (PanicStr ''gbuf.Buffer: truncation out of range''))
    \<and> (\<forall>p f. Buffer_Write rt b p = Inl f \<longrightarrow> f = PanicErr ErrBufferTooLarge)
    \<and> (\<forall>x f. Buffer_WriteItem rt b x = Inl f \<longrightarrow> f = PanicErr ErrBufferTooLarge)
    \<and> (\<forall>n f. Buffer_Grow rt b n = Inl f \<longrightarrow>
          f = PanicErr (if n < 0 then ErrBufferNegativeCount else ErrBufferTooLarge))
    \<and> (\<forall>n. n < 0 \<longrightarrow> isl (Buffer_Grow rt b n))
    \<and> (\<forall>w f. Buffer_WriteTo wr b w = Inl f \<longrightarrow>
          f = PanicErr ErrBufferInvalidWriteCount \<or> wr w (unread b) = Inl f)
    \<and> (\<forall>fuel r f. Buffer_ReadFrom fuel rt rd b r = Some (Inl f) \<longrightarrow> ReadFrom_panic rd f)"
proof -
  have b: "buf_inv b" using Buffer_reach_inv assms by blast
  have "\<not> isl (Buffer_Read b p)" for p
    using b by (cases "unread b = []") (simp_all add: Buffer_Read_empty Buffer_Read_items)
  moreover have "\<not> isl (Buffer_ReadItem rt b)"
    using b by (cases "unread b = []") (simp_all add: Buffer_ReadItem_empty Buffer_ReadItem_item)
  moreover have "\<not> isl (Buffer_Truncate b n)" if "0 \<le> n" "n \<le> Buffer_Len b" for n
    using Buffer_Truncate_ok [OF b that] by auto
  moreover have "f = PanicErr ErrBufferTooLarge" if "Buffer_Write rt b p = Inl f" for p f
    using Buffer_Write_spec [OF assms(1) b, of p] that by simp
  moreover have "f = PanicErr ErrBufferTooLarge" if "Buffer_WriteItem rt b x = Inl f" for x f
    using Buffer_WriteItem_spec [OF assms(1) b, of x] that by simp
  moreover have "f = PanicErr (if n < 0 then ErrBufferNegativeCount else ErrBufferTooLarge)"
    if "Buffer_Grow rt b n = Inl f" for n f
    using Buffer_Grow_spec [OF assms(1) b, of n] that by (cases "n < 0") (simp_all add: Buffer_Grow_def)
  moreover have "isl (Buffer_Grow rt b n)" if "n < 0" for n
    using that by (simp add: Buffer_Grow_def)
  moreover have "Buffer_Truncate b n = Inl (PanicStr ''gbuf.Buffer: truncation out of range'')"
    if "\<not> (0 \<le> n \<and> n \<le> Buffer_Len b)" for n
    using that buf_invD [OF b] by (intro Buffer_Truncate_panics) (auto simp: Buffer_Len_def)
  moreover have "f = PanicErr ErrBufferInvalidWriteCount \<or> wr w (unread b) = Inl f"
    if "Buffer_WriteTo wr b w = Inl f" for w f
    using that b by (cases "unread b = []")
      (auto simp: Buffer_WriteTo_empty Buffer_WriteTo_items andThen_eq_Inl split: if_splits)
  moreover have "ReadFrom_panic rd f" if "Buffer_ReadFrom fuel rt rd b r = Some (Inl f)" for fuel r f
    using that b ReadFrom_loop_panics [OF assms(1), of "b\<lparr>isReading := False\<rparr>"]
    by (auto simp: Buffer_ReadFrom_def)
  ultimately show ?thesis
    using b length_unread [OF b]
    by (simp add: Buffer_Value_ok Buffer_ReadItems_ok Buffer_Next_ok Buffer_Next_negative)
qed

theorem Buffer_reach_safe_witness:
  "\<exists>b b'. Buffer_reach int_runtime Buffer_Read (Buffer_Write int_runtime) b
     \<and> unread b = [3, 4] \<and> Buffer_Next b 2 = Inr ([3, 4], b') \<and> Buffer_Next b (-1) = Inl SliceBounds"
proof -
  obtain b where b: "Buffer_Write int_runtime zero_Buffer [3, 4] = Inr ((2, None), b)"
      "unread b = [3, 4]"
    using Buffer_Write_returns [OF int_runtime_ok buf_inv_zero(1), of "[3, 4]"]
    by (auto simp: buf_inv_zero(2) wrote_def zero_Buffer_cap maxInt_def)
  then have reach: "Buffer_reach int_runtime Buffer_Read (Buffer_Write int_runtime) b"
    by (blast intro: reach_step reach_zero step_Write)
  from Buffer_reach_safe [OF int_runtime_ok(1) this] have "buf_inv b"
    "if 0 \<le> (-1 :: int) then \<not> isl (Buffer_Next b (-1)) else Buffer_Next b (-1) = Inl SliceBounds" by blast+
  with reach b(2) Buffer_Next_ok [of b 2] show ?thesis by auto
qed

lemma not_reading: "\<not> isReading b \<Longrightarrow> Buffer_UnreadItem b = (Some ErrBufferUnreadItem, b)"
  by (simp add: Buffer_UnreadItem_def)

lemma UnreadItem_refused:
  assumes rt: "runtime_ok rt" and b: "buf_inv b"
  shows "Buffer_Write rt b p = Inr (res, b') \<Longrightarrow> Buffer_UnreadItem b' = (Some ErrBufferUnreadItem, b')"
    and "Buffer_WriteItem rt b x = Inr (err, b') \<Longrightarrow> Buffer_UnreadItem b' = (Some ErrBufferUnreadItem, b')"
    and "Buffer_Truncate b n = Inr b' \<Longrightarrow> Buffer_UnreadItem b' = (Some ErrBufferUnreadItem, b')"
    and "Buffer_UnreadItem (Buffer_Reset b) = (Some ErrBufferUnreadItem, Buffer_Reset b)"
    and "Buffer_ReadFrom fuel rt rd b r = Some (Inr (res, r', b')) \<Longrightarrow>
      Buffer_UnreadItem b' = (Some ErrBufferUnreadItem, b')"
    and "Buffer_WriteTo wr b w = Inr (res, w', b') \<Longrightarrow> Buffer_UnreadItem b' = (Some ErrBufferUnreadItem, b')"
proof -
  show "Buffer_UnreadItem b' = (Some ErrBufferUnreadItem, b')" if "Buffer_Write rt b p = Inr (res, b')"
    using Buffer_Write_spec [OF rt b, of p] that by (intro not_reading) (simp add: wrote_def)
  show "Buffer_UnreadItem b' = (Some ErrBufferUnreadItem, b')" if "Buffer_WriteItem rt b x = Inr (err, b')"
    using Buffer_WriteItem_spec [OF rt b, of x] that by (intro not_reading) (simp add: wrote_def)
  show "Buffer_UnreadItem b' = (Some ErrBufferUnreadItem, b')" if "Buffer_Truncate b n = Inr b'"
    using that by (intro not_reading)
      (auto simp: Buffer_Truncate_def Buffer_Reset_def Let_def andThen_eq_Inr split: if_splits)
  show "Buffer_UnreadItem (Buffer_Reset b) = (Some ErrBufferUnreadItem, Buffer_Reset b)"
    by (rule not_reading) (simp add: Buffer_Reset_def)
  show "Buffer_UnreadItem b' = (Some ErrBufferUnreadItem, b')"
    if "Buffer_ReadFrom fuel rt rd b r = Some (Inr (res, r', b'))"
    using that ReadFrom_loop_inv [OF rt, of "b\<lparr>isReading := False\<rparr>" fuel rd r 0, THEN conjunct2] b
    by (intro not_reading, cases res) (auto simp: Buffer_ReadFrom_def)
  show "Buffer_UnreadItem b' = (Some ErrBufferUnreadItem, b')" if "Buffer_WriteTo wr b w = Inr (res, w', b')"
    using that b by (intro not_reading, cases "unread b = []")
      (auto simp: Buffer_WriteTo_empty Buffer_WriteTo_items andThen_eq_Inr Buffer_Reset_def split: if_splits)
qed

lemma Grow_keeps_reading:
  assumes b: "buf_inv b" "unread b \<noteq> []" and grow: "Buffer_Grow rt b n = Inr b'"
  shows "isReading b' = isReading b"
proof -
  have "Buffer_Len b \<noteq> 0" using b length_unread [OF b(1)] by auto
  with grow show ?thesis
    by (auto simp: Buffer_Grow_def Buffer_grow_def Buffer_makeRoom_def Buffer_tryGrowByReslice_def Let_def
        andThen_eq_Inr split: if_splits)
qed

text \<open>
  \<open>ReadItem\<close>, then a \<open>Grow\<close> that slides the items down, then \<open>UnreadItem\<close>: it reports success and
  restores nothing.
\<close>

lemma UnreadItem_after_slide:
  "andThen (Buffer_Next (NewBuffer (slice_of [1, 2, 3, 4, 5, 6, 7, 0 :: int] 7)) 5) (\<lambda>(_, b1).
   andThen (Buffer_ReadItem int_runtime b1) (\<lambda>((x, _), b2).
   andThen (Buffer_Grow int_runtime b2 2) (\<lambda>b3.
     let (err, b4) = Buffer_UnreadItem b3 in Inr (x, unread b2, err, unread b4))))
   = Inr (6, [7], None, [7])"
  by code_simp

text \<open>
  C11: \<open>UnreadItem\<close> undoes \<open>ReadItem\<close>: it succeeds once and the item is unread again; a second
  \<open>UnreadItem\<close>, like one after a \<open>Write\<close>, \<open>WriteItem\<close>, \<open>Truncate\<close>, \<open>ReadFrom\<close> or \<open>WriteTo\<close> that
  returned or after a \<open>Reset\<close>, reports \<open>ErrBufferUnreadItem\<close> and changes nothing.  \<open>Grow\<close> is the exception:
  it leaves the permission set, so that after a \<open>Grow\<close> with items unread \<open>UnreadItem\<close> still succeeds
  (\<open>UnreadItem_after_slide\<close> shows that it may then restore nothing).
\<close>

theorem Buffer_UnreadItem_roundtrip:
  assumes "buf_inv b" and "unread b \<noteq> []" and "runtime_ok rt"
  shows "\<exists>b1 b2. Buffer_ReadItem rt b = Inr ((hd (unread b), None), b1)
    \<and> unread b1 = tl (unread b)
    \<and> Buffer_UnreadItem b1 = (None, b2) \<and> unread b2 = unread b
    \<and> Buffer_UnreadItem b2 = (Some ErrBufferUnreadItem, b2)
    \<and> (\<forall>p res b3. Buffer_Write rt b1 p = Inr (res, b3)
          \<longrightarrow> Buffer_UnreadItem b3 = (Some ErrBufferUnreadItem, b3))
    \<and> (\<forall>x res b3. Buffer_WriteItem rt b1 x = Inr (res, b3)
          \<longrightarrow> Buffer_UnreadItem b3 = (Some ErrBufferUnreadItem, b3))
    \<and> (\<forall>n b3. Buffer_Truncate b1 n = Inr b3
          \<longrightarrow> Buffer_UnreadItem b3 = (Some ErrBufferUnreadItem, b3))
    \<and> Buffer_UnreadItem (Buffer_Reset b1) = (Some ErrBufferUnreadItem, Buffer_Reset b1)
    \<and> (\<forall>fuel rd (r :: 'r) res r' b3. Buffer_ReadFrom fuel rt rd b1 r = Some (Inr (res, r', b3))
          \<longrightarrow> Buffer_UnreadItem b3 = (Some ErrBufferUnreadItem, b3))
    \<and> (\<forall>wr (w :: 'w) res w' b3. Buffer_WriteTo wr b1 w = Inr (res, w', b3)
          \<longrightarrow> Buffer_UnreadItem b3 = (Some ErrBufferUnreadItem, b3))
    \<and> (\<forall>n b3. Buffer_Grow rt b1 n = Inr b3 \<and> unread b1 \<noteq> [] \<longrightarrow> fst (Buffer_UnreadItem b3) = None)"
proof -
  let ?b1 = "b\<lparr>off := off b + 1, isReading := True\<rparr>"
  let ?b2 = "b\<lparr>isReading := False\<rparr>"
  have inv: "buf_inv ?b1" using buf_inv_advance [OF assms(1), of 1] assms(2) by (simp add: Suc_le_eq)
  have grow: "fst (Buffer_UnreadItem b3) = None" if "Buffer_Grow rt ?b1 n = Inr b3 \<and> unread ?b1 \<noteq> []" for n b3
    using Grow_keeps_reading [of ?b1 rt n b3] inv that by (simp add: Buffer_UnreadItem_def Let_def)
  have "unread ?b1 = tl (unread b)"
    using unread_advance [OF assms(1), where n = 1] by (simp add: drop_Suc)
  moreover have "Buffer_UnreadItem ?b1 = (None, ?b2)"
    using buf_invD [OF assms(1)] by (cases b) (simp add: Buffer_UnreadItem_def)
  moreover have "Buffer_ReadItem rt b = Inr ((hd (unread b), None), ?b1)"
    using assms(1,2) by (simp add: Buffer_ReadItem_item)
  moreover have "Buffer_UnreadItem ?b2 = (Some ErrBufferUnreadItem, ?b2)" by (rule not_reading) simp
  ultimately show ?thesis
    by - (rule exI [of _ ?b1], rule exI [of _ ?b2], intro conjI allI impI,
      (erule grow | simp add: UnreadItem_refused [OF assms(3) inv])+)
qed

theorem Buffer_UnreadItem_roundtrip_witness:
  "\<exists>b1 b2. Buffer_ReadItem int_runtime (NewBuffer (slice_of [5, 6] 2)) = Inr ((5, None), b1)
    \<and> Buffer_UnreadItem b1 = (None, b2) \<and> unread b2 = [5, 6]"
proof -
  have "buf_inv (NewBuffer (slice_of [5, 6 :: int] 2))"
    by (rule buf_inv_NewBuffer) (simp add: slice_ok_def maxInt_def)
  moreover have "unread (NewBuffer (slice_of [5, 6 :: int] 2)) = [5, 6]"
    by (simp add: unread_NewBuffer s_items_def)
  ultimately show ?thesis
    using Buffer_UnreadItem_roundtrip [of "NewBuffer (slice_of [5, 6] 2)" int_runtime]
    by (auto simp: int_runtime_ok)
qed

text \<open>
  C12: \<open>ReadItems(delim)\<close> splits the unread items after the first match of \<open>delim\<close>: the line and
  what stays unread make up the old contents; if some item matches, there is no error and the
  line is match-free up to its last item, which matches; otherwise the line is everything and the
  error is \<open>io.EOF\<close>.
\<close>

theorem Buffer_ReadItems_splits:
  assumes "buf_inv b"
  shows "\<exists>line err b'. Buffer_ReadItems delim b = Inr ((line, err), b') \<and> buf_inv b'
    \<and> line @ unread b' = unread b
    \<and> (if \<exists>x\<in>set (unread b). delim x
       then err = None \<and> (\<exists>ys x. line = ys @ [x] \<and> delim x \<and> (\<forall>y\<in>set ys. \<not> delim y))
       else err = Some EOF \<and> unread b' = [])"
proof -
  let ?line = "upto_delim delim (unread b)"
  have len: "length ?line \<le> length (unread b)" by (simp add: upto_delim_def)
  have "?line @ drop (length ?line) (unread b) = unread b" by (simp add: upto_delim_def min_def)
  then show ?thesis
    using upto_delim_last [of "unread b" delim] upto_delim_no_match [of "unread b" delim]
      unread_advance [OF assms, where n = "length ?line"] buf_inv_advance [OF assms len]
    by (auto simp: Buffer_ReadItems_ok [OF assms])
qed

theorem Buffer_ReadItems_splits_witness:
  "\<exists>b'. Buffer_ReadItems (\<lambda>x. x = 0) (NewBuffer (slice_of [5, 0, 6 :: int] 3)) =
     Inr (([5, 0], None), b') \<and> unread b' = [6]"
proof -
  let ?b = "NewBuffer (slice_of [5, 0, 6 :: int] 3)"
  have inv: "buf_inv ?b" by (rule buf_inv_NewBuffer) (simp add: slice_ok_def maxInt_def)
  have "unread ?b = [5, 0, 6]" by (simp add: unread_NewBuffer s_items_def)
  with Buffer_ReadItems_splits [OF inv, of "\<lambda>x. x = 0"] show ?thesis
    by (auto simp: Buffer_ReadItems_ok [OF inv] upto_delim_def)
qed

text \<open>
  \<open>WriteTo\<close> with an arbitrary writer.  An empty buffer is reset without a call.  Otherwise the
  writer is called once, with all unread items, and its count \<open>m\<close> and error decide: a panic of
  the writer propagates; a count above \<open>Len()\<close> panics with \<open>ErrBufferInvalidWriteCount\<close>; an error
  is returned as it is and a short count without an error as \<open>io.ErrShortWrite\<close>, in both cases
  with exactly the first \<open>m\<close> items consumed; a full count empties the buffer.
\<close>

theorem Buffer_WriteTo_branches:
  assumes "buf_inv b"
  defines "k \<equiv> int (length (unread b))"
  shows "(case (if unread b = [] then Inr ((0, None), w) else wr w (unread b)) of
      Inl f \<Rightarrow> Buffer_WriteTo wr b w = Inl f
    | Inr ((m, e), w') \<Rightarrow>
        if m > k then Buffer_WriteTo wr b w = Inl (PanicErr ErrBufferInvalidWriteCount)
        else \<exists>b'. Buffer_WriteTo wr b w =
                   Inr ((m, if e = None \<and> m \<noteq> k then Some ErrShortWrite else e), w', b')
             \<and> (0 \<le> m \<longrightarrow> unread b' = drop (nat m) (unread b) \<and> buf_inv b')
             \<and> \<not> isReading b' \<and> Buffer_Cap b' = Buffer_Cap b)"
proof (cases "unread b = []")
  case True
  then show ?thesis
    using assms buf_inv_Reset [OF assms(1)]
    by (simp add: Buffer_WriteTo_empty Buffer_Reset_def Buffer_Cap_def unread_def)
next
  case False
  have "unread (b\<lparr>isReading := False, off := off b + m\<rparr>) = drop (nat m) (unread b)"
    "buf_inv (b\<lparr>isReading := False, off := off b + m\<rparr>)" if "0 \<le> m" "m \<le> k" for m
    using that unread_advance [OF assms(1), where n = "nat m" and r = False]
      buf_inv_advance [OF assms(1), of "nat m" False] by (simp_all add: k_def nat_le_iff)
  note partial = this
  show ?thesis
  proof (cases "wr w (unread b)")
    case (Inl f)
    with False show ?thesis by (simp add: Buffer_WriteTo_items [OF assms(1)])
  next
    case (Inr x)
    then obtain m e w' where wr: "wr w (unread b) = Inr ((m, e), w')" by (cases x) auto
    have "unread (Buffer_Reset b) = drop (nat k) (unread b)" by (simp add: k_def)
    then show ?thesis
      using False wr partial [of m] buf_inv_Reset [OF assms(1)]
      by (simp add: Buffer_WriteTo_items [OF assms(1) False, folded k_def] Buffer_Cap_def)
        (simp add: Buffer_Reset_def)
  qed
qed

theorem Buffer_WriteTo_branches_witness:
  "\<exists>b'. Buffer_WriteTo (\<lambda>w p. Inr ((1, None), w @ take 1 p)) (NewBuffer (slice_of [5, 6 :: int] 2)) [] =
     Inr ((1, Some ErrShortWrite), [5], b') \<and> unread b' = [6]"
proof -
  let ?b = "NewBuffer (slice_of [5, 6 :: int] 2)"
  have inv: "buf_inv ?b" by (rule buf_inv_NewBuffer) (simp add: slice_ok_def maxInt_def)
  have "unread ?b = [5, 6]" by (simp add: unread_NewBuffer s_items_def)
  with Buffer_WriteTo_branches [OF inv, of "\<lambda>w p. Inr ((1, None), w @ take 1 p)" "[]"]
  show ?thesis by auto
qed

text \<open>
  C13: After \<open>Grow(n)\<close> returns, the contents are unchanged and any \<open>n\<close> more items can be written
  without another allocation: \<open>Write\<close> of up to \<open>n\<close> items cannot panic, whatever the allocator
  does, and leaves the capacity as it is.
\<close>

theorem Buffer_Grow_guarantee:
  assumes "runtime_ok rt" and "buf_inv b" and "Buffer_Grow rt b n = Inr b1"
    and "int (length p) \<le> n"
  shows "unread b1 = unread b \<and> (\<exists>b2. Buffer_Write rt' b1 p = Inr ((int (length p), None), b2)
    \<and> Buffer_Cap b2 = Buffer_Cap b1 \<and> unread b2 = unread b @ p \<and> buf_inv b2)"
proof -
  have "0 \<le> n" using assms(4) by simp
  with Buffer_Grow_spec [OF assms(1,2), of n] assms(3)
  have "buf_inv b1" "unread b1 = unread b" "n \<le> s_cap (buf b1) - s_len (buf b1)" by auto
  with Buffer_Write_in_place [of b1 p rt'] assms(4) show ?thesis by (auto simp: wrote_def)
qed

theorem Buffer_Grow_guarantee_witness:
  "\<exists>b1 b2. Buffer_Grow int_runtime zero_Buffer 3 = Inr b1
    \<and> Buffer_Write \<lparr>zero_val = 0, alloc = (\<lambda>_. None)\<rparr> b1 [1, 2, 3] = Inr ((3, None), b2)"
proof -
  have "\<not> isl (Buffer_Grow int_runtime zero_Buffer 3)" by code_simp
  then obtain b1 where b1: "Buffer_Grow int_runtime zero_Buffer 3 = Inr b1"
    by (cases "Buffer_Grow int_runtime zero_Buffer 3") auto
  from Buffer_Grow_guarantee [OF int_runtime_ok(1) buf_inv_zero(1) b1, of "[1, 2, 3]"
      "\<lparr>zero_val = 0, alloc = (\<lambda>_. None)\<rparr>"] b1
  show ?thesis by auto
qed

text \<open>
  What \<open>UnreadItem\<close> does after a read that found nothing: \<open>ReadItems\<close> on a drained buffer reports
  \<open>io.EOF\<close>, and the \<open>UnreadItem\<close> that follows succeeds all the same and brings back the item
  read before.
\<close>

lemma UnreadItem_after_EOF:
  assumes "buf_inv b" and "unread b = []" and "0 < off b"
  shows "\<exists>b1 b2. Buffer_ReadItems delim b = Inr (([], Some EOF), b1)
    \<and> Buffer_UnreadItem b1 = (None, b2) \<and> unread b2 = [s_cells (buf b) ! nat (off b - 1)]"
  using assms unread_back [OF assms(1,3), where r = False]
  by (auto simp: Buffer_ReadItems_ok upto_delim_def Buffer_UnreadItem_def)

text \<open>No sum or product \<open>grow\<close> computes leaves the 64-bit range.\<close>

lemma grow_no_overflow:
  assumes "buf_inv b" and "0 \<le> n" and "n \<le> maxInt"
  defines "c \<equiv> s_cap (buf b)" and "m \<equiv> Buffer_Len b"
  shows "in64 (c - s_len (buf b))" "in64 (c sdiv 2 - m)" "in64 (maxInt - c)" "in64 (maxInt - c - n)"
    "n \<le> c - s_len (buf b) \<Longrightarrow> in64 (s_len (buf b) + n)"
    "\<not> c > maxInt - c - n \<Longrightarrow> in64 (off b + n) \<and> in64 (m + (off b + n)) \<and> in64 (m + n)
       \<and> in64 (2 * (c - off b))"
  using buf_invD [OF assms(1)] assms(2,3)
  by (auto simp: in64_def c_def m_def Buffer_Len_def sdiv_nonneg maxInt_def)

end
