(* ===== verification/Peek.thy ===== *)
theory Peek
  imports Buffer
begin

text \<open>
  \<open>peek.go\<close> and \<open>peek_buffer.go\<close>: looking at a buffer's items without consuming them, as
  functions on a \<open>*Buffer\<close> that may be nil (an option here) and as methods of \<open>PeekBuffer\<close>, which
  is a struct around the buffer pointer, so that its state is the buffer itself.
\<close>

section \<open>peek.go\<close>

definition Peek ::
  "'a list \<Rightarrow> 'a Buffer option
   \<Rightarrow> go_panic + ((int \<times> go_error option \<times> 'a list) \<times> 'a Buffer option)" where
  "Peek p ob =
     (case ob of
        None \<Rightarrow> Inr ((0, None, p), None)
      | Some b \<Rightarrow>
          if Buffer_empty b then
            Inr ((0, if p = [] then None else Some EOF, p), Some (Buffer_Reset b))
          else
            andThen (slice_from (buf b) (off b)) (\<lambda>src.
            andThen (go_copy p 0 (int (length p)) (s_items src)) (\<lambda>(n, q).
              Inr ((n, None, q), Some b))))"

definition PeekFrom ::
  "int \<Rightarrow> 'a list \<Rightarrow> 'a Buffer option
   \<Rightarrow> go_panic + ((int \<times> go_error option \<times> 'a list) \<times> 'a Buffer option)" where
  "PeekFrom idx p ob =
     (case ob of
        None \<Rightarrow> Inr ((0, None, p), None)
      | Some b \<Rightarrow>
          if idx < 0 \<or> idx \<ge> s_len (buf b) then
            Inr ((0, Some ErrPeekBufferIndexOutOfBounds, p), Some b)
          else if Buffer_empty b then
            Inr ((0, if p = [] then None else Some EOF, p), Some (Buffer_Reset b))
          else
            andThen (slice_from (buf b) idx) (\<lambda>src.
            andThen (go_copy p 0 (int (length p)) (s_items src)) (\<lambda>(n, q).
              Inr ((n, None, q), Some b))))"

text \<open>The loop that reverses \<open>p\<close> in place: \<open>p[i], p[j] = p[j], p[i]\<close> while \<open>i < len(p)/2\<close>.\<close>

function reverse_loop :: "'a list \<Rightarrow> int \<Rightarrow> int \<Rightarrow> int \<Rightarrow> go_panic + 'a list" where
  "reverse_loop p ln i j =
     (if i < ln sdiv 2 then
        andThen (go_index p j) (\<lambda>x. andThen (go_index p i) (\<lambda>y.
        andThen (go_update p i x) (\<lambda>p1. andThen (go_update p1 j y) (\<lambda>p2.
          reverse_loop p2 ln (i + 1) (j - 1)))))
      else Inr p)"
  by pat_completeness auto
termination
  by (relation "measure (\<lambda>(p, ln, i, j). nat (ln sdiv 2 - i))") auto

declare reverse_loop.simps [simp del]

definition PeekRange ::
  "int \<Rightarrow> int \<Rightarrow> 'a list \<Rightarrow> 'a Buffer option
   \<Rightarrow> go_panic + ((int \<times> go_error option \<times> 'a list) \<times> 'a Buffer option)" where
  "PeekRange from0 to0 p ob =
     (case ob of
        None \<Rightarrow> Inr ((0, None, p), None)
      | Some b \<Rightarrow>
          if from0 = to0 then Inr ((0, None, p), Some b)
          else if from0 < 0 \<or> from0 \<ge> s_len (buf b) then
            Inr ((0, Some (Errorf ErrIndexOutOfBounds '': from value: '' from0), p), Some b)
          else if to0 < 0 \<or> to0 \<ge> s_len (buf b) then
            Inr ((0, Some (Errorf ErrIndexOutOfBounds '': to value: '' to0), p), Some b)
          else
            (let ln = int (length p);
                 invert = (from0 > to0);
                 (to1, from1) = (if from0 > to0 then (from0, to0) else (to0, from0))
             in if Buffer_empty b then
                  Inr ((0, if ln = 0 then None else Some EOF, p), Some (Buffer_Reset b))
                else
                  andThen (slice_window (buf b) to1 from1) (\<lambda>src.
                  andThen (go_copy p 0 ln src) (\<lambda>(n, q).
                  andThen (if invert then reverse_loop q ln 0 (ln - 1) else Inr q) (\<lambda>q'.
                    Inr ((n, None, q'), Some b))))))"

section \<open>peek\_buffer.go\<close>

type_synonym 'a PeekBuffer = "'a Buffer"

definition NewPeekBuffer :: "'a slice \<Rightarrow> 'a PeekBuffer" where
  "NewPeekBuffer s = NewBuffer s"

definition AsPeekBuffer :: "'a Buffer \<Rightarrow> 'a PeekBuffer" where
  "AsPeekBuffer b = b"

definition PeekBuffer_Peek ::
  "'a PeekBuffer \<Rightarrow> 'a list \<Rightarrow> go_panic + ((int \<times> go_error option \<times> 'a list) \<times> 'a PeekBuffer)" where
  "PeekBuffer_Peek b p =
     (if Buffer_empty b then
        Inr ((0, if p = [] then None else Some EOF, p), Buffer_Reset b)
      else
        andThen (slice_from (buf b) (off b)) (\<lambda>src.
        andThen (go_copy p 0 (int (length p)) (s_items src)) (\<lambda>(n, q). Inr ((n, None, q), b))))"

definition PeekBuffer_PeekFrom ::
  "'a PeekBuffer \<Rightarrow> int \<Rightarrow> 'a list
   \<Rightarrow> go_panic + ((int \<times> go_error option \<times> 'a list) \<times> 'a PeekBuffer)" where
  "PeekBuffer_PeekFrom b idx p =
     (if idx < 0 \<or> idx \<ge> s_len (buf b) then
        Inr ((0, Some ErrPeekBufferIndexOutOfBounds, p), b)
      else if Buffer_empty b then
        Inr ((0, if p = [] then None else Some EOF, p), Buffer_Reset b)
      else
        andThen (slice_from (buf b) idx) (\<lambda>src.
        andThen (go_copy p 0 (int (length p)) (s_items src)) (\<lambda>(n, q). Inr ((n, None, q), b))))"

definition PeekBuffer_PeekRange ::
  "'a PeekBuffer \<Rightarrow> int \<Rightarrow> int \<Rightarrow> 'a list
   \<Rightarrow> go_panic + ((int \<times> go_error option \<times> 'a list) \<times> 'a PeekBuffer)" where
  "PeekBuffer_PeekRange b from0 to0 p =
     (if from0 = to0 then Inr ((0, None, p), b)
      else if from0 < 0 \<or> from0 \<ge> s_len (buf b) then
        Inr ((0, Some (Errorf ErrPeekBufferIndexOutOfBounds '': from value: '' from0), p), b)
      else if to0 < 0 \<or> to0 \<ge> s_len (buf b) then
        Inr ((0, Some (Errorf ErrPeekBufferIndexOutOfBounds '': to value: '' to0), p), b)
      else
        (let ln = int (length p);
             invert = (from0 > to0);
             (to1, from1) = (if from0 > to0 then (from0, to0) else (to0, from0))
         in if Buffer_empty b then
              Inr ((0, if ln = 0 then None else Some EOF, p), Buffer_Reset b)
            else
              andThen (slice_window (buf b) to1 from1) (\<lambda>src.
              andThen (go_copy p 0 ln src) (\<lambda>(n, q).
              andThen (if invert then reverse_loop q ln 0 (ln - 1) else Inr q) (\<lambda>q'.
                Inr ((n, None, q'), b))))))"

section \<open>The methods and the functions agree\<close>

lemma PeekBuffer_Peek_eq:
  "PeekBuffer_Peek b p = andThen (Peek p (Some b)) (\<lambda>(res, ob). Inr (res, the ob))"
  by (simp add: PeekBuffer_Peek_def Peek_def andThen_assoc split_def)

lemma PeekBuffer_PeekFrom_eq:
  "PeekBuffer_PeekFrom b idx p = andThen (PeekFrom idx p (Some b)) (\<lambda>(res, ob). Inr (res, the ob))"
  by (simp add: PeekBuffer_PeekFrom_def PeekFrom_def andThen_assoc split_def)

lemma PeekFrom_ok:
  assumes "buf_inv b" "unread b \<noteq> []" "0 \<le> idx" "idx < s_len (buf b)"
  shows "PeekFrom idx p (Some b) =
    Inr ((min (int (length p)) (s_len (buf b) - idx), None,
          overlay p 0 (take (length p) (drop (nat idx) (s_items (buf b))))), Some b)"
proof -
  have "\<not> Buffer_empty b" using unread_Nil_iff assms(1,2) by blast
  moreover have "length (s_items (buf b)) = nat (s_len (buf b))"
    using buf_invD [OF assms(1)] by (simp add: s_items_def)
  moreover have "s_items \<lparr>s_nil = s_nil (buf b), s_cells = drop (nat idx) (s_cells (buf b)),
      s_len = s_len (buf b) - idx\<rparr> = drop (nat idx) (s_items (buf b))"
    using assms(3) buf_invD [OF assms(1)] by (simp add: s_items_def drop_take nat_diff_distrib')
  ultimately show ?thesis
    using assms(3,4) by (simp add: PeekFrom_def go_simps)
qed

text \<open>
  C40: \<open>Peek\<close> returns what \<open>Read\<close> would return, the count, the error and the items in \<open>p\<close>, in every
  case (items available, drained buffer, empty \<open>p\<close>), but leaves the unread items as they are, so
  that a following \<open>Read\<close> delivers the same; \<open>PeekFrom\<close> at the read offset sees the same items,
  and the methods of \<open>PeekBuffer\<close> agree with the functions.
\<close>

theorem Peek_like_Read:
  assumes "buf_inv b"
  shows "\<exists>res b1 b2. Peek p (Some b) = Inr (res, Some b1) \<and> Buffer_Read b p = Inr (res, b2)
    \<and> unread b1 = unread b \<and> buf_inv b1
    \<and> PeekBuffer_Peek b p = Inr (res, b1)
    \<and> (unread b \<noteq> [] \<longrightarrow> PeekFrom (off b) p (Some b) = Inr (res, Some b1)
                      \<and> PeekBuffer_PeekFrom b (off b) p = Inr (res, b1))"
proof (cases "unread b = []")
  case True
  then have "Buffer_empty b" using unread_Nil_iff [OF assms] by simp
  with True show ?thesis
    using buf_inv_Reset [OF assms]
    by (simp add: Peek_def PeekBuffer_Peek_def Buffer_Read_empty assms)
next
  case False
  then have ne: "\<not> Buffer_empty b" using unread_Nil_iff [OF assms] by simp
  obtain src where src: "slice_from (buf b) (off b) = Inr src" "s_items src = unread b"
    using slice_from_unread [OF assms] by auto
  have off: "0 \<le> off b" "off b < s_len (buf b)"
    using buf_invD [OF assms] ne by (auto simp: Buffer_empty_def)
  let ?res = "(int (min (length p) (length (unread b))), None :: go_error option,
    overlay p 0 (take (length p) (unread b)))"
  have "Peek p (Some b) = Inr (?res, Some b)"
    using ne src by (simp add: Peek_def go_simps)
  moreover have "PeekFrom (off b) p (Some b) = Inr (?res, Some b)"
    using ne src off by (simp add: PeekFrom_def go_simps)
  ultimately show ?thesis
    using Buffer_Read_items [OF assms False, of p] assms
    by (simp add: PeekBuffer_Peek_eq PeekBuffer_PeekFrom_eq)
qed

theorem Peek_like_Read_witness:
  "\<exists>res b1. Peek [0, 0] (Some (NewBuffer (slice_of [5, 6, 7 :: int] 3))) = Inr (res, Some b1)
     \<and> PeekFrom 0 [0, 0] (Some (NewBuffer (slice_of [5, 6, 7] 3))) = Inr (res, Some b1)
     \<and> unread b1 = [5, 6, 7]"
proof -
  let ?b = "NewBuffer (slice_of [5, 6, 7 :: int] 3)"
  have inv: "buf_inv ?b" by (rule buf_inv_NewBuffer) (simp add: slice_ok_def maxInt_def)
  have "unread ?b = [5, 6, 7]" "off ?b = 0"
    by (simp_all add: unread_NewBuffer s_items_def) (simp add: NewBuffer_def)
  with Peek_like_Read [OF inv, of "[0, 0]"] show ?thesis by fastforce
qed

text \<open>
  \<open>PeekRange\<close> never delivers an item.  For two different valid indexes of a buffer with unread
  items it orders them so that \<open>from < to\<close> and then slices \<open>buf[to:from]\<close>: the call always panics
  with slice bounds out of range, in both orders, for the function and for the method.
\<close>

theorem PeekRange_panics:
  assumes "buf_inv b" and "unread b \<noteq> []" and "from \<noteq> to"
    and "0 \<le> from" "from < s_len (buf b)" and "0 \<le> to" "to < s_len (buf b)"
  shows "PeekRange from to p (Some b) = Inl SliceBounds
    \<and> PeekBuffer_PeekRange b from to p = Inl SliceBounds"
  using assms unread_Nil_iff [OF assms(1)]
  by (auto simp: PeekRange_def PeekBuffer_PeekRange_def slice_window_def go_slice_def)

theorem PeekRange_panics_witness:
  "PeekRange 0 2 [0, 0] (Some (NewBuffer (slice_of [5, 6, 7 :: int] 3))) = Inl SliceBounds"
proof -
  have inv: "buf_inv (NewBuffer (slice_of [5, 6, 7 :: int] 3))"
    by (rule buf_inv_NewBuffer) (simp add: slice_ok_def maxInt_def)
  show ?thesis
    using PeekRange_panics [OF inv, of 0 2 "[0, 0]"]
    by (simp add: unread_NewBuffer s_items_def) (simp add: NewBuffer_def)
qed

end
