(* ===== verification/SliceReader.thy ===== *)
theory SliceReader
  imports Buffer
begin

text \<open>
  \<open>reader.go\<close>: \<open>Reader[T]\<close>, the read-only, seekable view of a slice.  The position \<open>i\<close> is an
  \<open>int64\<close> that \<open>Seek\<close> may move past the end of the slice; \<open>Seek\<close>'s sums wrap around as \<open>int64\<close>
  does.  The constants \<open>gio.SeekStart\<close>, \<open>gio.SeekCurrent\<close> and \<open>gio.SeekEnd\<close> belong to the external
  package \<open>gio\<close> and are parameters.
\<close>

section \<open>State and methods\<close>

record 'a Reader =
  rd_s :: "'a list"
  rd_i :: int
  prevRune :: int

record seek_consts =
  SeekStart :: int
  SeekCurrent :: int
  SeekEnd :: int

definition NewReader :: "'a list \<Rightarrow> 'a Reader" where
  "NewReader b = \<lparr>rd_s = b, rd_i = 0, prevRune = -1\<rparr>"

definition Reader_Len :: "'a Reader \<Rightarrow> int" where
  "Reader_Len r = (if rd_i r \<ge> int (length (rd_s r)) then 0 else int (length (rd_s r)) - rd_i r)"

definition Reader_Size :: "'a Reader \<Rightarrow> int" where
  "Reader_Size r = int (length (rd_s r))"

definition Reader_Read ::
  "'a Reader \<Rightarrow> 'a list \<Rightarrow> go_panic + ((int \<times> go_error option \<times> 'a list) \<times> 'a Reader)" where
  "Reader_Read r b =
     (if rd_i r \<ge> int (length (rd_s r)) then Inr ((0, Some EOF, b), r)
      else
        (let r1 = r\<lparr>prevRune := -1\<rparr>
         in andThen (go_slice (rd_s r1) (rd_i r1) (int (length (rd_s r1)))) (\<lambda>src.
            andThen (go_copy b 0 (int (length b)) src) (\<lambda>(n, b').
              Inr ((n, None, b'), r1\<lparr>rd_i := rd_i r1 + n\<rparr>)))))"

definition Reader_ReadAt ::
  "'a Reader \<Rightarrow> 'a list \<Rightarrow> int \<Rightarrow> go_panic + (int \<times> go_error option \<times> 'a list)" where
  "Reader_ReadAt r b offset =
     (if offset < 0 then Inr (0, Some ErrReaderNegativeOffset, b)
      else if offset \<ge> int (length (rd_s r)) then Inr (0, Some EOF, b)
      else
        andThen (go_slice (rd_s r) offset (int (length (rd_s r)))) (\<lambda>src.
        andThen (go_copy b 0 (int (length b)) src) (\<lambda>(n, b').
          Inr (n, if n < int (length b) then Some EOF else None, b'))))"

definition Reader_ReadItem ::
  "'a runtime \<Rightarrow> 'a Reader \<Rightarrow> go_panic + (('a \<times> go_error option) \<times> 'a Reader)" where
  "Reader_ReadItem rt r =
     (let r1 = r\<lparr>prevRune := -1\<rparr>
      in if rd_i r1 \<ge> int (length (rd_s r1)) then Inr ((zero_val rt, Some EOF), r1)
         else andThen (go_index (rd_s r1) (rd_i r1)) (\<lambda>b. Inr ((b, None), r1\<lparr>rd_i := rd_i r1 + 1\<rparr>)))"

definition Reader_UnreadItem :: "'a Reader \<Rightarrow> go_error option \<times> 'a Reader" where
  "Reader_UnreadItem r =
     (if rd_i r \<le> 0 then (Some ErrReaderAtTheBeginning, r)
      else (None, r\<lparr>prevRune := -1, rd_i := rd_i r - 1\<rparr>))"

definition Reader_Seek ::
  "seek_consts \<Rightarrow> 'a Reader \<Rightarrow> int \<Rightarrow> int \<Rightarrow> (int \<times> go_error option) \<times> 'a Reader" where
  "Reader_Seek gio r offset whence =
     (let r1 = r\<lparr>prevRune := -1\<rparr>;
          target =
            (if whence = SeekStart gio then Some offset
             else if whence = SeekCurrent gio then Some (wrap64 (rd_i r1 + offset))
             else if whence = SeekEnd gio then Some (wrap64 (int (length (rd_s r1)) + offset))
             else None)
      in case target of
           None \<Rightarrow> ((0, Some ErrReaderInvalidWhence), r1)
         | Some pos \<Rightarrow>
             if pos < 0 then ((0, Some ErrReaderNegativePosition), r1)
             else ((pos, None), r1\<lparr>rd_i := pos\<rparr>))"

definition Reader_WriteTo ::
  "('w, 'a) writer_fn \<Rightarrow> 'a Reader \<Rightarrow> 'w
   \<Rightarrow> go_panic + ((int \<times> go_error option) \<times> 'w \<times> 'a Reader)" where
  "Reader_WriteTo wr r w =
     (let r1 = r\<lparr>prevRune := -1\<rparr>
      in if rd_i r1 \<ge> int (length (rd_s r1)) then Inr ((0, None), w, r1)
         else
           andThen (go_slice (rd_s r1) (rd_i r1) (int (length (rd_s r1)))) (\<lambda>b.
           andThen (wr w b) (\<lambda>((m, err), w').
             if m > int (length b) then Inr ((0, Some ErrReaderNegativeCount), w', r1)
             else
               Inr ((m, if m \<noteq> int (length b) \<and> err = None then Some ErrShortWrite else err),
                    w', r1\<lparr>rd_i := rd_i r1 + m\<rparr>))))"

definition Reader_Reset :: "'a Reader \<Rightarrow> 'a list \<Rightarrow> 'a Reader" where
  "Reader_Reset r b = \<lparr>rd_s = b, rd_i = 0, prevRune = -1\<rparr>"

section \<open>What is left to read\<close>

text \<open>
  \<open>ahead r\<close> are the items from the position on; the invariant says that position and length are
  Go integers and the position is not negative.
\<close>

definition ahead :: "'a Reader \<Rightarrow> 'a list" where
  "ahead r = drop (nat (rd_i r)) (rd_s r)"

definition reader_ok :: "'a Reader \<Rightarrow> bool" where
  "reader_ok r \<longleftrightarrow> 0 \<le> rd_i r \<and> rd_i r \<le> maxInt \<and> int (length (rd_s r)) \<le> maxInt"

lemma ahead_Nil_iff: "reader_ok r \<Longrightarrow> ahead r = [] \<longleftrightarrow> rd_i r \<ge> int (length (rd_s r))"
  by (auto simp: ahead_def reader_ok_def)

lemma length_ahead: "reader_ok r \<Longrightarrow> int (length (ahead r)) = Reader_Len r"
  by (auto simp: ahead_def reader_ok_def Reader_Len_def)

lemma slice_ahead:
  "reader_ok r \<Longrightarrow> rd_i r < int (length (rd_s r)) \<Longrightarrow>
    go_slice (rd_s r) (rd_i r) (int (length (rd_s r))) = Inr (ahead r)"
  by (simp add: reader_ok_def ahead_def go_simps sub_to_end)

lemma reader_ok_New: "int (length b) \<le> maxInt \<Longrightarrow> reader_ok (NewReader b)" "ahead (NewReader b) = b"
  by (simp_all add: reader_ok_def NewReader_def ahead_def maxInt_def)

lemma reader_ok_advance:
  "reader_ok r \<Longrightarrow> n \<le> length (ahead r) \<Longrightarrow> 0 < n \<Longrightarrow> reader_ok (r\<lparr>prevRune := k, rd_i := rd_i r + int n\<rparr>)"
  by (auto simp: reader_ok_def ahead_def)

lemma ahead_advance:
  "reader_ok r \<Longrightarrow> ahead (r\<lparr>prevRune := k, rd_i := rd_i r + int n\<rparr>) = drop n (ahead r)"
  by (simp add: reader_ok_def ahead_def nat_add_distrib add.commute)

lemma Reader_Read_end: "reader_ok r \<Longrightarrow> ahead r = [] \<Longrightarrow> Reader_Read r b = Inr ((0, Some EOF, b), r)"
  using ahead_Nil_iff [of r] by (simp add: Reader_Read_def)

lemma Reader_Read_items:
  fixes b :: "'a list"
  assumes "reader_ok r" "ahead r \<noteq> []"
  defines "n \<equiv> min (length b) (length (ahead r))"
  shows "Reader_Read r b = Inr ((int n, None, overlay b 0 (take (length b) (ahead r))),
    r\<lparr>prevRune := -1, rd_i := rd_i r + int n\<rparr>)"
  using assms ahead_Nil_iff [OF assms(1)] slice_ahead [OF assms(1)]
  by (simp add: Reader_Read_def Let_def go_simps)

lemma Reader_Read_outcome:
  assumes r: "reader_ok r" and p: "p \<noteq> []"
  shows "\<exists>res r'. Reader_Read r p = Inr (res, r') \<and> reader_ok r'
    \<and> read_outcome p (ahead r) res (ahead r')"
proof (cases "ahead r = []")
  case True
  with r show ?thesis by (simp add: Reader_Read_end read_outcome_def)
next
  case False
  define n where "n = min (length p) (length (ahead r))"
  have n: "0 < n" "n \<le> length (ahead r)" "n \<le> length p" using p False by (simp_all add: n_def)
  have "take n (overlay p 0 (take (length p) (ahead r))) = take n (ahead r)"
    by (simp add: overlay_def n_def)
  with n have "read_outcome p (ahead r) (int n, None, overlay p 0 (take (length p) (ahead r)))
      (drop n (ahead r))"
    unfolding read_outcome_def by simp
  then show ?thesis
    using Reader_Read_items [OF r False, of p, folded n_def] reader_ok_advance [OF r n(2,1)]
      ahead_advance [OF r, where n = n and k = "-1"] by auto
qed

interpretation slice_reader: gio_clean_reader Reader_Read ahead reader_ok
proof
  show "\<exists>res r'. Reader_Read r p = Inr (res, r') \<and> reader_ok r' \<and> read_outcome p (ahead r) res (ahead r')"
    if "reader_ok r" "p \<noteq> []" for r :: "'a Reader" and p
    using Reader_Read_outcome that by blast
  show "n = 0" if "reader_ok r" "p \<noteq> []" "Reader_Read r p = Inr ((n, Some EOF, q), r')"
    for r r' :: "'a Reader" and n p q
    using that by (cases "ahead r = []") (simp_all add: Reader_Read_end Reader_Read_items)
qed

context gio_writer
begin

text \<open>\<open>Reader.WriteTo\<close> hands over everything ahead.\<close>

lemma Reader_WriteTo_correct:
  assumes r: "reader_ok r" and w: "writer_inv w"
  shows "case Reader_WriteTo write_call r w of
      Inl f \<Rightarrow> f \<in> faults
    | Inr ((n, err), w', r') \<Rightarrow>
        n = int (length (ahead r)) \<and> err = None \<and> writer_inv w' \<and> got w' = got w @ ahead r
        \<and> ahead r' = [] \<and> rd_s r' = rd_s r \<and> reader_ok r'"
proof (cases "ahead r = []")
  case True
  with r w show ?thesis
    using ahead_Nil_iff [OF r] by (simp add: Reader_WriteTo_def) (simp add: ahead_def reader_ok_def)
next
  case False
  then have lt: "rd_i r < int (length (rd_s r))" using ahead_Nil_iff [OF r] by simp
  show ?thesis
  proof (cases "write_call w (ahead r)")
    case (Inl f)
    then show ?thesis
      using write_panic [OF w Inl] lt slice_ahead [OF r lt] by (simp add: Reader_WriteTo_def)
  next
    case (Inr x)
    then obtain res w' where wr: "write_call w (ahead r) = Inr (res, w')" by (cases x) auto
    have "ahead (r\<lparr>prevRune := -1, rd_i := rd_i r + int (length (ahead r))\<rparr>) = []"
      using ahead_advance [OF r, where n = "length (ahead r)" and k = "-1"] by simp
    moreover have "reader_ok (r\<lparr>prevRune := -1, rd_i := rd_i r + int (length (ahead r))\<rparr>)"
      by (rule reader_ok_advance [OF r]) (use False in simp_all)
    ultimately show ?thesis
      using write_ok [OF w wr] wr lt slice_ahead [OF r lt] by (simp add: Reader_WriteTo_def)
  qed
qed

end

text \<open>The methods of the library that move the data of a whole reader.\<close>

lemma Reader_writer_to:
  fixes wr :: "('w, 'a) writer_fn"
  assumes "gio_writer wr got wi faults"
  shows "gio_writer_to (\<lambda>r w. Some (Reader_WriteTo wr r w)) ahead reader_ok at_eof got wi faults"
proof
  fix r :: "'a Reader" and w :: 'w
  assume "reader_ok r" "wi w"
  from gio_writer.Reader_WriteTo_correct [OF assms this]
  show "(\<exists>f. Some (Reader_WriteTo wr r w) = Some (Inl f) \<and> f \<in> faults)
    \<or> (\<exists>n e w' r'. Some (Reader_WriteTo wr r w) = Some (Inr ((n, e), w', r'))
        \<and> transfers ahead reader_ok got wi r w n r' w' \<and> ended at_eof e (ahead r'))"
    by (auto simp: transfers_def split: sum.splits prod.splits intro!: exI [of _ "length (ahead r)"])
qed

lemma Buffer_reader_from:
  assumes "gio_reader rc rest ri"
  shows "gio_full_reader_from (\<lambda>b r. Buffer_ReadFrom (Suc (length (rest r))) rt rc b r) rest ri at_eof
    unread (\<lambda>b. runtime_ok rt \<and> buf_inv b) {PanicErr ErrBufferTooLarge}"
proof
  note ok = gio_reader.Buffer_ReadFrom_correct [OF assms, of rt _ _ "Suc (length (rest _))", OF _ _ _ lessI]
  fix r and b :: "'b Buffer"
  assume "ri r" "runtime_ok rt \<and> buf_inv b"
  then obtain res where res: "Buffer_ReadFrom (Suc (length (rest r))) rt rc b r = Some res"
    "or_too_large res (\<lambda>((k, err), r', b'). k = int (length (rest r)) \<and> err = None \<and> wrote b (rest r) b'
       \<and> ri r' \<and> rest r' = [])" and rt: "runtime_ok rt"
    using ok [of b r] by blast
  show "(\<exists>f. Buffer_ReadFrom (Suc (length (rest r))) rt rc b r = Some (Inl f) \<and> f \<in> {PanicErr ErrBufferTooLarge})
    \<or> (\<exists>n e r' b'. Buffer_ReadFrom (Suc (length (rest r))) rt rc b r = Some (Inr ((n, e), r', b'))
        \<and> transfers rest ri unread (\<lambda>b. runtime_ok rt \<and> buf_inv b) r b n r' b' \<and> (e = None \<longrightarrow> at_eof EOF (rest r')))"
    using res rt by (cases res) (auto simp: or_too_large_def transfers_def wrote_def at_eof_def
        intro!: exI [of _ "length (rest r)"])
  show "x \<noteq> EOF \<and> at_eof x (rest r')"
    if "Buffer_ReadFrom (Suc (length (rest r))) rt rc b r = Some (Inr ((n, Some x), r', b'))" for n x r' b'
    using res that by (auto simp: or_too_large_def)
qed

interpretation slice_to_buffer:
  gio_writer_to "\<lambda>r w. Some (Reader_WriteTo (Buffer_Write rt) r w)" ahead reader_ok at_eof
    unread "\<lambda>b. runtime_ok rt \<and> buf_inv b" "{PanicErr ErrBufferTooLarge}"
  for rt :: "'a runtime"
  by (rule Reader_writer_to [OF buffer_writer.gio_writer_axioms])

interpretation buffer_from_slice:
  gio_full_reader_from "\<lambda>b r. Buffer_ReadFrom (Suc (length (ahead r))) rt Reader_Read b r" ahead reader_ok at_eof
    unread "\<lambda>b. runtime_ok rt \<and> buf_inv b" "{PanicErr ErrBufferTooLarge}"
  for rt :: "'a runtime"
  by (rule Buffer_reader_from [OF slice_reader.gio_reader_axioms])

section \<open>Correctness of the reader\<close>

text \<open>The position \<open>Seek\<close> is asked for, as an unbounded integer.\<close>

definition seek_target :: "seek_consts \<Rightarrow> 'a Reader \<Rightarrow> int \<Rightarrow> int \<Rightarrow> int" where
  "seek_target g r offset whence =
     offset + (if whence = SeekStart g then 0
               else if whence = SeekCurrent g then rd_i r else int (length (rd_s r)))"

text \<open>The sum that \<open>Seek\<close> computes wraps around to a negative number when the target is too large.\<close>

lemma seek_sum:
  assumes "in64 offset" "0 \<le> k" "k \<le> maxInt"
  shows "wrap64 (k + offset) = (if offset + k \<le> maxInt then offset + k else offset + k - 2 ^ 64)"
    "maxInt < offset + k \<Longrightarrow> wrap64 (k + offset) < 0"
proof -
  have "offset + k < 2 ^ 64" "- (2 ^ 63) \<le> offset + k" using assms by (auto simp: in64_def maxInt_def)
  then show "wrap64 (k + offset) = (if offset + k \<le> maxInt then offset + k else offset + k - 2 ^ 64)"
    "maxInt < offset + k \<Longrightarrow> wrap64 (k + offset) < 0"
    using wrap64_id [of "k + offset"] wrap64_above [of "k + offset"]
    by (auto simp: in64_def add.commute)
qed

lemma seek_target_sum:
  assumes "reader_ok r" "in64 offset" "whence \<in> {SeekStart g, SeekCurrent g, SeekEnd g}"
  shows "\<exists>sum. Reader_Seek g r offset whence =
      (if sum < 0 then ((0, Some ErrReaderNegativePosition), r\<lparr>prevRune := -1\<rparr>)
       else ((sum, None), r\<lparr>prevRune := -1, rd_i := sum\<rparr>))
    \<and> (seek_target g r offset whence \<le> maxInt \<longrightarrow> sum = seek_target g r offset whence)
    \<and> (maxInt < seek_target g r offset whence \<longrightarrow> sum < 0)"
proof (intro exI conjI)
  let ?sum = "if whence = SeekStart g then offset
      else wrap64 ((if whence = SeekCurrent g then rd_i r else int (length (rd_s r))) + offset)"
  have pos: "0 \<le> rd_i r" "rd_i r \<le> maxInt" "int (length (rd_s r)) \<le> maxInt"
    using assms(1) by (auto simp: reader_ok_def)
  show "Reader_Seek g r offset whence =
      (if ?sum < 0 then ((0, Some ErrReaderNegativePosition), r\<lparr>prevRune := -1\<rparr>)
       else ((?sum, None), r\<lparr>prevRune := -1, rd_i := ?sum\<rparr>))"
    using assms(3) by (auto simp: Reader_Seek_def Let_def)
  show "seek_target g r offset whence \<le> maxInt \<longrightarrow> ?sum = seek_target g r offset whence"
    "maxInt < seek_target g r offset whence \<longrightarrow> ?sum < 0"
    using seek_sum [OF assms(2) pos(1,2)] seek_sum [OF assms(2) _ pos(3)] assms(2)
    by (auto simp: seek_target_def in64_def)
qed

text \<open>
  \<open>Seek\<close> goes to the mathematically exact target (the offset relative to the start, the
  position or the end) when that target is a valid position, and fails with
  \<open>ErrReaderNegativePosition\<close>, leaving the position alone, when it is negative and also when the
  \<open>int64\<close> sum overflows; an unknown whence fails with \<open>ErrReaderInvalidWhence\<close>.
\<close>

theorem Reader_Seek_correct:
  assumes "reader_ok r" and "in64 offset" and "distinct [SeekStart g, SeekCurrent g, SeekEnd g]"
  shows "\<exists>r'. rd_s r' = rd_s r \<and> reader_ok r' \<and>
    (if whence \<notin> {SeekStart g, SeekCurrent g, SeekEnd g}
     then Reader_Seek g r offset whence = ((0, Some ErrReaderInvalidWhence), r') \<and> rd_i r' = rd_i r
     else if 0 \<le> seek_target g r offset whence \<and> seek_target g r offset whence \<le> maxInt
     then Reader_Seek g r offset whence = ((seek_target g r offset whence, None), r') \<and> rd_i r' = seek_target g r offset whence
     else Reader_Seek g r offset whence = ((0, Some ErrReaderNegativePosition), r') \<and> rd_i r' = rd_i r)"
proof -
  have ok: "reader_ok (r\<lparr>prevRune := -1\<rparr>)"
    "0 \<le> k \<Longrightarrow> k \<le> maxInt \<Longrightarrow> reader_ok (r\<lparr>prevRune := -1, rd_i := k\<rparr>)" for k
    using assms(1) by (auto simp: reader_ok_def)
  show ?thesis
  proof (cases "whence \<in> {SeekStart g, SeekCurrent g, SeekEnd g}")
    case False
    then show ?thesis
      by (intro exI [of _ "r\<lparr>prevRune := -1\<rparr>"]) (use ok in \<open>simp add: Reader_Seek_def Let_def\<close>)
  next
    case True
    from seek_target_sum [OF assms(1,2) this] obtain sum where
      seek: "Reader_Seek g r offset whence =
        (if sum < 0 then ((0, Some ErrReaderNegativePosition), r\<lparr>prevRune := -1\<rparr>)
         else ((sum, None), r\<lparr>prevRune := -1, rd_i := sum\<rparr>))"
      and sum: "seek_target g r offset whence \<le> maxInt \<Longrightarrow> sum = seek_target g r offset whence"
        "maxInt < seek_target g r offset whence \<Longrightarrow> sum < 0" by blast
    show ?thesis
    proof (cases "0 \<le> seek_target g r offset whence \<and> seek_target g r offset whence \<le> maxInt")
      case valid: True
      with True ok seek sum show ?thesis
        by (intro exI [of _ "r\<lparr>prevRune := -1, rd_i := sum\<rparr>"]) simp
    next
      case invalid: False
      then have "sum < 0" using sum by fastforce
      with True invalid ok(1) seek show ?thesis
        by (intro exI [of _ "r\<lparr>prevRune := -1\<rparr>"]) simp
    qed
  qed
qed

theorem Reader_Seek_correct_witness:
  "\<exists>r'. Reader_Seek \<lparr>SeekStart = 0, SeekCurrent = 1, SeekEnd = 2\<rparr>
      \<lparr>rd_s = [7 :: int, 8], rd_i = 1, prevRune = -1\<rparr> maxInt 1 = ((0, Some ErrReaderNegativePosition), r')
    \<and> rd_i r' = 1"
  using Reader_Seek_correct [of "\<lparr>rd_s = [7 :: int, 8], rd_i = 1, prevRune = -1\<rparr>" maxInt
      "\<lparr>SeekStart = 0, SeekCurrent = 1, SeekEnd = 2\<rparr>" 1]
  by (auto simp: reader_ok_def in64_def maxInt_def seek_target_def)

text \<open>
  C15: Seeking and reading agree with \<open>ReadAt\<close>: after seeking to a valid offset \<open>k\<close>, \<open>Read\<close> delivers
  the items and the count that \<open>ReadAt(p, k)\<close> delivers on the unchanged reader, namely those of
  \<open>s[k:]\<close>; \<open>ReadAt\<close> reports \<open>io.EOF\<close> exactly when it could not fill \<open>p\<close>, or when \<open>k\<close> is at the end
  or beyond.
\<close>

theorem Reader_ReadAt_agrees:
  assumes "reader_ok r" and "0 \<le> k" and "k \<le> maxInt"
  shows "\<exists>r1 n q err e r2. Reader_Seek g r k (SeekStart g) = ((k, None), r1)
    \<and> Reader_ReadAt r p k = Inr (n, err, q) \<and> Reader_Read r1 p = Inr ((n, e, q), r2)
    \<and> q = overlay p 0 (take (length p) (drop (nat k) (rd_s r)))
    \<and> n = int (min (length p) (length (drop (nat k) (rd_s r))))
    \<and> (err = Some EOF \<longleftrightarrow> n < int (length p) \<or> k \<ge> int (length (rd_s r)))
    \<and> (err = None \<or> err = Some EOF)"
proof -
  let ?r1 = "r\<lparr>prevRune := -1, rd_i := k\<rparr>"
  have r1: "reader_ok ?r1" "ahead ?r1 = drop (nat k) (rd_s r)"
    using assms by (auto simp: reader_ok_def ahead_def)
  have seek: "Reader_Seek g r k (SeekStart g) = ((k, None), ?r1)"
    using assms(2) by (simp add: Reader_Seek_def)
  show ?thesis
  proof (cases "k \<ge> int (length (rd_s r))")
    case True
    then have "ahead ?r1 = []" using r1(2) assms(2) by simp
    with True r1 assms(2) seek Reader_Read_end [OF r1(1)] show ?thesis
      by (auto simp: Reader_ReadAt_def)
  next
    case False
    then have ne: "ahead ?r1 \<noteq> []" using r1(2) assms(2) by simp
    have "go_slice (rd_s r) k (int (length (rd_s r))) = Inr (drop (nat k) (rd_s r))"
      using False assms(2) by (simp add: go_simps sub_to_end)
    with False ne assms(2) seek Reader_Read_items [OF r1(1) ne, of p] r1(2) show ?thesis
      by (auto simp: Reader_ReadAt_def go_simps)
  qed
qed

theorem Reader_ReadAt_agrees_witness:
  "\<exists>r1 err e r2. Reader_ReadAt (NewReader [5, 6, 7 :: int]) [0] 1 = Inr (1, err, [6])
    \<and> Reader_Read r1 [0 :: int] = Inr ((1, e, [6]), r2)"
proof -
  have "reader_ok (NewReader [5, 6, 7 :: int])" by (rule reader_ok_New) (simp add: maxInt_def)
  moreover have "0 \<le> (1 :: int)" "1 \<le> maxInt" by (simp_all add: maxInt_def)
  ultimately obtain r1 n q err e r2 where
    "Reader_ReadAt (NewReader [5, 6, 7 :: int]) [0] 1 = Inr (n, err, q)"
    "Reader_Read r1 [0] = Inr ((n, e, q), r2)"
    "q = overlay [0] 0 (take (length [0 :: int]) (drop (nat 1) (rd_s (NewReader [5, 6, 7]))))"
    "n = int (min (length [0 :: int]) (length (drop (nat 1) (rd_s (NewReader [5, 6, 7 :: int])))))"
    using Reader_ReadAt_agrees [of "NewReader [5, 6, 7]" 1
        "\<lparr>SeekStart = 0, SeekCurrent = 1, SeekEnd = 2\<rparr>" "[0]"] by blast
  then show ?thesis by (auto simp: NewReader_def overlay_def)
qed

text \<open>
  C14: \<open>Buffer.ReadFrom\<close> reads a slice \<open>Reader\<close> to its end: with fuel above the number of items
  ahead the loop ends, and unless the buffer gets too large it returns that number and no error
  (\<open>io.EOF\<close> is swallowed), the buffer holds its old items followed by all those of the reader, and
  the reader is at its end.
\<close>

theorem Buffer_ReadFrom_Reader:
  assumes "runtime_ok rt" and "buf_inv b" and "reader_ok r" and "length (ahead r) < fuel"
  shows "\<exists>res. Buffer_ReadFrom fuel rt Reader_Read b r = Some res
    \<and> (case res of
         Inl f \<Rightarrow> f = PanicErr ErrBufferTooLarge
       | Inr ((n, err), r', b') \<Rightarrow>
           n = int (length (ahead r)) \<and> err = None \<and> ahead r' = []
           \<and> unread b' = unread b @ ahead r \<and> buf_inv b')"
  using slice_reader.Buffer_ReadFrom_correct [OF assms]
  by (auto simp: or_too_large_def wrote_def split: sum.splits prod.splits)

theorem Buffer_ReadFrom_Reader_witness:
  "\<exists>b' r'. Buffer_ReadFrom 2 int_runtime Reader_Read zero_Buffer (NewReader [5]) =
     Some (Inr ((1, None), r', b')) \<and> unread b' = [5]"
proof -
  have r: "reader_ok (NewReader [5 :: int])" by (rule reader_ok_New) (simp add: maxInt_def)
  let ?res = "Buffer_ReadFrom 2 int_runtime Reader_Read zero_Buffer (NewReader [5])"
  have "\<not> isl (the ?res)"
    by (simp add: Buffer_ReadFrom_def eval_nat_numeral(2,3) Buffer_grow_def Buffer_Len_def
        Buffer_tryGrowByReslice_def Buffer_makeRoom_def growSlice_def int_runtime_def
        zero_Buffer_def nil_slice_def MinRead_def smallBufferSize_def s_cap_def sdiv_nonneg
        maxInt_def slice_from_def s_items_def go_simps slice_of_def slice_window_def
        Reader_Read_def NewReader_def sub_def)
  moreover from Buffer_ReadFrom_Reader [OF int_runtime_ok(1) buf_inv_zero(1) r, of 2]
  obtain res where "?res = Some res" "case res of
         Inl f \<Rightarrow> f = PanicErr ErrBufferTooLarge
       | Inr ((n, err), r', b') \<Rightarrow> n = int (length (ahead (NewReader [5 :: int]))) \<and> err = None
           \<and> ahead r' = [] \<and> unread b' = unread zero_Buffer @ ahead (NewReader [5]) \<and> buf_inv b'"
    by (auto simp: reader_ok_New(2))
  ultimately show ?thesis by (cases res) (auto simp: reader_ok_New(2) buf_inv_zero(2))
qed

text \<open>
  Draining into a buffer.  \<open>WriteTo\<close> of a slice \<open>Reader\<close> and of a \<open>Buffer\<close> into another
  \<open>Buffer\<close> either panics with \<open>ErrBufferTooLarge\<close> or moves everything: the count is the number
  of items, the error nil, the target holds its old items followed by the moved ones, and the
  source has nothing left.
\<close>

theorem WriteTo_Buffer_drains:
  assumes "runtime_ok rt" and "buf_inv w" and "reader_ok r" and "buf_inv b"
  shows "(case Reader_WriteTo (Buffer_Write rt) r w of
        Inl f \<Rightarrow> f = PanicErr ErrBufferTooLarge
      | Inr ((n, err), w', r') \<Rightarrow> n = int (length (ahead r)) \<and> err = None
          \<and> unread w' = unread w @ ahead r \<and> ahead r' = [])
    \<and> (case Buffer_WriteTo (Buffer_Write rt) b w of
        Inl f \<Rightarrow> f = PanicErr ErrBufferTooLarge
      | Inr ((n, err), w', b') \<Rightarrow> n = int (length (unread b)) \<and> err = None
          \<and> unread w' = unread w @ unread b \<and> unread b' = [])"
  using buffer_writer.Reader_WriteTo_correct [OF assms(3), of rt w]
    buffer_writer.Buffer_WriteTo_correct [OF assms(4), of rt w] assms(1,2)
  by (auto split: sum.splits prod.splits)

theorem WriteTo_Buffer_drains_witness:
  "\<exists>w' r'. Reader_WriteTo (Buffer_Write int_runtime) (NewReader [1, 2]) zero_Buffer =
     Inr ((2, None), w', r') \<and> unread w' = [1, 2]"
proof -
  have r: "reader_ok (NewReader [1, 2 :: int])" by (rule reader_ok_New) (simp add: maxInt_def)
  have "\<not> isl (Reader_WriteTo (Buffer_Write int_runtime) (NewReader [1, 2]) zero_Buffer)"
    by code_simp
  with WriteTo_Buffer_drains [OF int_runtime_ok(1) buf_inv_zero(1) r buf_inv_zero(1)] show ?thesis
    by (auto simp: reader_ok_New buf_inv_zero split: sum.splits prod.splits)
qed

end
