(* ===== verification/RingBuffer.thy ===== *)
theory RingBuffer
  imports SliceReader
begin

text \<open>
  \<open>ringbuffer.go\<close>: the fixed-size circular \<open>RingBuffer[T]\<close>.  The state is the Go struct: the cells
  \<open>items\<close>, the indexes \<open>write\<close> and \<open>read\<close> of the next cell to fill and to read, and \<open>full\<close>, which
  tells a full ring from an empty one when the two meet.  Indexes are Go integers; every slice
  expression, index and \<open>%\<close> of the source keeps its run-time check.  The contract is a queue of
  bounded length: a write appends and drops from the front what does not fit.
\<close>

section \<open>State\<close>

definition defaultBufferSize :: int where
  "defaultBufferSize = 256"

record 'a RingBuffer =
  rb_full :: bool
  rb_write :: int
  rb_read :: int
  rb_items :: "'a list"

definition NewRingBuffer :: "'a runtime \<Rightarrow> int \<Rightarrow> 'a RingBuffer" where
  "NewRingBuffer rt sz =
     (let sz = (if sz \<le> 0 then defaultBufferSize else sz)
      in \<lparr>rb_full = False, rb_write = 0, rb_read = 0,
          rb_items = replicate (nat sz) (zero_val rt)\<rparr>)"

abbreviation rb_cap :: "'a RingBuffer \<Rightarrow> int" where
  "rb_cap r \<equiv> int (length (rb_items r))"

section \<open>Writing\<close>

definition RingBuffer_writeWithinBounds ::
  "'a RingBuffer \<Rightarrow> 'a list \<Rightarrow> int \<Rightarrow> go_panic + ((int \<times> go_error option) \<times> 'a RingBuffer)" where
  "RingBuffer_writeWithinBounds r p end =
     andThen (go_copy (rb_items r) (rb_write r) end p) (\<lambda>(n, items).
       let r1 = r\<lparr>rb_items := items\<rparr>;
           r2 = (if rb_write r1 < rb_read r1 \<and> end \<ge> rb_read r1 then r1\<lparr>rb_full := True\<rparr> else r1);
           r3 = r2\<lparr>rb_write := end\<rparr>;
           r4 = (if rb_full r3 then r3\<lparr>rb_read := end\<rparr> else r3)
       in Inr ((n, None), r4))"

definition RingBuffer_writeWrapped ::
  "'a RingBuffer \<Rightarrow> 'a list \<Rightarrow> int \<Rightarrow> go_panic + ((int \<times> go_error option) \<times> 'a RingBuffer)" where
  "RingBuffer_writeWrapped r p end =
     andThen (go_rem end (rb_cap r)) (\<lambda>endWrapped.
     andThen (go_copy (rb_items r) (rb_write r) (rb_cap r) p) (\<lambda>(n1, items1).
     andThen (go_slice p n1 (int (length p))) (\<lambda>p2.
     andThen (go_copy items1 0 endWrapped p2) (\<lambda>(n2, items2).
       let r1 = r\<lparr>rb_items := items2\<rparr>;
           r2 = (if rb_write r1 < rb_read r1 \<and> end \<ge> rb_read r1 then r1\<lparr>rb_full := True\<rparr> else r1);
           r3 = r2\<lparr>rb_write := endWrapped\<rparr>;
           r4 = (if rb_full r3 \<or> endWrapped \<ge> rb_read r3
                 then r3\<lparr>rb_read := rb_write r3, rb_full := True\<rparr> else r3)
       in Inr ((n1 + n2, None), r4)))))"

definition RingBuffer_writeWithinCapacity ::
  "'a RingBuffer \<Rightarrow> 'a list \<Rightarrow> go_panic + ((int \<times> go_error option) \<times> 'a RingBuffer)" where
  "RingBuffer_writeWithinCapacity r p =
     (let end = rb_write r + int (length p)
      in if end < rb_cap r then RingBuffer_writeWithinBounds r p end
         else RingBuffer_writeWrapped r p end)"

definition RingBuffer_Write ::
  "'a RingBuffer \<Rightarrow> 'a list \<Rightarrow> go_panic + ((int \<times> go_error option) \<times> 'a RingBuffer)" where
  "RingBuffer_Write r p =
     (let ln = int (length p); ringLn = rb_cap r
      in if ln < ringLn then RingBuffer_writeWithinCapacity r p
         else
           andThen (go_slice p (ln - ringLn) ln) (\<lambda>src.
           andThen (go_copy (rb_items r) 0 ringLn src) (\<lambda>(_, items).
             Inr ((ringLn, None), r\<lparr>rb_items := items, rb_read := rb_write r, rb_full := True\<rparr>))))"

definition RingBuffer_WriteItem ::
  "'a RingBuffer \<Rightarrow> 'a \<Rightarrow> go_panic + (go_error option \<times> 'a RingBuffer)" where
  "RingBuffer_WriteItem r item =
     andThen (go_rem (rb_write r + 1) (rb_cap r)) (\<lambda>pos.
       let r1 = (if rb_full r then r\<lparr>rb_read := pos\<rparr>
                 else if pos = rb_read r then r\<lparr>rb_full := True\<rparr> else r)
       in andThen (go_update (rb_items r1) (rb_write r1) item) (\<lambda>items.
            Inr (None, r1\<lparr>rb_items := items, rb_write := pos\<rparr>)))"

section \<open>Reading\<close>

definition RingBuffer_Len :: "'a RingBuffer \<Rightarrow> go_panic + int" where
  "RingBuffer_Len r =
     (if rb_full r then Inr (rb_cap r)
      else go_rem (rb_cap r + (rb_write r - rb_read r)) (rb_cap r))"

definition RingBuffer_Cap :: "'a RingBuffer \<Rightarrow> int" where
  "RingBuffer_Cap r = rb_cap r"

definition RingBuffer_Read ::
  "'a RingBuffer \<Rightarrow> 'a list
   \<Rightarrow> go_panic + ((int \<times> go_error option \<times> 'a list) \<times> 'a RingBuffer)" where
  "RingBuffer_Read r p =
     (let itemLen = int (length p)
      in andThen (if itemLen = 0 then Inr True else andThen (RingBuffer_Len r) (\<lambda>l. Inr (l = 0)))
         (\<lambda>nothing.
           if nothing then Inr ((0, None, p), r)
           else if rb_read r \<ge> rb_write r then
             andThen (go_slice (rb_items r) (rb_read r) (rb_cap r)) (\<lambda>src.
             andThen (go_copy p 0 itemLen src) (\<lambda>(n, p1).
               let r1 = r\<lparr>rb_full := False\<rparr>
               in if n \<ge> itemLen then
                    andThen (go_rem (rb_read r1 + n) (rb_cap r1)) (\<lambda>pos.
                      Inr ((n, None, p1), r1\<lparr>rb_read := pos\<rparr>))
                  else
                    andThen (go_slice (rb_items r1) 0 (rb_write r1)) (\<lambda>src2.
                    andThen (go_copy p1 n itemLen src2) (\<lambda>(n2, p2).
                    andThen (go_rem (rb_read r1 + (n + n2)) (rb_cap r1)) (\<lambda>pos.
                      Inr ((n + n2, None, p2), r1\<lparr>rb_read := pos\<rparr>))))))
           else
             andThen (go_slice (rb_items r) (rb_read r) (rb_write r)) (\<lambda>src.
             andThen (go_copy p 0 itemLen src) (\<lambda>(n, p1).
               Inr ((n, None, p1), r\<lparr>rb_read := rb_read r + n\<rparr>)))))"

definition RingBuffer_Value ::
  "'a runtime \<Rightarrow> 'a RingBuffer \<Rightarrow> go_panic + ('a list \<times> 'a RingBuffer)" where
  "RingBuffer_Value rt r =
     (if rb_read r < rb_write r then
        (let fresh = replicate (nat (rb_write r - rb_read r)) (zero_val rt)
         in andThen (go_slice (rb_items r) (rb_read r) (rb_write r)) (\<lambda>src.
            andThen (go_copy fresh 0 (int (length fresh)) src) (\<lambda>(_, items).
              Inr (items, r\<lparr>rb_read := rb_write r\<rparr>))))
      else
        (let fresh = replicate (nat (rb_cap r)) (zero_val rt)
         in if rb_read r = 0 then
              andThen (go_copy fresh 0 (int (length fresh)) (rb_items r)) (\<lambda>(_, items).
                Inr (items, r))
            else
              andThen (go_slice (rb_items r) (rb_read r) (rb_cap r)) (\<lambda>src1.
              andThen (go_copy fresh 0 (rb_cap r - rb_read r) src1) (\<lambda>(_, items1).
              andThen (go_slice (rb_items r) 0 (rb_read r)) (\<lambda>src2.
              andThen (go_copy items1 (rb_cap r - rb_read r) (rb_cap r) src2) (\<lambda>(_, items2).
                Inr (items2, r)))))))"

definition RingBuffer_Reset :: "'a runtime \<Rightarrow> 'a RingBuffer \<Rightarrow> 'a RingBuffer" where
  "RingBuffer_Reset rt r =
     r\<lparr>rb_read := 0, rb_write := 0, rb_full := False,
       rb_items := map (\<lambda>_. zero_val rt) (rb_items r)\<rparr>"

definition RingBuffer_Truncate ::
  "'a runtime \<Rightarrow> 'a RingBuffer \<Rightarrow> int \<Rightarrow> go_panic + 'a RingBuffer" where
  "RingBuffer_Truncate rt r n =
     andThen (if n \<le> 0 then Inr True else andThen (RingBuffer_Len r) (\<lambda>l. Inr (n > l))) (\<lambda>reset.
       if reset then Inr (RingBuffer_Reset rt r)
       else
         andThen (go_copy (rb_items r) (rb_read r) (rb_read r + n)
                    (replicate (nat n) (zero_val rt))) (\<lambda>(_, items).
           Inr (r\<lparr>rb_items := items\<rparr>)))"

definition RingBuffer_Next ::
  "'a runtime \<Rightarrow> 'a RingBuffer \<Rightarrow> int \<Rightarrow> go_panic + ('a list \<times> 'a RingBuffer)" where
  "RingBuffer_Next rt r n =
     (if n \<le> 0 then Inr ([], r)
      else andThen (RingBuffer_Len r) (\<lambda>l.
        if n > l then RingBuffer_Value rt r
        else andThen (RingBuffer_Read r (replicate (nat n) (zero_val rt))) (\<lambda>((_, err, items), r1).
               if err \<noteq> None then Inr ([], r1) else Inr (items, r1))))"

definition RingBuffer_UnreadItem ::
  "'a RingBuffer \<Rightarrow> go_panic + (go_error option \<times> 'a RingBuffer)" where
  "RingBuffer_UnreadItem r =
     (if rb_full r then Inr (Some ErrRingBufferUnreadItem, r)
      else andThen (go_rem (rb_read r - 1) (rb_cap r)) (\<lambda>pos. Inr (None, r\<lparr>rb_read := pos\<rparr>)))"

text \<open>
  The scanning loops of \<open>ReadItems\<close>: append \<open>items[i], items[i+1], \<dots>\<close> to \<open>line\<close> up to index
  \<open>stop\<close>; the flag tells whether a delimiter broke the loop.
\<close>

function scan_items ::
  "('a \<Rightarrow> bool) \<Rightarrow> 'a list \<Rightarrow> int \<Rightarrow> int \<Rightarrow> 'a list \<Rightarrow> go_panic + (bool \<times> 'a list)" where
  "scan_items delim items i stop line =
     (if i < stop then
        andThen (go_index items i) (\<lambda>x.
          if delim x then Inr (True, line) else scan_items delim items (i + 1) stop (line @ [x]))
      else Inr (False, line))"
  by pat_completeness auto
termination
  by (relation "measure (\<lambda>(delim, items, i, stop, line). nat (stop - i))") auto

declare scan_items.simps [simp del]

definition RingBuffer_ReadItems ::
  "('a \<Rightarrow> bool) \<Rightarrow> 'a RingBuffer \<Rightarrow> go_panic + (('a list \<times> go_error option) \<times> 'a RingBuffer)" where
  "RingBuffer_ReadItems delim r =
     andThen
       (if rb_read r \<ge> rb_write r then
          andThen (scan_items delim (rb_items r) (rb_read r) (rb_cap r) []) (\<lambda>(broke, line).
            if broke then Inr line
            else andThen (scan_items delim (rb_items r) 0 (rb_write r) line) (\<lambda>(_, line). Inr line))
        else andThen (scan_items delim (rb_items r) 0 (rb_write r) []) (\<lambda>(_, line). Inr line))
       (\<lambda>line.
         if line = [] then Inr (([], None), r)
         else andThen (go_rem (rb_read r + int (length line)) (rb_cap r)) (\<lambda>pos.
                Inr ((line, None), r\<lparr>rb_read := pos, rb_full := False\<rparr>)))"

definition RingBuffer_ReadItem ::
  "'a RingBuffer \<Rightarrow> go_panic + (('a \<times> go_error option) \<times> 'a RingBuffer)" where
  "RingBuffer_ReadItem r =
     andThen (go_index (rb_items r) (rb_read r)) (\<lambda>item.
     andThen (go_rem (rb_read r + 1) (rb_cap r)) (\<lambda>pos.
       Inr ((item, None), r\<lparr>rb_read := pos, rb_full := False\<rparr>)))"

text \<open>\<open>Seek\<close>, with the constants of the standard package \<open>io\<close>.\<close>

definition io_SeekStart :: int where "io_SeekStart = 0"
definition io_SeekCurrent :: int where "io_SeekCurrent = 1"
definition io_SeekEnd :: int where "io_SeekEnd = 2"

definition RingBuffer_Seek ::
  "'a RingBuffer \<Rightarrow> int \<Rightarrow> int \<Rightarrow> go_panic + ((int \<times> go_error option) \<times> 'a RingBuffer)" where
  "RingBuffer_Seek r offset whence =
     (if whence = io_SeekEnd then
        andThen (go_rem (wrap64 (rb_write r + offset)) (rb_cap r)) (\<lambda>pos.
          Inr ((pos, None), r\<lparr>rb_read := pos\<rparr>))
      else if whence = io_SeekCurrent \<or> whence = io_SeekStart then
        andThen (go_rem (wrap64 (rb_read r + offset)) (rb_cap r)) (\<lambda>pos.
          Inr ((pos, None), r\<lparr>rb_read := pos\<rparr>))
      else Inr ((0, Some ErrRingFilterInvalidWhence), r))"

section \<open>ReadFrom and WriteTo\<close>

text \<open>
  The loop of \<open>ReadFrom\<close> with fuel; the reader gets the cells from the write index to the end of
  the ring.
\<close>

fun RingBuffer_ReadFrom_loop ::
  "nat \<Rightarrow> ('r, 'a) reader_fn \<Rightarrow> 'a RingBuffer \<Rightarrow> 'r \<Rightarrow> int
   \<Rightarrow> (go_panic + ((int \<times> go_error option) \<times> 'r \<times> 'a RingBuffer)) option" where
  "RingBuffer_ReadFrom_loop 0 rd r b n = None"
| "RingBuffer_ReadFrom_loop (Suc fuel) rd r b n =
     stepThen (go_slice (rb_items r) (rb_write r) (rb_cap r)) (\<lambda>p.
     stepThen (rd b p) (\<lambda>((num, err, q), b').
       let r0 = r\<lparr>rb_items := overlay (rb_items r) (nat (rb_write r)) q\<rparr>
       in if num < 0 then Some (Inr ((n, Some ErrRingFilterNegativeRead), b', r0))
          else
            (let r1 = (if rb_write r0 < rb_read r0 \<and> rb_write r0 + num \<ge> rb_read r0
                       then r0\<lparr>rb_full := True\<rparr> else r0)
             in if is_err err EOF then Some (Inr ((n, None), b', r1))
                else if err \<noteq> None then Some (Inr ((n, err), b', r1))
                else
                  (let r2 = (if rb_cap r1 - (rb_write r1 - rb_read r1) = num
                             then r1\<lparr>rb_full := True, rb_read := rb_write r1\<rparr> else r1)
                   in stepThen (go_rem (rb_write r2 + num) (rb_cap r2)) (\<lambda>pos.
                        let r3 = r2\<lparr>rb_write := pos\<rparr>;
                            r4 = (if rb_full r3 then r3\<lparr>rb_read := rb_write r3\<rparr> else r3)
                        in RingBuffer_ReadFrom_loop fuel rd r4 b' (n + num))))))"

definition RingBuffer_ReadFrom ::
  "nat \<Rightarrow> ('r, 'a) reader_fn \<Rightarrow> 'a RingBuffer \<Rightarrow> 'r
   \<Rightarrow> (go_panic + ((int \<times> go_error option) \<times> 'r \<times> 'a RingBuffer)) option" where
  "RingBuffer_ReadFrom fuel rd r b = RingBuffer_ReadFrom_loop fuel rd r b 0"

text \<open>The second write of \<open>WriteTo\<close>, which the first falls through to.\<close>

definition RingBuffer_writeTail ::
  "('w, 'a) writer_fn \<Rightarrow> 'a RingBuffer \<Rightarrow> 'w \<Rightarrow> int
   \<Rightarrow> go_panic + ((int \<times> go_error option) \<times> 'w \<times> 'a RingBuffer)" where
  "RingBuffer_writeTail wr r w n =
     andThen (go_slice (rb_items r) (rb_read r) (rb_write r)) (\<lambda>p.
     andThen (wr w p) (\<lambda>((num, err), w').
       if num < 0 then Inr ((n, Some ErrRingBufferNegativeRead), w', r)
       else
         andThen (go_rem (rb_read r + num) (rb_cap r)) (\<lambda>pos.
           let r1 = r\<lparr>rb_full := False, rb_read := pos\<rparr>
           in if is_err err EOF then Inr ((n + num, None), w', r1)
              else if err \<noteq> None then Inr ((n + num, err), w', r1)
              else Inr ((n + num, None), w', r1))))"

definition RingBuffer_WriteTo ::
  "('w, 'a) writer_fn \<Rightarrow> 'a RingBuffer \<Rightarrow> 'w
   \<Rightarrow> go_panic + ((int \<times> go_error option) \<times> 'w \<times> 'a RingBuffer)" where
  "RingBuffer_WriteTo wr r w =
     (if rb_read r \<ge> rb_write r then
        andThen (go_slice (rb_items r) (rb_read r) (rb_cap r)) (\<lambda>p.
        andThen (wr w p) (\<lambda>((num, err), w').
          if num < 0 then Inr ((0, Some ErrRingBufferNegativeRead), w', r)
          else
            andThen (go_rem (rb_read r + num) (rb_cap r)) (\<lambda>pos.
              let r1 = r\<lparr>rb_full := False, rb_read := pos\<rparr>
              in if is_err err EOF then Inr ((num, None), w', r1)
                 else if err \<noteq> None then Inr ((num, err), w', r1)
                 else RingBuffer_writeTail wr r1 w' num)))
      else RingBuffer_writeTail wr r w 0)"

section \<open>The invariant and the unread items\<close>

text \<open>
  The invariant: the ring has a cell, both indexes point into it, and they meet when it is full.
  \<open>pending r\<close> are the unread items, oldest first.
\<close>

definition ring_inv :: "'a RingBuffer \<Rightarrow> bool" where
  "ring_inv r \<longleftrightarrow>
     0 \<le> rb_write r \<and> rb_write r < rb_cap r \<and> 0 \<le> rb_read r \<and> rb_read r < rb_cap r
     \<and> rb_cap r \<le> maxInt \<and> (rb_full r \<longrightarrow> rb_read r = rb_write r)"

definition pending :: "'a RingBuffer \<Rightarrow> 'a list" where
  "pending r =
     (if rb_full r \<or> rb_write r < rb_read r
      then drop (nat (rb_read r)) (rb_items r) @ take (nat (rb_write r)) (rb_items r)
      else sub (rb_items r) (nat (rb_read r)) (nat (rb_write r)))"

text \<open>The same state with its indexes as natural numbers.\<close>

abbreviation ring :: "bool \<Rightarrow> nat \<Rightarrow> nat \<Rightarrow> 'a list \<Rightarrow> 'a RingBuffer" where
  "ring f w i xs \<equiv> \<lparr>rb_full = f, rb_write = int w, rb_read = int i, rb_items = xs\<rparr>"

lemma ring_inv_ring:
  "ring_inv (ring f w i xs) \<longleftrightarrow>
     w < length xs \<and> i < length xs \<and> int (length xs) \<le> maxInt \<and> (f \<longrightarrow> i = w)"
  by (auto simp: ring_inv_def)

lemma ringE:
  assumes "ring_inv r"
  obtains f w i xs where "r = ring f w i xs" "w < length xs" "i < length xs"
    "int (length xs) \<le> maxInt" "f \<longrightarrow> i = w"
proof -
  obtain f w i xs where r: "r = \<lparr>rb_full = f, rb_write = w, rb_read = i, rb_items = xs\<rparr>"
    by (cases r)
  with assms have "0 \<le> w" "0 \<le> i" by (auto simp: ring_inv_def)
  with r have eq: "r = ring f (nat w) (nat i) xs" by simp
  from assms have "ring_inv (ring f (nat w) (nat i) xs)" unfolding eq .
  then show ?thesis unfolding ring_inv_ring using that [OF eq] by blast
qed

text \<open>How many items are unread, and where the \<open>j\<close>-th of them is.\<close>

definition held :: "bool \<Rightarrow> nat \<Rightarrow> nat \<Rightarrow> nat \<Rightarrow> nat" where
  "held f w i n = (if f then n else if w < i then n + w - i else w - i)"

definition cell :: "nat \<Rightarrow> nat \<Rightarrow> nat" where
  "cell n j = (if j < n then j else j - n)"

lemma cell_is_mod: "j < 2 * n \<Longrightarrow> cell n j = j mod n"
  by (auto simp: cell_def mod_if)

lemma pending_ring:
  "pending (ring f w i xs) = (if f \<or> w < i then drop i xs @ take w xs else sub xs i w)"
  by (simp add: pending_def)

lemma length_pending:
  "w < length xs \<Longrightarrow> i < length xs \<Longrightarrow> f \<longrightarrow> i = w \<Longrightarrow>
    length (pending (ring f w i xs)) = held f w i (length xs)"
  by (auto simp: pending_ring held_def)

lemma nth_pending:
  "w < length xs \<Longrightarrow> i < length xs \<Longrightarrow> f \<longrightarrow> i = w \<Longrightarrow> j < held f w i (length xs) \<Longrightarrow>
    pending (ring f w i xs) ! j = xs ! cell (length xs) (i + j)"
  by (auto simp: pending_ring held_def cell_def nth_append nth_sub add.commute split: if_splits)

lemma held_le: "w < n \<Longrightarrow> i < n \<Longrightarrow> held f w i n \<le> n"
  by (auto simp: held_def)

text \<open>
  The result of writing \<open>p\<close>, whichever operation does it: the cells from the write index on hold
  \<open>p\<close>, the write index has moved on, and the read index follows it when the ring filled up.
\<close>

definition written_cells :: "'a list \<Rightarrow> nat \<Rightarrow> 'a list \<Rightarrow> 'a list" where
  "written_cells xs w p =
     map (\<lambda>c. if w \<le> c \<and> c < w + length p then p ! (c - w)
              else if c + length xs < w + length p then p ! (c + length xs - w)
              else xs ! c) [0..<length xs]"

definition after_write :: "bool \<Rightarrow> nat \<Rightarrow> nat \<Rightarrow> 'a list \<Rightarrow> 'a list \<Rightarrow> 'a RingBuffer" where
  "after_write f w i xs p =
     (let full = (length xs \<le> held f w i (length xs) + length p);
          w' = cell (length xs) (w + length p)
      in ring full w' (if full then w' else i) (written_cells xs w p))"

lemma length_written_cells [simp]: "length (written_cells xs w p) = length xs"
  by (simp add: written_cells_def)

lemma nth_written_cells:
  "c < length xs \<Longrightarrow> written_cells xs w p ! c =
     (if w \<le> c \<and> c < w + length p then p ! (c - w)
      else if c + length xs < w + length p then p ! (c + length xs - w) else xs ! c)"
  by (simp add: written_cells_def)

lemma after_write_inv:
  "w < length xs \<Longrightarrow> i < length xs \<Longrightarrow> int (length xs) \<le> maxInt \<Longrightarrow> length p \<le> length xs \<Longrightarrow>
    ring_inv (after_write f w i xs p)"
  by (auto simp: after_write_def Let_def ring_inv_ring cell_def)

text \<open>The central fact: writing appends, and drops from the front what no longer fits.\<close>

text \<open>The read index after a write: it passes over the \<open>h + length p - n\<close> items that were overwritten.\<close>

lemma read_index_after:
  assumes "w < n" "i < n" "w = cell n (i + h)" "h \<le> n" "m \<le> n"
    and "i' = (if n \<le> h + m then cell n (w + m) else i)" "i' < n" "j < n"
  shows "cell n (i' + j) = (i + (h + m - n + j)) mod n"
proof -
  have "(i' + j) mod n = (i + (h + m - n + j)) mod n"
  proof (cases "n \<le> h + m")
    case True
    then have "i' = (w + m) mod n" using assms(1,5,6) by (simp add: cell_is_mod)
    also have "w = (i + h) mod n" using assms(2-4) by (simp add: cell_is_mod)
    finally have "(i' + j) mod n = (i + h + m + j) mod n" by (simp add: mod_add_left_eq)
    also have "i + h + m + j = (i + (h + m - n + j)) + n" using True by simp
    finally show ?thesis by simp
  qed (simp add: assms(6))
  with assms(7,8) show ?thesis by (simp add: cell_is_mod)
qed

text \<open>A write does not touch a cell whose item is kept; the others hold the new items.\<close>

lemma kept_cell:
  assumes "w = cell n (i + h)" "i < n" "n = length xs" "h \<le> n" "t < h" "h - t + length p \<le> n"
  shows "written_cells xs w p ! cell n (i + t) = xs ! cell n (i + t)"
proof -
  have c: "cell n (i + t) < n" using assms by (auto simp: cell_def)
  have "\<not> (w \<le> cell n (i + t) \<and> cell n (i + t) < w + length p)" "\<not> cell n (i + t) + n < w + length p"
    using assms by (auto simp: cell_def)
  with c assms(3) show ?thesis by (auto simp: nth_written_cells)
qed

lemma new_cell:
  assumes "w < length xs" "length p \<le> length xs" "m < length p"
  shows "written_cells xs w p ! ((w + m) mod length xs) = p ! m"
proof -
  have "(w + m) mod length xs = cell (length xs) (w + m)" using assms by (simp add: cell_is_mod)
  then show ?thesis using assms by (auto simp: cell_def nth_written_cells split: if_splits)
qed

lemma pending_after_write:
  assumes w: "w < length xs" and i: "i < length xs" and f: "f \<longrightarrow> i = w" and p: "length p \<le> length xs"
  shows "pending (after_write f w i xs p) = lastn (length xs) (pending (ring f w i xs) @ p)"
proof -
  define n where "n = length xs"
  define h where "h = held f w i n"
  define full where "full = (n \<le> h + length p)"
  define w' where "w' = cell n (w + length p)"
  define i' where "i' = (if full then w' else i)"
  define ys where "ys = written_cells xs w p"
  have aw: "after_write f w i xs p = ring full w' i' ys"
    by (simp add: after_write_def Let_def n_def h_def full_def w'_def i'_def ys_def)
  have [simp]: "length ys = n" by (simp add: ys_def n_def)
  have bnd: "w' < n" "i' < n" "full \<longrightarrow> i' = w'" "h \<le> n"
    using w i p by (auto simp: w'_def i'_def n_def cell_def h_def held_le)
  have wn: "w < n" "i < n" "length p \<le> n" using w i p by (simp_all add: n_def)
  have wcell: "w = cell n (i + h)"
    using w i f by (auto simp: cell_def h_def held_def n_def)
  have h': "held full w' i' n = min n (h + length p)"
    using w i f p
    by (auto simp: held_def full_def i'_def w'_def cell_def h_def n_def split: if_splits)
  have lp: "length (pending (ring f w i xs)) = h"
    using w i f by (simp add: length_pending h_def n_def)
  show ?thesis
    unfolding aw n_def [symmetric]
  proof (rule nth_equalityI)
    show "length (pending (ring full w' i' ys)) = length (lastn n (pending (ring f w i xs) @ p))"
      using bnd h' lp by (simp add: length_pending)
    fix j assume "j < length (pending (ring full w' i' ys))"
    then have j: "j < min n (h + length p)" using bnd h' by (simp add: length_pending)
    define t where "t = h + length p - n + j"
    have pos: "cell n (i' + j) = (i + t) mod n"
      unfolding t_def by (rule read_index_after [OF wn(1,2) wcell bnd(4) wn(3) _ bnd(2)])
        (use j in \<open>simp_all add: i'_def full_def w'_def\<close>)
    have "ys ! cell n (i' + j) = (pending (ring f w i xs) @ p) ! t"
    proof (cases "t < h")
      case True
      then have "cell n (i' + j) = cell n (i + t)" using pos bnd i by (simp add: cell_is_mod n_def)
      moreover have "h - t + length p \<le> n" using True p by (auto simp: t_def n_def)
      ultimately show ?thesis
        using kept_cell [OF wcell, of xs t p] nth_pending [of w xs i f t] True w i f lp bnd(4)
        by (simp add: nth_append h_def n_def ys_def)
    next
      case False
      then have m: "t - h < length p" using j by (auto simp: t_def)
      have "(i + t) mod n = ((i + h) mod n + (t - h)) mod n" using False by (subst mod_add_left_eq) simp
      also have "(i + h) mod n = w" using wcell bnd i by (simp add: cell_is_mod n_def)
      finally have "(i + t) mod n = (w + (t - h)) mod n" .
      with m False w p lp new_cell [OF w p m] show ?thesis
        unfolding pos by (simp add: nth_append ys_def n_def del: add_diff_assoc2)
    qed
    then show "pending (ring full w' i' ys) ! j = lastn n (pending (ring f w i xs) @ p) ! j"
      using nth_pending [of w' ys i' full j] bnd h' j lp
      by (subst lastn_def, subst nth_drop) (auto simp: t_def)
  qed
qed

section \<open>Every write is a write of the specification\<close>

lemma overlay_within:
  "w + length p < length xs \<Longrightarrow> overlay xs w p = written_cells xs w p"
  by (rule nth_equalityI) (simp_all add: nth_overlay nth_written_cells)

lemma overlay_to_end:
  "w < length xs \<Longrightarrow> w + length p \<le> length xs \<Longrightarrow> overlay xs w p = written_cells xs w p"
  by (rule nth_equalityI) (simp_all add: nth_overlay nth_written_cells)

lemma overlay_wrapped:
  assumes "w < length xs" "length xs \<le> w + length p" "length p \<le> length xs"
  shows "overlay (overlay xs w (take (length xs - w) p)) 0 (drop (length xs - w) p) = written_cells xs w p"
  by (rule nth_equalityI)
    (use assms in \<open>auto simp: nth_overlay nth_written_cells intro!: arg_cong [where f = "nth p"]\<close>)

lemma update_written: "w < length xs \<Longrightarrow> xs[w := x] = written_cells xs w [x]"
  by (rule nth_equalityI) (auto simp: nth_written_cells nth_list_update)

lemma go_rem_cell: "j < 2 * n \<Longrightarrow> go_rem (int j) (int n) = Inr (int (cell n j))"
  by (cases n) (simp_all add: go_rem_ok cell_is_mod zmod_int [symmetric] del: of_nat_Suc)

lemma WriteItem_after_write:
  assumes "w < length xs" "i < length xs" "f \<longrightarrow> i = w"
  shows "RingBuffer_WriteItem (ring f w i xs) x = Inr (None, after_write f w i xs [x])"
proof -
  define n where "n = length xs"
  have w: "w < n" "i < n" and [simp]: "length xs = n" using assms by (simp_all add: n_def)
  have steps: "go_rem (int w + 1) (int n) = Inr (int (cell n (Suc w)))"
    "go_update xs (int w) x = Inr (written_cells xs w [x])"
    using go_rem_cell [of "Suc w" n] w by (simp_all add: go_simps update_written add.commute)
  show ?thesis
    unfolding RingBuffer_WriteItem_def using steps w assms(3)
    by (cases f; cases "w < i"; cases "Suc w < n")
      (auto simp: after_write_def Let_def cell_def held_def)
qed

lemma Write_after_write:
  assumes "w < length xs" "i < length xs" "f \<longrightarrow> i = w" "length p < length xs"
  shows "RingBuffer_Write (ring f w i xs) p = Inr ((int (length p), None), after_write f w i xs p)"
proof (cases "w + length p < length xs")
  case True
  then have "RingBuffer_Write (ring f w i xs) p = RingBuffer_writeWithinBounds (ring f w i xs) p (int (w + length p))"
    using assms by (simp add: RingBuffer_Write_def RingBuffer_writeWithinCapacity_def Let_def)
  also have "\<dots> = Inr ((int (length p), None), after_write f w i xs p)"
    using True assms
    by (auto simp: RingBuffer_writeWithinBounds_def after_write_def Let_def go_simps overlay_within
        cell_def held_def)
  finally show ?thesis .
next
  case False
  define n where "n = length xs"
  define e where "e = w + length p - n"
  have e: "w + length p = n + e" "e < n" "e < w" "length p - (n - w) = e" "n - w \<le> length p"
    using False assms by (auto simp: e_def n_def)
  have w: "w < n" and [simp]: "length xs = n" using assms by (simp_all add: n_def)
  have steps: "go_rem (int (w + length p)) (int n) = Inr (int e)"
    "go_copy xs (int w) (int n) p = Inr (int (n - w), overlay xs w (take (n - w) p))"
    "go_slice p (int (n - w)) (int (length p)) = Inr (drop (n - w) p)"
    "go_copy (overlay xs w (take (n - w) p)) 0 (int e) (drop (n - w) p)
       = Inr (int e, written_cells xs w p)"
    using overlay_wrapped [of w xs p] go_rem_cell [of "w + length p" n] assms(4) e w
    by (simp_all add: go_simps sub_to_end nat_diff_distrib' cell_def of_nat_diff)
  have "RingBuffer_Write (ring f w i xs) p
      = RingBuffer_writeWrapped (ring f w i xs) p (int (w + length p))"
    using assms False by (simp add: RingBuffer_Write_def RingBuffer_writeWithinCapacity_def Let_def)
  also have "\<dots> = Inr ((int (length p), None), after_write f w i xs p)"
  proof -
    have cond: "n \<le> held f w i n + length p \<longleftrightarrow> f \<or> w < i \<or> i \<le> e" "cell n (w + length p) = e"
      using e w assms(2,3) by (auto simp: held_def cell_def)
    have past: "int i \<le> int (w + length p)" using e w assms(2) by simp
    have "int (n - w) + int e = int (length p)" using e w by linarith
    then have "RingBuffer_writeWrapped (ring f w i xs) p (int (w + length p)) =
      Inr ((int (length p), None),
        if f \<or> w < i \<or> i \<le> e then ring True e e (written_cells xs w p)
        else ring False e i (written_cells xs w p))"
      using past unfolding RingBuffer_writeWrapped_def
      by (simp add: steps Let_def del: of_nat_add)
    then show ?thesis using cond by (simp add: after_write_def Let_def)
  qed
  finally show ?thesis .
qed

lemma cap_after_write: "length (rb_items (after_write f w i xs p)) = length xs"
  by (simp add: after_write_def Let_def)

lemma after_write_ok:
  assumes "w < length xs" "i < length xs" "f \<longrightarrow> i = w" "int (length xs) \<le> maxInt"
    "length p \<le> length xs"
  shows "ring_inv (after_write f w i xs p)" "length (rb_items (after_write f w i xs p)) = length xs"
    "pending (after_write f w i xs p) = lastn (length xs) (pending (ring f w i xs) @ p)"
  using assms by (simp_all add: after_write_inv pending_after_write cap_after_write)

lemma RingBuffer_Write_ok:
  assumes "ring_inv r" "length p < length (rb_items r)"
  obtains r' where "RingBuffer_Write r p = Inr ((int (length p), None), r')" "ring_inv r'"
    "length (rb_items r') = length (rb_items r)"
    "pending r' = lastn (length (rb_items r)) (pending r @ p)"
proof -
  obtain f w i xs where r: "r = ring f w i xs" "w < length xs" "i < length xs"
    "int (length xs) \<le> maxInt" "f \<longrightarrow> i = w"
    using assms(1) by (rule ringE)
  then show ?thesis
    using that Write_after_write [of w xs i f p] after_write_ok [of w xs i f p] assms(2) by simp
qed

lemma RingBuffer_WriteItem_ok:
  assumes "ring_inv r"
  obtains r' where "RingBuffer_WriteItem r x = Inr (None, r')" "ring_inv r'"
    "length (rb_items r') = length (rb_items r)"
    "pending r' = lastn (length (rb_items r)) (pending r @ [x])"
proof -
  obtain f w i xs where r: "r = ring f w i xs" "w < length xs" "i < length xs"
    "int (length xs) \<le> maxInt" "f \<longrightarrow> i = w"
    using assms(1) by (rule ringE)
  then show ?thesis
    using that WriteItem_after_write [of w xs i f x] after_write_ok [of w xs i f "[x]"] by force
qed

text \<open>Writing one more item after \<open>p\<close> is writing \<open>p\<close> extended by it.\<close>

lemma after_write_snoc:
  assumes "w < length xs" "i < length xs" "f \<longrightarrow> i = w" "length p < length xs"
  shows "RingBuffer_WriteItem (after_write f w i xs p) x = Inr (None, after_write f w i xs (p @ [x]))"
proof -
  define n where "n = length xs"
  define h where "h = held f w i n"
  define full where "full = (n \<le> h + length p)"
  define w' where "w' = cell n (w + length p)"
  define i' where "i' = (if full then w' else i)"
  define ys where "ys = written_cells xs w p"
  have aw: "after_write f w i xs p = ring full w' i' ys"
    by (simp add: after_write_def Let_def n_def h_def full_def w'_def i'_def ys_def)
  have [simp]: "length ys = n" "length xs = n" by (simp_all add: ys_def n_def)
  have bnd: "w < n" "length p < n" "w' < n" "i' < n" "full \<longrightarrow> i' = w'"
    using assms by (auto simp: w'_def i'_def cell_def)
  have cells: "written_cells ys w' [x] = written_cells xs w (p @ [x])"
  proof (rule nth_equalityI)
    fix c assume "c < length (written_cells ys w' [x])"
    then have c: "c < n" by simp
    have self: "c = w' \<longleftrightarrow> c = w + length p \<or> c + n = w + length p"
      using bnd c by (auto simp: w'_def cell_def)
    have old: "written_cells ys w' [x] ! c = (if c = w' then x else ys ! c)"
      using c bnd by (auto simp: nth_written_cells)
    have new: "written_cells xs w (p @ [x]) ! c =
        (if c = w + length p \<or> c + n = w + length p then x else ys ! c)"
      using c bnd by (auto simp: nth_written_cells nth_append ys_def)
    show "written_cells ys w' [x] ! c = written_cells xs w (p @ [x]) ! c"
      by (simp only: old new self)
  qed simp
  have step: "cell n (w' + 1) = cell n (w + length (p @ [x]))"
    using bnd by (auto simp: w'_def cell_def)
  have fill: "held full w' i' n = min n (h + length p)"
  proof (cases full)
    case False
    then have "h + length p < n" by (simp add: full_def)
    then show ?thesis using False assms bnd
      by (cases f; cases "w < i") (auto simp: held_def i'_def w'_def cell_def h_def)
  qed (simp add: held_def full_def)
  have full2: "n \<le> held full w' i' n + length [x] \<longleftrightarrow> n \<le> h + length (p @ [x])"
    unfolding fill by auto
  have kept: "\<not> n \<le> h + length (p @ [x]) \<Longrightarrow> i' = i" by (simp add: i'_def full_def)
  have "w' + length [x] = w' + 1" by simp
  then have "after_write full w' i' ys [x] = after_write f w i xs (p @ [x])"
    unfolding after_write_def Let_def \<open>length ys = n\<close> \<open>length xs = n\<close> full2 h_def [symmetric] cells
    using kept by (simp only: step if_cancel split: if_split) simp
  with WriteItem_after_write [of w' ys i' full x] bnd show ?thesis by (simp add: aw)
qed

section \<open>Reads take from the front\<close>

lemma go_copy_nat:
  "a \<le> b \<Longrightarrow> b \<le> length xs \<Longrightarrow>
    go_copy xs (int a) (int b) ys = Inr (int (min (b - a) (length ys)), overlay xs a (take (b - a) ys))"
  by (simp add: go_copy_ok of_nat_min nat_diff_distrib' of_nat_diff)

lemma pending_after_read:
  assumes "w < length xs" "i < length xs" "f \<longrightarrow> i = w" "k \<le> held f w i (length xs)" "0 < k"
  shows "pending (ring False w (cell (length xs) (i + k)) xs) = drop k (pending (ring f w i xs))"
proof (cases "f \<or> w < i")
  case True
  show ?thesis
  proof (cases "i + k < length xs")
    case True
    with \<open>f \<or> w < i\<close> assms show ?thesis
      unfolding pending_ring by (auto simp: cell_def add.commute)
  next
    case False
    then have "k - (length xs - i) = i + k - length xs" using assms(2) by linarith
    moreover have "\<not> w < i + k - length xs" using True assms by (auto simp: held_def)
    ultimately show ?thesis using True False
      unfolding pending_ring by (simp add: cell_def sub_def drop_take)
  qed
next
  case False
  then have "i + k \<le> w" "\<not> f" using assms(4,5) by (auto simp: held_def)
  with False assms(1) show ?thesis unfolding pending_ring by (auto simp: cell_def drop_sub)
qed

lemma Len_ring:
  assumes "w < length xs" "i < length xs" "f \<longrightarrow> i = w"
  shows "RingBuffer_Len (ring f w i xs) = Inr (int (held f w i (length xs)))"
proof (cases f)
  case False
  have "int (length xs) + (int w - int i) = int (length xs + w - i)" using assms by simp
  then have "RingBuffer_Len (ring f w i xs) = Inr (int (cell (length xs) (length xs + w - i)))"
    using False assms go_rem_cell [of "length xs + w - i" "length xs"]
    by (simp add: RingBuffer_Len_def del: of_nat_add of_nat_diff)
  then show ?thesis using False assms by (auto simp: held_def cell_def)
qed (simp add: RingBuffer_Len_def held_def)

lemma overlay_front: "overlay p 0 ys = take (length p) ys @ drop (length ys) p"
  by (simp add: overlay_def)

text \<open>The start of \<open>Read\<close>: there is something to deliver.\<close>

lemma Read_start:
  assumes "w < length xs" "i < length xs" "f \<longrightarrow> i = w" "p \<noteq> []" "held f w i (length xs) \<noteq> 0"
  shows "andThen (if int (length p) = 0 then Inr True
       else andThen (RingBuffer_Len (ring f w i xs)) (\<lambda>l. Inr (l = 0))) g = g False"
  using assms by (simp add: Len_ring)

lemma Read_linear:
  assumes b: "w < length xs" "i < length xs" "f \<longrightarrow> i = w"
    and k: "k = min (length p) (held f w i (length xs))" "k \<noteq> 0" and "i < w"
  shows "RingBuffer_Read (ring f w i xs) p =
    Inr ((int k, None, take k (pending (ring f w i xs)) @ drop k p), ring False w (cell (length xs) (i + k)) xs)"
proof -
  have some: "p \<noteq> []" "held f w i (length xs) \<noteq> 0" using k by auto
  have h: "held f w i (length xs) = w - i" "\<not> f" using b(3) \<open>i < w\<close> by (auto simp: held_def)
  with k have kk: "k = min (length p) (w - i)" by simp
  with b(1) \<open>i < w\<close> have pos: "cell (length xs) (i + k) = i + k" by (auto simp: cell_def)
  have s: "go_slice xs (int i) (int w) = Inr (sub xs i w)" using \<open>i < w\<close> b(1) by (simp add: go_simps)
  have len: "length (sub xs i w) = w - i" using b(1) by simp
  have "take (length p) (sub xs i w) @ drop (w - i) p = take k (sub xs i w) @ drop k p"
    using len by (cases "length p \<le> w - i") (simp_all add: kk min_def)
  then have c: "go_copy p 0 (int (length p)) (sub xs i w) = Inr (int k, take k (sub xs i w) @ drop k p)"
    using len by (simp add: go_copy_ok overlay_front kk of_nat_min min.commute [of _ "length p"] del: length_sub)
  have "pending (ring f w i xs) = sub xs i w" using \<open>i < w\<close> h by (simp add: pending_ring)
  with pos c s \<open>i < w\<close> h k(2) show ?thesis
    unfolding RingBuffer_Read_def Let_def Read_start [OF b some] by simp
qed

text \<open>On a wrapped ring the items up to the end of the slice are copied first.\<close>

lemma Read_wrapped_copy:
  assumes "w < length xs" "i < length xs" "w \<le> i" "m = length xs - i" "m < length p" "k = min (length p) (m + w)"
  shows "go_copy p 0 (int (length p)) (drop i xs) = Inr (int m, drop i xs @ drop m p)"
    and "go_copy (drop i xs @ drop m p) (int m) (int (length p)) (take w xs)
      = Inr (int (min (length p - m) w), take k (drop i xs @ take w xs) @ drop k p)"
    and "int m + int (min (length p - m) w) = int k"
proof -
  have len: "length (drop i xs) = m" using assms(4) by simp
  show "go_copy p 0 (int (length p)) (drop i xs) = Inr (int m, drop i xs @ drop m p)"
    using assms(5) by (simp add: go_simps overlay_front len min_def del: length_drop)
  have "overlay (drop i xs @ drop m p) m (take (length p - m) (take w xs)) = take k (drop i xs @ take w xs) @ drop k p"
    using assms by (auto simp: overlay_def min_def add.commute)
  moreover have "m \<le> length p" "length p \<le> length (drop i xs @ drop m p)" using assms(4,5) by simp_all
  ultimately show "go_copy (drop i xs @ drop m p) (int m) (int (length p)) (take w xs)
      = Inr (int (min (length p - m) w), take k (drop i xs @ take w xs) @ drop k p)"
    using assms(1) by (simp only: go_copy_nat length_take) simp
  have "m + min (length p - m) w = k" using assms(5,6) by (auto simp: min_def)
  then show "int m + int (min (length p - m) w) = int k" by linarith
qed

lemma Read_wrapped:
  assumes b: "w < length xs" "i < length xs" "f \<longrightarrow> i = w"
    and k: "k = min (length p) (held f w i (length xs))" "k \<noteq> 0" and wi: "w \<le> i"
  shows "RingBuffer_Read (ring f w i xs) p =
    Inr ((int k, None, take k (pending (ring f w i xs)) @ drop k p), ring False w (cell (length xs) (i + k)) xs)"
proof -
  define n where "n = length xs"
  have some: "p \<noteq> []" "held f w i (length xs) \<noteq> 0" using k by auto
  then have h: "held f w i n = n - i + w" using wi b by (auto simp: held_def n_def)
  have pend: "pending (ring f w i xs) = drop i xs @ take w xs"
    using wi some b by (auto simp: pending_ring held_def)
  have s1: "go_slice xs (int i) (int n) = Inr (drop i xs)" using b by (simp add: go_simps sub_to_end n_def)
  have s2: "go_slice xs 0 (int w) = Inr (take w xs)" using b by (simp add: go_simps sub_from_start n_def)
  have pos: "go_rem (int i + int k) (int n) = Inr (int (cell n (i + k)))"
    using go_rem_cell [of "i + k" n] b h k by (simp add: n_def)
  note start = Read_start [OF b some]
  show ?thesis
  proof (cases "length p \<le> n - i")
    case True
    with h k have "k = length p" by (simp add: n_def)
    moreover from this have "go_copy p 0 (int (length p)) (drop i xs) = Inr (int k, take k (drop i xs))"
      using True by (simp add: go_simps overlay_front n_def min_def)
    ultimately show ?thesis
      using wi True some pos unfolding RingBuffer_Read_def Let_def start by (simp add: n_def [symmetric] s1 pend)
  next
    case False
    define m where "m = n - i"
    from False h k(1) have "m < length p" "k = min (length p) (m + w)" by (simp_all add: m_def n_def)
    note c = Read_wrapped_copy [OF b(1,2) wi m_def [unfolded n_def] this]
    show ?thesis
      using wi False some pos c \<open>k \<noteq> 0\<close> unfolding RingBuffer_Read_def Let_def start
      by (simp add: n_def [symmetric] s1 s2 pend m_def [symmetric] del: of_nat_min)
  qed
qed

lemma Read_ring:
  assumes "w < length xs" "i < length xs" "f \<longrightarrow> i = w"
    and k: "k = min (length p) (held f w i (length xs))"
  shows "RingBuffer_Read (ring f w i xs) p =
    Inr ((int k, None, take k (pending (ring f w i xs)) @ drop k p),
         if k = 0 then ring f w i xs else ring False w (cell (length xs) (i + k)) xs)"
proof (cases "k = 0")
  case True
  then show ?thesis
    using assms by (auto simp: RingBuffer_Read_def Len_ring Let_def min_def split: if_splits)
next
  case False
  then show ?thesis
    using Read_linear [OF assms False] Read_wrapped [OF assms False] by (cases "i < w") simp_all
qed

lemma RingBuffer_Read_ok:
  assumes "ring_inv r"
  obtains r' where
    "RingBuffer_Read r p = Inr ((int (min (length p) (length (pending r))), None,
        take (length p) (pending r) @ drop (length (pending r)) p), r')"
    "ring_inv r'" "length (rb_items r') = length (rb_items r)"
    "pending r' = drop (length p) (pending r)"
proof -
  obtain f w i xs where r: "r = ring f w i xs" "w < length xs" "i < length xs"
    "int (length xs) \<le> maxInt" "f \<longrightarrow> i = w"
    using assms(1) by (rule ringE)
  define k where "k = min (length p) (held f w i (length xs))"
  define r' where "r' = (if k = 0 then r else ring False w (cell (length xs) (i + k)) xs)"
  have len: "length (pending r) = held f w i (length xs)" using r by (simp add: length_pending)
  have "take k (pending r) @ drop k p = take (length p) (pending r) @ drop (length (pending r)) p"
    using len by (cases "length p \<le> length (pending r)") (simp_all add: k_def min_def)
  moreover have "pending r' = drop (length p) (pending r)"
  proof (cases "k = 0")
    case True
    then have "p = [] \<or> pending r = []" using len by (auto simp: k_def min_def split: if_splits)
    with True show ?thesis by (auto simp: r'_def)
  next
    case False
    then have "pending r' = drop k (pending r)"
      using r pending_after_read [of w xs i f k] by (simp add: r'_def k_def)
    with len show ?thesis by (cases "length p \<le> length (pending r)") (simp_all add: k_def)
  qed
  moreover have "ring_inv r'" "length (rb_items r') = length (rb_items r)"
    using r assms held_le [of w "length xs" i f] by (auto simp: r'_def ring_inv_ring cell_def k_def)
  ultimately show ?thesis
    using that [of r'] Read_ring [OF r(2,3,5) k_def] unfolding r(1) r'_def
    by (simp add: k_def len [unfolded r(1)])
qed

lemma RingBuffer_ReadItem_ok:
  assumes "ring_inv r"
  obtains x r' where "RingBuffer_ReadItem r = Inr ((x, None), r')" "ring_inv r'"
    "length (rb_items r') = length (rb_items r)"
    "pending r \<noteq> [] \<Longrightarrow> x = hd (pending r) \<and> pending r' = tl (pending r)"
proof -
  obtain f w i xs where r: "r = ring f w i xs" "w < length xs" "i < length xs"
    "int (length xs) \<le> maxInt" "f \<longrightarrow> i = w"
    using assms by (rule ringE)
  define r' where "r' = ring False w (cell (length xs) (i + 1)) xs"
  have "go_rem (int i + 1) (int (length xs)) = Inr (int (cell (length xs) (i + 1)))"
    using go_rem_cell [of "i + 1" "length xs"] r by (simp add: add.commute)
  then have run: "RingBuffer_ReadItem r = Inr ((xs ! i, None), r')"
    using r by (simp add: RingBuffer_ReadItem_def go_simps r'_def)
  have "pending r \<noteq> [] \<Longrightarrow> xs ! i = hd (pending r) \<and> pending r' = tl (pending r)"
  proof -
    assume ne: "pending r \<noteq> []"
    have "0 < held f w i (length xs)"
      using ne length_pending [of w xs i f] r by (cases "held f w i (length xs)") auto
    then have "pending r' = drop 1 (pending r)" "pending r ! 0 = xs ! i"
      using pending_after_read [of w xs i f 1] nth_pending [of w xs i f 0] r
      by (simp_all add: r'_def cell_def)
    with ne show ?thesis by (simp add: hd_conv_nth drop_Suc)
  qed
  moreover have "ring_inv r'" using r by (cases xs) (auto simp: r'_def ring_inv_ring cell_def)
  ultimately show ?thesis using that [OF run] r by (simp add: r'_def)
qed

lemma Value_ring:
  assumes "w < length xs" "i < length xs"
  shows "RingBuffer_Value rt (ring f w i xs) =
    (if i < w then Inr (sub xs i w, ring f w w xs)
     else Inr (drop i xs @ take i xs, ring f w i xs))"
proof (cases "i < w")
  case True
  then have "nat (int w - int i) = w - i" by simp
  moreover have "go_slice xs (int i) (int w) = Inr (sub xs i w)" using True assms by (simp add: go_simps)
  moreover have "length (sub xs i w) = w - i" using assms by simp
  ultimately show ?thesis using True
    by (simp add: RingBuffer_Value_def go_copy_ok overlay_all del: length_sub)
next
  case False
  define n where "n = length xs"
  have s1: "go_slice xs (int i) (int n) = Inr (drop i xs)" "go_slice xs 0 (int i) = Inr (take i xs)"
    using assms by (simp_all add: go_simps sub_to_end sub_from_start n_def)
  have gap: "int n - int i = int (n - i)" using assms by (simp add: n_def)
  define z where "z = zero_val rt"
  have "overlay (replicate n z) 0 (drop i xs) = drop i xs @ replicate i z"
    using assms by (auto simp: overlay_def n_def)
  then have c1: "go_copy (replicate n z) 0 (int (n - i)) (drop i xs)
      = Inr (int (n - i), drop i xs @ replicate i z)"
    using go_copy_nat [of 0 "n - i" "replicate n z" "drop i xs"] assms by (simp add: n_def)
  have "overlay (drop i xs @ replicate i z) (n - i) (take i xs) = drop i xs @ take i xs"
    using assms by (auto simp: overlay_def n_def)
  then have c2: "go_copy (drop i xs @ replicate i z) (int (n - i)) (int n) (take i xs)
      = Inr (int i, drop i xs @ take i xs)"
    using go_copy_nat [of "n - i" n "drop i xs @ replicate i z" "take i xs"] assms
    by (simp add: n_def)
  show ?thesis
  proof (cases "i = 0")
    case True
    with False show ?thesis
      by (simp add: RingBuffer_Value_def go_copy_ok overlay_all)
  next
    case i0: False
    with False show ?thesis
      unfolding RingBuffer_Value_def Let_def
      by (simp add: n_def [symmetric] z_def [symmetric] s1 gap c1 c2 del: of_nat_diff)
  qed
qed

lemma scan_items_eq:
  assumes "s \<le> length xs"
  shows "scan_items d xs (int i) (int s) line
    = Inr ((\<exists>x \<in> set (sub xs i s). d x), line @ takeWhile (\<lambda>x. \<not> d x) (sub xs i s))"
  using assms
proof (induction "s - i" arbitrary: i line)
  case 0
  then show ?case by (simp add: scan_items.simps sub_def)
next
  case (Suc k)
  then have i: "i < s" "i < length xs" and k: "k = s - Suc i" by simp_all
  then have cons: "sub xs i s = xs ! i # sub xs (Suc i) s" by (simp add: sub_Cons)
  have step: "int i + 1 = int (Suc i)" by simp
  show ?case
    using i Suc.hyps(1) [OF k, of "line @ [xs ! i]"] Suc.prems
    by (subst scan_items.simps) (simp add: go_simps cons step del: of_nat_Suc)
qed

lemma ReadItems_ring:
  assumes "w < length xs" "i < length xs"
  shows "RingBuffer_ReadItems d (ring f w i xs) =
    (let seen = (if i < w then take w xs else drop i xs @ take w xs);
         line = takeWhile (\<lambda>x. \<not> d x) seen
     in Inr ((line, None),
          if line = [] then ring f w i xs
          else ring False w (cell (length xs) (i + length line)) xs))"
proof -
  define n where "n = length xs"
  define seen where "seen = (if i < w then take w xs else drop i xs @ take w xs)"
  define line where "line = takeWhile (\<lambda>x. \<not> d x) seen"
  have scan: "scan_items d xs (int a) (int b) l
      = Inr ((\<exists>x \<in> set (sub xs a b). d x), l @ takeWhile (\<lambda>x. \<not> d x) (sub xs a b))"
    if "b \<le> n" for a b l
    using that scan_items_eq by (simp add: n_def)
  have "length line \<le> length seen" unfolding line_def by (rule length_takeWhile_le)
  also have "\<dots> \<le> n" using assms by (auto simp: seen_def n_def)
  finally have pos: "go_rem (int i + int (length line)) (int n) = Inr (int (cell n (i + length line)))"
    using go_rem_cell [of "i + length line" n] assms by (simp add: n_def)
  define first where "first = takeWhile (\<lambda>x. \<not> d x) (drop i xs)"
  have scan0: "scan_items d xs 0 (int w) l
      = Inr ((\<exists>x \<in> set (take w xs). d x), l @ takeWhile (\<lambda>x. \<not> d x) (take w xs))" for l
    using scan [of w 0 l] assms by (simp add: sub_from_start n_def)
  have scan1: "scan_items d xs (int i) (int n) [] = Inr ((\<exists>x \<in> set (drop i xs). d x), first)"
    using scan [of n i "[]"] by (simp add: sub_to_end n_def first_def)
  have "RingBuffer_ReadItems d (ring f w i xs) =
      (if line = [] then Inr (([], None), ring f w i xs)
       else Inr ((line, None), ring False w (cell n (i + length line)) xs))"
  proof (cases "i < w")
    case True
    then have "line = takeWhile (\<lambda>x. \<not> d x) (take w xs)" by (simp add: line_def seen_def)
    with True pos show ?thesis
      unfolding RingBuffer_ReadItems_def by (simp add: scan0 n_def [symmetric])
  next
    case False
    show ?thesis
    proof (cases "\<exists>x \<in> set (drop i xs). d x")
      case True
      with False have "line = first"
        by (auto simp: line_def seen_def first_def takeWhile_append)
      with True False pos show ?thesis
        unfolding RingBuffer_ReadItems_def by (simp add: scan1 n_def [symmetric])
    next
      case clean: False
      with False have "line = first @ takeWhile (\<lambda>x. \<not> d x) (take w xs)"
        by (simp add: line_def seen_def first_def takeWhile_append takeWhile_eq_all_conv [THEN iffD2])
      with clean False pos show ?thesis
        unfolding RingBuffer_ReadItems_def by (simp add: scan1 scan0 n_def [symmetric])
    qed
  qed
  then show ?thesis by (simp add: n_def seen_def [symmetric] Let_def line_def [symmetric])
qed

end
