(* ===== verification/RingQueue.thy ===== *)
theory RingQueue
  imports RingBuffer
begin

text \<open>
  The contract of \<open>RingBuffer\<close>: a queue that keeps the last \<open>cap\<close> items.  Sequences of operations
  refine the queue, no operation but \<open>UnreadItem\<close>, \<open>Seek\<close> and \<open>Truncate\<close> can leave the invariant,
  and the branches that depart from the queue are stated as they are.
\<close>

section \<open>Sequences of operations\<close>

text \<open>
  The operations that keep the invariant on every ring (\<open>UnreadItem\<close>, \<open>Seek\<close> and \<open>Truncate\<close> do
  not: they are treated below).  Each reports the items it delivers and a count.
\<close>

datatype 'a ring_op =
    RWrite "'a list"
  | RWriteItem 'a
  | RRead nat
  | RReadItem
  | RReadItems "'a \<Rightarrow> bool"
  | RNext int
  | RValue
  | RLen
  | RReset

type_synonym 'a ring_out = "'a list \<times> int \<times> go_error option"

fun RingBuffer_op ::
  "'a runtime \<Rightarrow> 'a ring_op \<Rightarrow> 'a RingBuffer \<Rightarrow> go_panic + ('a ring_out \<times> 'a RingBuffer)" where
  "RingBuffer_op rt (RWrite p) r = andThen (RingBuffer_Write r p) (\<lambda>((n, err), r'). Inr (([], n, err), r'))"
| "RingBuffer_op rt (RWriteItem x) r =
     andThen (RingBuffer_WriteItem r x) (\<lambda>(err, r'). Inr (([], 1, err), r'))"
| "RingBuffer_op rt (RRead k) r =
     andThen (RingBuffer_Read r (replicate k (zero_val rt))) (\<lambda>((n, err, q), r').
       Inr ((take (nat n) q, n, err), r'))"
| "RingBuffer_op rt RReadItem r =
     andThen (RingBuffer_ReadItem r) (\<lambda>((x, err), r'). Inr (([x], 1, err), r'))"
| "RingBuffer_op rt (RReadItems d) r =
     andThen (RingBuffer_ReadItems d r) (\<lambda>((l, err), r'). Inr ((l, int (length l), err), r'))"
| "RingBuffer_op rt (RNext n) r =
     andThen (RingBuffer_Next rt r n) (\<lambda>(l, r'). Inr ((l, int (length l), None), r'))"
| "RingBuffer_op rt RValue r =
     andThen (RingBuffer_Value rt r) (\<lambda>(l, r'). Inr ((l, int (length l), None), r'))"
| "RingBuffer_op rt RLen r = andThen (RingBuffer_Len r) (\<lambda>l. Inr (([], l, None), r))"
| "RingBuffer_op rt RReset r = Inr (([], 0, None), RingBuffer_Reset rt r)"

fun RingBuffer_run ::
  "'a runtime \<Rightarrow> 'a ring_op list \<Rightarrow> 'a RingBuffer \<Rightarrow> go_panic + ('a ring_out list \<times> 'a RingBuffer)" where
  "RingBuffer_run rt [] r = Inr ([], r)"
| "RingBuffer_run rt (a # ops) r =
     andThen (RingBuffer_op rt a r) (\<lambda>(out, r').
     andThen (RingBuffer_run rt ops r') (\<lambda>(outs, r''). Inr (out # outs, r'')))"

text \<open>
  The queue: it keeps the last \<open>cap\<close> items.  \<open>None\<close> where an operation has no queue meaning: a
  write of the whole capacity or more, reading with \<open>ReadItem\<close> from an empty queue or with \<open>Next\<close>
  beyond its length, and the operations that look at the cells (\<open>ReadItems\<close>, \<open>Value\<close>).
\<close>

fun queue_op :: "nat \<Rightarrow> 'a ring_op \<Rightarrow> 'a list \<Rightarrow> ('a ring_out \<times> 'a list) option" where
  "queue_op cap (RWrite p) q =
     (if length p < cap then Some (([], int (length p), None), lastn cap (q @ p)) else None)"
| "queue_op cap (RWriteItem x) q = Some (([], 1, None), lastn cap (q @ [x]))"
| "queue_op cap (RRead k) q = Some ((take k q, int (min k (length q)), None), drop k q)"
| "queue_op cap RReadItem q = (case q of [] \<Rightarrow> None | x # q' \<Rightarrow> Some (([x], 1, None), q'))"
| "queue_op cap (RReadItems d) q = None"
| "queue_op cap (RNext n) q =
     (if n \<le> 0 then Some (([], 0, None), q)
      else if n \<le> int (length q) then Some ((take (nat n) q, n, None), drop (nat n) q) else None)"
| "queue_op cap RValue q = None"
| "queue_op cap RLen q = Some (([], int (length q), None), q)"
| "queue_op cap RReset q = Some (([], 0, None), [])"

fun queue_run :: "nat \<Rightarrow> 'a ring_op list \<Rightarrow> 'a list \<Rightarrow> ('a ring_out list \<times> 'a list) option" where
  "queue_run cap [] q = Some ([], q)"
| "queue_run cap (a # ops) q =
     (case queue_op cap a q of None \<Rightarrow> None
      | Some (out, q') \<Rightarrow>
          (case queue_run cap ops q' of None \<Rightarrow> None
           | Some (outs, q'') \<Rightarrow> Some (out # outs, q'')))"

text \<open>
  The total specification, which gives every operation a meaning on every ring: a log
  \<open>(w, h, m)\<close> of the last \<open>cap\<close> items written, oldest first (zero values where fewer were written),
  of which the last \<open>m\<close> are unread; \<open>w\<close> is where in the ring the next item goes.  A read past
  the end starts over with the oldest of the log, whether it was read before or not; \<open>ReadItems\<close> and
  \<open>Value\<close> tell whether the unread items lie in one block that ends at \<open>w\<close> (\<open>0 < m \<le> w\<close>).
\<close>

type_synonym 'a ring_log = "nat \<times> 'a list \<times> nat"

fun log_unread :: "'a ring_log \<Rightarrow> 'a list" where
  "log_unread (w, h, m) = lastn m h"

fun log_advance :: "nat \<Rightarrow> 'a ring_log \<Rightarrow> 'a ring_log" where
  "log_advance k (w, h, m) = (w, h, if k = 0 then m else (m + length h - k) mod length h)"

fun log_value :: "'a ring_log \<Rightarrow> 'a ring_out \<times> 'a ring_log" where
  "log_value (w, h, m) =
     (if 0 < m \<and> m \<le> w then ((lastn m h, int m, None), (w, h, 0))
      else ((lastn m h @ take (length h - m) h, int (length h), None), (w, h, m)))"

fun log_op :: "'a \<Rightarrow> 'a ring_op \<Rightarrow> 'a ring_log \<Rightarrow> 'a ring_out \<times> 'a ring_log" where
  "log_op z (RWrite p) (w, h, m) =
     (if length p < length h
      then (([], int (length p), None),
            ((w + length p) mod length h, lastn (length h) (h @ p), min (length h) (m + length p)))
      else (([], int (length h), None), (w, rotate w (lastn (length h) p), length h)))"
| "log_op z (RWriteItem x) (w, h, m) =
     (([], 1, None), ((w + 1) mod length h, tl h @ [x], min (length h) (m + 1)))"
| "log_op z (RRead k) (w, h, m) = ((take k (lastn m h), int (min k m), None), (w, h, m - k))"
| "log_op z RReadItem (w, h, m) =
     (([if m = 0 then hd h else hd (lastn m h)], 1, None), log_advance 1 (w, h, m))"
| "log_op z (RReadItems d) (w, h, m) =
     (let line = takeWhile (\<lambda>x. \<not> d x) (if m = 0 then h else if m \<le> w then lastn w h else lastn m h)
      in ((line, int (length line), None), log_advance (length line) (w, h, m)))"
| "log_op z (RNext n) (w, h, m) =
     (if n \<le> 0 then (([], 0, None), (w, h, m))
      else if n \<le> int m then ((take (nat n) (lastn m h), n, None), (w, h, m - nat n))
      else log_value (w, h, m))"
| "log_op z RValue (w, h, m) = log_value (w, h, m)"
| "log_op z RLen (w, h, m) = (([], int m, None), (w, h, m))"
| "log_op z RReset (w, h, m) = (([], 0, None), (0, replicate (length h) z, 0))"

fun log_run :: "'a \<Rightarrow> 'a ring_op list \<Rightarrow> 'a ring_log \<Rightarrow> 'a ring_out list \<times> 'a ring_log" where
  "log_run z [] s = ([], s)"
| "log_run z (a # ops) s =
     (let (out, s') = log_op z a s; (outs, s'') = log_run z ops s' in (out # outs, s''))"

text \<open>The log of a ring.\<close>

definition ring_log :: "'a RingBuffer \<Rightarrow> 'a ring_log" where
  "ring_log r =
     (nat (rb_write r), drop (nat (rb_write r)) (rb_items r) @ take (nat (rb_write r)) (rb_items r),
      length (pending r))"

lemma Len_ok:
  assumes "ring_inv r"
  shows "RingBuffer_Len r = Inr (int (length (pending r)))"
  using assms by (elim ringE) (simp add: Len_ring length_pending)

lemma Reset_ok:
  assumes "ring_inv r"
  shows "ring_inv (RingBuffer_Reset rt r)"
    "length (rb_items (RingBuffer_Reset rt r)) = length (rb_items r)"
    "pending (RingBuffer_Reset rt r) = []"
  using assms by (auto simp: RingBuffer_Reset_def ring_inv_def pending_def)

lemma Next_ok:
  assumes "ring_inv r" "n \<le> int (length (pending r))"
  obtains r' where "RingBuffer_Next rt r n = Inr (take (nat n) (pending r), r')" "ring_inv r'"
    "length (rb_items r') = length (rb_items r)" "pending r' = drop (nat n) (pending r)"
proof (cases "n \<le> 0")
  case True
  with that [of r] assms show ?thesis by (simp add: RingBuffer_Next_def)
next
  case False
  then have n: "nat n \<le> length (pending r)" using assms by simp
  obtain r' where r': "RingBuffer_Read r (replicate (nat n) (zero_val rt)) =
      Inr ((n, None, take (nat n) (pending r)), r')" "ring_inv r'"
    "length (rb_items r') = length (rb_items r)" "pending r' = drop (nat n) (pending r)"
    using RingBuffer_Read_ok [OF assms(1), of "replicate (nat n) (zero_val rt)"] n False by (auto simp: min_def)
  with False assms that [of r'] show ?thesis by (simp add: RingBuffer_Next_def Len_ok)
qed

lemma Value_ok:
  assumes "ring_inv r"
  obtains l r' where "RingBuffer_Value rt r = Inr (l, r')" "ring_inv r'"
    "length (rb_items r') = length (rb_items r)"
proof -
  obtain f w i xs where r: "r = ring f w i xs" "w < length xs" "i < length xs"
    "int (length xs) \<le> maxInt" "f \<longrightarrow> i = w"
    using assms by (rule ringE)
  then show ?thesis
    using that Value_ring [of w xs i rt f] by (cases "i < w") (auto simp: ring_inv_ring)
qed

lemma Next_safe:
  assumes "ring_inv r"
  obtains l r' where "RingBuffer_Next rt r n = Inr (l, r')" "ring_inv r'"
    "length (rb_items r') = length (rb_items r)"
proof (cases "n \<le> int (length (pending r))")
  case True
  with Next_ok [OF assms] that show ?thesis by metis
next
  case False
  then have "RingBuffer_Next rt r n = RingBuffer_Value rt r"
    using assms by (simp add: RingBuffer_Next_def Len_ok)
  with Value_ok [OF assms, of rt] that show ?thesis by metis
qed

lemma ReadItems_safe:
  assumes "ring_inv r"
  obtains l r' where "RingBuffer_ReadItems d r = Inr ((l, None), r')" "ring_inv r'"
    "length (rb_items r') = length (rb_items r)"
proof -
  obtain f w i xs where r: "r = ring f w i xs" "w < length xs" "i < length xs"
    "int (length xs) \<le> maxInt" "f \<longrightarrow> i = w"
    using assms by (rule ringE)
  have le: "length (takeWhile (\<lambda>x. \<not> d x) (if i < w then take w xs else drop i xs @ take w xs)) \<le> length xs"
    using r by (intro order_trans [OF length_takeWhile_le]) auto
  show ?thesis
    using that ReadItems_ring [of w xs i d f] r le
    by (auto simp: Let_def ring_inv_ring cell_def split: if_splits)
qed

lemma Write_full_ring:
  assumes "length xs \<le> length p"
  shows "RingBuffer_Write (ring f w i xs) p =
    Inr ((int (length xs), None), ring True w w (lastn (length xs) p))"
proof -
  define n where "n = length xs"
  have gap: "int (length p) - int n = int (length p - n)" using assms by (simp add: n_def)
  have s: "go_slice p (int (length p - n)) (int (length p)) = Inr (lastn n p)"
    by (simp add: go_slice_ok sub_to_end lastn_def)
  have "length (lastn n p) = n" using assms by (simp add: n_def)
  then have c: "go_copy xs 0 (int n) (lastn n p) = Inr (int n, lastn n p)"
    using go_copy_nat [of 0 n xs "lastn n p"] by (simp add: overlay_all n_def)
  show ?thesis using assms unfolding RingBuffer_Write_def Let_def
    by (simp add: n_def [symmetric] gap s c del: of_nat_diff)
qed

lemma RingBuffer_op_safe:
  assumes "ring_inv r"
  obtains out r' where "RingBuffer_op rt a r = Inr (out, r')" "ring_inv r'"
    "length (rb_items r') = length (rb_items r)"
proof (cases a)
  case (RWrite p)
  show ?thesis
  proof (cases "length p < length (rb_items r)")
    case True
    then obtain r' where "RingBuffer_Write r p = Inr ((int (length p), None), r')" "ring_inv r'"
      "length (rb_items r') = length (rb_items r)"
      using RingBuffer_Write_ok [OF assms] by metis
    with RWrite show ?thesis by (intro that [of _ r']) simp_all
  next
    case False
    obtain f w i xs where r: "r = ring f w i xs" "w < length xs" "i < length xs"
      "int (length xs) \<le> maxInt" "f \<longrightarrow> i = w"
      using assms by (rule ringE)
    with False RWrite show ?thesis
      by (intro that [of _ "ring True w w (lastn (length xs) p)"])
        (simp_all add: Write_full_ring ring_inv_ring)
  qed
next
  case (RWriteItem x)
  with RingBuffer_WriteItem_ok [OF assms, of x] that show ?thesis by fastforce
next
  case (RRead k)
  with RingBuffer_Read_ok [OF assms, of "replicate k (zero_val rt)"] that show ?thesis by fastforce
next
  case RReadItem
  with RingBuffer_ReadItem_ok [OF assms] that show ?thesis by fastforce
next
  case (RReadItems d)
  with ReadItems_safe [OF assms, of d] that show ?thesis by fastforce
next
  case (RNext n)
  with Next_safe [OF assms, of rt n] that show ?thesis by fastforce
next
  case RValue
  with Value_ok [OF assms, of rt] that show ?thesis by fastforce
next
  case RLen
  with Len_ok [OF assms] assms that show ?thesis by simp
next
  case RReset
  with Reset_ok [OF assms] that show ?thesis by simp
qed

lemma RingBuffer_op_queue:
  assumes "ring_inv r" and q: "queue_op (length (rb_items r)) a (pending r) = Some (out, q')"
  obtains r' where "RingBuffer_op rt a r = Inr (out, r')" "ring_inv r'"
    "length (rb_items r') = length (rb_items r)" "pending r' = q'"
proof (cases a)
  case (RWrite p)
  with q have "length p < length (rb_items r)" by (auto split: if_splits)
  then obtain r' where "RingBuffer_Write r p = Inr ((int (length p), None), r')" "ring_inv r'"
    "length (rb_items r') = length (rb_items r)"
    "pending r' = lastn (length (rb_items r)) (pending r @ p)"
    using RingBuffer_Write_ok [OF assms(1)] by metis
  with RWrite q show ?thesis by (intro that [of r']) (auto split: if_splits)
next
  case (RWriteItem x)
  with RingBuffer_WriteItem_ok [OF assms(1), of x] q that show ?thesis by fastforce
next
  case (RRead k)
  obtain r' where "RingBuffer_Read r (replicate k (zero_val rt)) =
      Inr ((int (min k (length (pending r))), None,
        take k (pending r) @ replicate (k - length (pending r)) (zero_val rt)), r')"
    "ring_inv r'" "length (rb_items r') = length (rb_items r)" "pending r' = drop k (pending r)"
    using RingBuffer_Read_ok [OF assms(1), of "replicate k (zero_val rt)"] by auto
  moreover have "take (min k (length (pending r))) (take k (pending r) @ z) = take k (pending r)" for z
    by (cases "k \<le> length (pending r)") (simp_all add: min_def)
  ultimately show ?thesis using RRead q that [of r'] by (simp del: of_nat_min take_append)
next
  case RReadItem
  then obtain x where "pending r = x # q'" "out = ([x], 1, None)" using q by (auto split: list.splits)
  with RingBuffer_ReadItem_ok [OF assms(1)] RReadItem that show ?thesis by fastforce
next
  case (RReadItems d)
  with q show ?thesis by simp
next
  case (RNext n)
  with q have n: "n \<le> int (length (pending r))" by (auto split: if_splits)
  obtain r' where "RingBuffer_Next rt r n = Inr (take (nat n) (pending r), r')" "ring_inv r'"
    "length (rb_items r') = length (rb_items r)" "pending r' = drop (nat n) (pending r)"
    using Next_ok [OF assms(1) n] by metis
  with RNext q n that [of r'] show ?thesis by (auto split: if_splits)
next
  case RValue
  with q show ?thesis by simp
next
  case RLen
  with Len_ok [OF assms(1)] assms(1) q show ?thesis by (intro that [of r]) auto
next
  case RReset
  with Reset_ok [OF assms(1)] q that show ?thesis by simp
qed

lemma NewRingBuffer_ok:
  assumes "sz \<le> maxInt"
  shows "ring_inv (NewRingBuffer rt sz)" "pending (NewRingBuffer rt sz) = []"
    "rb_cap (NewRingBuffer rt sz) = (if sz \<le> 0 then 256 else sz)"
  using assms by (auto simp: NewRingBuffer_def ring_inv_def pending_def defaultBufferSize_def maxInt_def Let_def)

lemma RingBuffer_run_queue:
  "ring_inv r \<Longrightarrow> queue_run (length (rb_items r)) ops (pending r) = Some (outs, q) \<Longrightarrow>
    \<exists>r'. RingBuffer_run rt ops r = Inr (outs, r') \<and> ring_inv r' \<and> pending r' = q"
proof (induction ops arbitrary: r outs)
  case (Cons a ops)
  from Cons.prems(2) obtain out q1 outs' where s: "queue_op (length (rb_items r)) a (pending r) = Some (out, q1)"
    "queue_run (length (rb_items r)) ops q1 = Some (outs', q)" "outs = out # outs'"
    by (auto split: option.splits)
  obtain r1 where "RingBuffer_op rt a r = Inr (out, r1)" "ring_inv r1"
    "length (rb_items r1) = length (rb_items r)" "pending r1 = q1"
    using RingBuffer_op_queue [OF Cons.prems(1) s(1)] by metis
  with Cons.IH [of r1 outs'] s show ?case by auto
qed simp

lemma RingBuffer_run_safe:
  "ring_inv r \<Longrightarrow> \<exists>outs r'. RingBuffer_run rt ops r = Inr (outs, r') \<and> ring_inv r'
     \<and> length (rb_items r') = length (rb_items r)"
proof (induction ops arbitrary: r)
  case (Cons a ops)
  obtain out r1 where "RingBuffer_op rt a r = Inr (out, r1)" "ring_inv r1"
    "length (rb_items r1) = length (rb_items r)"
    using RingBuffer_op_safe [OF Cons.prems] by metis
  with Cons.IH [of r1] show ?case by auto
qed simp

section \<open>The log of a ring\<close>

lemma ring_log_ring:
  assumes "w < length xs" "i < length xs" "f \<longrightarrow> i = w"
  shows "ring_log (ring f w i xs) = (w, drop w xs @ take w xs, held f w i (length xs))"
  using assms by (simp add: ring_log_def length_pending)

lemma unread_ring_log:
  assumes "ring_inv r"
  shows "log_unread (ring_log r) = pending r"
proof -
  obtain f w i xs where r: "r = ring f w i xs" "w < length xs" "i < length xs" "f \<longrightarrow> i = w"
    using assms by (rule ringE)
  show ?thesis
  proof (cases "f \<or> w < i")
    case True
    then have "length xs - held f w i (length xs) = (if f then 0 else i - w)" using r by (auto simp: held_def)
    with True r show ?thesis by (auto simp: ring_log_ring pending_ring lastn_def)
  next
    case False
    then have "length xs - held f w i (length xs) = length xs - w + i" using r by (auto simp: held_def)
    with False r show ?thesis by (auto simp: ring_log_ring pending_ring lastn_def sub_def drop_take)
  qed
qed

lemma length_ring_log: "ring_log r = (w, h, m) \<Longrightarrow> length h = length (rb_items r)"
  by (auto simp: ring_log_def)

lemma ring_log_after_write:
  assumes "w < length xs" "i < length xs" "f \<longrightarrow> i = w" "length p \<le> length xs"
  shows "ring_log (after_write f w i xs p) =
    ((w + length p) mod length xs, lastn (length xs) ((drop w xs @ take w xs) @ p),
     min (length xs) (held f w i (length xs) + length p))"
proof -
  define w' where "w' = cell (length xs) (w + length p)"
  have w': "w' < length xs" "w' = (w + length p) mod length xs"
    using assms by (auto simp: w'_def cell_def mod_if)
  have "after_write True w w xs p = ring True w' w' (written_cells xs w p)"
    by (simp add: after_write_def held_def Let_def w'_def)
  with pending_after_write [of w xs w True p] assms w'(1)
  have hist: "drop w' (written_cells xs w p) @ take w' (written_cells xs w p)
      = lastn (length xs) ((drop w xs @ take w xs) @ p)"
    by (simp add: pending_ring)
  have "length (pending (after_write f w i xs p)) = min (length xs) (held f w i (length xs) + length p)"
    using assms by (simp add: pending_after_write length_pending)
  moreover have "nat (rb_write (after_write f w i xs p)) = w'"
    "rb_items (after_write f w i xs p) = written_cells xs w p"
    by (simp_all add: after_write_def Let_def w'_def)
  ultimately show ?thesis using hist w'(2) by (simp only: ring_log_def)
qed

lemma ring_log_advance:
  assumes "w < length xs" "i < length xs" "f \<longrightarrow> i = w" "0 < k" "k \<le> length xs"
  shows "ring_log (ring False w (cell (length xs) (i + k)) xs) = log_advance k (ring_log (ring f w i xs))"
proof -
  have i': "cell (length xs) (i + k) < length xs" using assms by (auto simp: cell_def)
  have "held False w (cell (length xs) (i + k)) (length xs) = (held f w i (length xs) + length xs - k) mod length xs"
    using assms by (auto simp: held_def cell_def mod_if)
  with assms i' show ?thesis by (simp add: ring_log_ring)
qed

text \<open>Every operation does to the log what the specification says.\<close>

lemma log_RWrite:
  assumes "ring_inv r"
  shows "\<exists>r'. RingBuffer_op rt (RWrite p) r = Inr (fst (log_op z (RWrite p) (ring_log r)), r')
    \<and> ring_log r' = snd (log_op z (RWrite p) (ring_log r))"
proof -
  obtain f w i xs where r: "r = ring f w i xs" "w < length xs" "i < length xs"
    "f \<longrightarrow> i = w"
    using assms by (rule ringE)
  show ?thesis
  proof (cases "length p < length xs")
    case True
    with r show ?thesis by (simp add: Write_after_write ring_log_ring ring_log_after_write)
  next
    case False
    then have "drop w (lastn (length xs) p) @ take w (lastn (length xs) p) = rotate w (lastn (length xs) p)"
      using r(2) by (simp add: rotate_drop_take)
    with False r show ?thesis by (simp add: Write_full_ring ring_log_ring held_def)
  qed
qed

lemma log_RWriteItem:
  assumes "ring_inv r"
  shows "\<exists>r'. RingBuffer_op rt (RWriteItem x) r = Inr (fst (log_op z (RWriteItem x) (ring_log r)), r')
    \<and> ring_log r' = snd (log_op z (RWriteItem x) (ring_log r))"
proof -
  obtain f w i xs where r: "r = ring f w i xs" "w < length xs" "i < length xs" "f \<longrightarrow> i = w"
    using assms by (rule ringE)
  have ne: "drop w xs \<noteq> []" using r(2) by simp
  then have "lastn (length xs) (drop w xs @ take w xs @ [x]) = drop 1 (drop w xs @ take w xs @ [x])"
    using r(2) by (simp add: lastn_def)
  also have "\<dots> = tl (drop w xs @ take w xs) @ [x]" using ne by (cases "drop w xs") simp_all
  finally have "lastn (length xs) (drop w xs @ take w xs @ [x]) = tl (drop w xs @ take w xs) @ [x]" .
  with r show ?thesis
    by (simp add: WriteItem_after_write ring_log_ring ring_log_after_write)
qed

lemma log_RRead:
  assumes "ring_inv r"
  shows "\<exists>r'. RingBuffer_op rt (RRead k) r = Inr (fst (log_op z (RRead k) (ring_log r)), r')
    \<and> ring_log r' = snd (log_op z (RRead k) (ring_log r))"
proof -
  obtain f w i xs where r: "r = ring f w i xs" "w < length xs" "i < length xs" "f \<longrightarrow> i = w"
    using assms by (rule ringE)
  define m where "m = held f w i (length xs)"
  define j where "j = min k m"
  have m: "m \<le> length xs" using r by (simp add: m_def held_le)
  have len: "length (pending r) = m" using r by (simp add: length_pending m_def)
  have items: "take j (take j (pending r) @ zs) = take k (pending r)" for zs :: "'a list"
    using len by (cases "k \<le> m") (simp_all add: j_def)
  have "ring_log (if j = 0 then ring f w i xs else ring False w (cell (length xs) (i + j)) xs)
      = (w, drop w xs @ take w xs, m - k)"
  proof (cases "j = 0")
    case True
    then show ?thesis using r by (auto simp: ring_log_ring m_def j_def min_def split: if_splits)
  next
    case False
    then have "(m + length xs - j) mod length xs = m - k"
      using m r(2) by (auto simp: j_def mod_if)
    moreover have "0 < j" "j \<le> length xs" using False m by (simp_all add: j_def)
    ultimately show ?thesis
      using False r ring_log_advance [of w xs i f j] by (simp add: ring_log_ring m_def [symmetric])
  qed
  moreover have "RingBuffer_Read r (replicate k (zero_val rt)) =
      Inr ((int j, None, take j (pending r) @ drop j (replicate k (zero_val rt))),
        if j = 0 then ring f w i xs else ring False w (cell (length xs) (i + j)) xs)"
    using Read_ring [of w xs i f j "replicate k (zero_val rt)"] r by (simp add: j_def m_def)
  moreover have "ring_log r = (w, drop w xs @ take w xs, m)" using r by (simp add: ring_log_ring m_def)
  ultimately show ?thesis
    using items [of "drop j (replicate k (zero_val rt))"] unread_ring_log [OF assms]
    by (simp add: j_def [symmetric] del: take_append drop_replicate)
qed

lemma log_RReadItem:
  assumes "ring_inv r"
  shows "\<exists>r'. RingBuffer_op rt RReadItem r = Inr (fst (log_op z RReadItem (ring_log r)), r')
    \<and> ring_log r' = snd (log_op z RReadItem (ring_log r))"
proof -
  obtain f w i xs where r: "r = ring f w i xs" "w < length xs" "i < length xs" "f \<longrightarrow> i = w"
    using assms by (rule ringE)
  have "go_rem (int i + 1) (int (length xs)) = Inr (int (cell (length xs) (i + 1)))"
    using go_rem_cell [of "i + 1" "length xs"] r by (simp add: add.commute)
  then have run: "RingBuffer_ReadItem r = Inr ((xs ! i, None), ring False w (cell (length xs) (i + 1)) xs)"
    using r by (simp add: RingBuffer_ReadItem_def go_simps)
  have "xs ! i = (if held f w i (length xs) = 0 then hd (drop w xs @ take w xs) else hd (pending r))"
  proof (cases "held f w i (length xs) = 0")
    case True
    then have "i = w" using r by (auto simp: held_def split: if_splits)
    with True r show ?thesis by (simp add: hd_append hd_drop_conv_nth)
  next
    case False
    then have "pending r \<noteq> []" using length_pending [of w xs i f] r by auto
    with False r nth_pending [of w xs i f 0] show ?thesis by (simp add: hd_conv_nth cell_def)
  qed
  moreover have "ring_log (ring False w (cell (length xs) (i + 1)) xs) = log_advance 1 (ring_log r)"
    using r by (simp add: ring_log_advance del: One_nat_def)
  ultimately show ?thesis
    using run unread_ring_log [OF assms] r
    by (simp add: ring_log_ring del: log_advance.simps One_nat_def)
qed

lemma log_RReadItems:
  assumes "ring_inv r"
  shows "\<exists>r'. RingBuffer_op rt (RReadItems d) r = Inr (fst (log_op z (RReadItems d) (ring_log r)), r')
    \<and> ring_log r' = snd (log_op z (RReadItems d) (ring_log r))"
proof -
  obtain f w i xs where r: "r = ring f w i xs" "w < length xs" "i < length xs" "f \<longrightarrow> i = w"
    using assms by (rule ringE)
  define m where "m = held f w i (length xs)"
  define seen where "seen = (if i < w then take w xs else drop i xs @ take w xs)"
  define line where "line = takeWhile (\<lambda>x. \<not> d x) seen"
  define h where "h = drop w xs @ take w xs"
  have log: "ring_log r = (w, h, m)" using r by (simp add: ring_log_ring m_def h_def)
  have pend: "pending r = lastn m h" using unread_ring_log [OF assms] log by simp
  have seen: "seen = (if m = 0 then h else if m \<le> w then lastn w h else lastn m h)"
  proof (cases "i < w")
    case True
    then have "0 < m" "m \<le> w" using r by (auto simp: m_def held_def)
    with True r show ?thesis by (simp add: seen_def h_def lastn_def)
  next
    case False
    then consider "m = 0" "i = w" | "0 < m" "w < m" "f \<or> w < i"
      using r by (cases f; cases "w < i"; cases "i = w") (auto simp: m_def held_def)
    then show ?thesis
    proof cases
      case 1
      then show ?thesis by (simp add: seen_def h_def)
    next
      case 2
      then have "pending r = drop i xs @ take w xs" using r by (simp add: pending_ring)
      with 2 False pend show ?thesis by (simp add: seen_def)
    qed
  qed
  have "length line \<le> length seen" unfolding line_def by (rule length_takeWhile_le)
  also have "\<dots> \<le> length xs" using r by (auto simp: seen_def)
  finally have "ring_log (if line = [] then r else ring False w (cell (length xs) (i + length line)) xs)
      = log_advance (length line) (w, h, m)"
    using r log ring_log_advance [of w xs i f "length line"] by auto
  moreover have "RingBuffer_ReadItems d r = Inr ((line, None),
      if line = [] then r else ring False w (cell (length xs) (i + length line)) xs)"
    using ReadItems_ring [of w xs i d f] r(1-3) unfolding Let_def line_def seen_def by simp
  ultimately show ?thesis
    by (simp add: log Let_def seen [symmetric] line_def [symmetric] del: log_advance.simps)
qed

lemma log_Value:
  assumes "ring_inv r"
  shows "\<exists>l r'. RingBuffer_Value rt r = Inr (l, r')
    \<and> fst (log_value (ring_log r)) = (l, int (length l), None) \<and> ring_log r' = snd (log_value (ring_log r))"
proof -
  obtain f w i xs where r: "r = ring f w i xs" "w < length xs" "i < length xs" "f \<longrightarrow> i = w"
    using assms by (rule ringE)
  define m where "m = held f w i (length xs)"
  define h where "h = drop w xs @ take w xs"
  have log: "ring_log r = (w, h, m)" using r by (simp add: ring_log_ring m_def h_def)
  have pend: "pending r = lastn m h" using unread_ring_log [OF assms] log by simp
  show ?thesis
  proof (cases "i < w")
    case True
    then have m: "0 < m" "m \<le> w" "\<not> f" "m = w - i" using r by (auto simp: m_def held_def)
    then have "sub xs i w = lastn m h" using pend True r by (simp add: pending_ring)
    moreover have "ring_log (ring f w w xs) = (w, h, 0)" using m r by (simp add: ring_log_ring held_def h_def)
    moreover have "length (lastn m h) = m" using m r by (simp add: h_def)
    ultimately show ?thesis using True m r Value_ring [of w xs i rt f] log by (auto simp del: length_lastn)
  next
    case False
    then have m: "\<not> (0 < m \<and> m \<le> w)" using r by (auto simp: m_def held_def split: if_splits)
    have "drop i xs @ take i xs = lastn m h @ take (length h - m) h"
    proof (cases "m = 0")
      case True
      then have "i = w" using r False by (auto simp: m_def held_def split: if_splits)
      with True r show ?thesis by (simp add: h_def lastn_def min_def)
    next
      case m0: False
      have "length xs - m = i - w" "f \<or> w < i" using m0 r False by (auto simp: m_def held_def split: if_splits)
      then show ?thesis using r False by (auto simp: lastn_def h_def take_add [symmetric])
    qed
    then show ?thesis using False m r Value_ring [of w xs i rt f] log by (auto simp: h_def)
  qed
qed

lemma log_RNext:
  assumes "ring_inv r"
  shows "\<exists>r'. RingBuffer_op rt (RNext n) r = Inr (fst (log_op z (RNext n) (ring_log r)), r')
    \<and> ring_log r' = snd (log_op z (RNext n) (ring_log r))"
proof -
  obtain w h m where log: "ring_log r = (w, h, m)" by (cases "ring_log r")
  then have m: "m = length (pending r)" by (simp add: ring_log_def)
  have pend: "lastn m h = pending r" using unread_ring_log [OF assms] log by simp
  consider "n \<le> 0" | "0 < n" "n \<le> int m" | "0 < n" "int m < n" by linarith
  then show ?thesis
  proof cases
    case 1
    with log show ?thesis by (simp add: RingBuffer_Next_def)
  next
    case 2
    then have n: "nat n \<le> length (pending r)" "int (nat n) = n" using m by simp_all
    obtain r1 where r1: "RingBuffer_Read r (replicate (nat n) (zero_val rt)) =
        Inr ((n, None, take (nat n) (pending r)), r1)"
      using RingBuffer_Read_ok [OF assms, of "replicate (nat n) (zero_val rt)"] n by (auto simp: min_def)
    have "ring_log r1 = (w, h, m - nat n)"
      using log_RRead [OF assms, of rt "nat n" z] r1 log by simp
    moreover have "RingBuffer_Next rt r n = Inr (take (nat n) (pending r), r1)"
      using 2 r1 m Len_ok [OF assms] by (simp add: RingBuffer_Next_def)
    moreover have "int (length (take (nat n) (pending r))) = n" using n by simp
    ultimately show ?thesis using 2 log pend by (simp del: log_value.simps length_take)
  next
    case 3
    then have "RingBuffer_Next rt r n = RingBuffer_Value rt r"
      using assms m by (simp add: RingBuffer_Next_def Len_ok)
    with 3 log_Value [OF assms, of rt] log show ?thesis by (auto simp del: log_value.simps)
  qed
qed

lemma RingBuffer_op_log:
  assumes "ring_inv r"
  shows "\<exists>r'. RingBuffer_op rt a r = Inr (fst (log_op (zero_val rt) a (ring_log r)), r')
    \<and> ring_log r' = snd (log_op (zero_val rt) a (ring_log r))"
proof (cases a)
  case (RNext n)
  with log_RNext [OF assms] show ?thesis by blast
next
  case RValue
  obtain w h m where "ring_log r = (w, h, m)" by (cases "ring_log r")
  with log_Value [OF assms, of rt] RValue show ?thesis by (auto simp del: log_value.simps)
next
  case RLen
  with Len_ok [OF assms] show ?thesis by (simp add: ring_log_def)
next
  case RReset
  with Reset_ok(3) [OF assms, of rt] show ?thesis
    by (auto simp: ring_log_def RingBuffer_Reset_def map_replicate_const)
qed (use assms log_RWrite log_RWriteItem log_RRead log_RReadItem log_RReadItems in simp_all)

lemma RingBuffer_run_log:
  "ring_inv r \<Longrightarrow> \<exists>r'. RingBuffer_run rt ops r = Inr (fst (log_run (zero_val rt) ops (ring_log r)), r')
     \<and> ring_inv r' \<and> ring_log r' = snd (log_run (zero_val rt) ops (ring_log r))"
proof (induction ops arbitrary: r)
  case (Cons a ops)
  obtain out s where s: "log_op (zero_val rt) a (ring_log r) = (out, s)"
    by (cases "log_op (zero_val rt) a (ring_log r)")
  obtain out' r1 where r1: "RingBuffer_op rt a r = Inr (out', r1)" "ring_inv r1"
    using RingBuffer_op_safe [OF Cons.prems] by metis
  with RingBuffer_op_log [OF Cons.prems, of rt a] s have "out' = out" "ring_log r1 = s" by auto
  with Cons.IH [OF r1(2)] r1 s show ?case by (auto simp: split_def Let_def)
qed simp

text \<open>
  C1: A ring buffer is a log of the last \<open>cap\<close> items written with a count of the unread ones.  Any
  sequence of \<open>Write\<close>, \<open>WriteItem\<close>, \<open>Read\<close>, \<open>ReadItem\<close>, \<open>ReadItems\<close>, \<open>Next\<close>, \<open>Value\<close>, \<open>Len\<close> and
  \<open>Reset\<close>, run from a new ring of any size (256 for a size of 0 or less), returns, delivers and
  reports exactly what the log specification \<open>log_run\<close> does, and leaves its unread items unread.  Where
  every operation of the sequence has a meaning on a queue that keeps the last \<open>cap\<close> items
  (writes shorter than the ring, \<open>WriteItem\<close>, \<open>Read\<close>, \<open>ReadItem\<close> on a queue that is not empty,
  \<open>Next\<close> within the length, \<open>Len\<close>, \<open>Reset\<close>), that is exactly what the queue delivers, with nil errors.
  \<open>ReadItem\<close> on an empty ring is no queue operation: it delivers the oldest cell, with a nil error
  and not the documented \<open>io.EOF\<close>, and makes the other \<open>cap - 1\<close> unread again.
\<close>

theorem RingBuffer_refines_queue:
  assumes "sz \<le> maxInt" "cap = (if sz \<le> 0 then 256 else nat sz)"
    and "log_run (zero_val rt) ops (0, replicate cap (zero_val rt), 0) = (outs, s)"
  shows "\<exists>r. RingBuffer_run rt ops (NewRingBuffer rt sz) = Inr (outs, r)
     \<and> ring_inv r \<and> pending r = log_unread s
     \<and> (\<forall>outs' q. queue_run cap ops [] = Some (outs', q) \<longrightarrow> outs' = outs \<and> q = pending r)"
proof -
  define new where "new = NewRingBuffer rt sz"
  have ok: "ring_inv new" "pending new = []" using NewRingBuffer_ok [OF assms(1)] by (simp_all add: new_def)
  have cells: "rb_items new = replicate cap (zero_val rt)" "rb_write new = 0"
    using assms(2) by (simp_all add: new_def NewRingBuffer_def defaultBufferSize_def Let_def)
  then have "ring_log new = (0, replicate cap (zero_val rt), 0)" using ok by (simp add: ring_log_def)
  with RingBuffer_run_log [OF ok(1), of rt ops] assms(3)
  obtain r where r: "RingBuffer_run rt ops new = Inr (outs, r)" "ring_inv r" "ring_log r = s" by auto
  have "outs' = outs \<and> q = pending r" if "queue_run cap ops [] = Some (outs', q)" for outs' q
    using RingBuffer_run_queue [OF ok(1), of ops outs' q rt] that r(1) cells(1) ok(2) by auto
  with r unread_ring_log [OF r(2)] show ?thesis by (auto simp: new_def)
qed

theorem RingBuffer_refines_queue_witness:
  "(\<exists>r. RingBuffer_run int_runtime [RWrite [1, 2], RRead 1, RWrite [3, 4], RWriteItem 5, RLen, RRead 9]
         (NewRingBuffer int_runtime 3)
      = Inr ([([], 2, None), ([1], 1, None), ([], 2, None), ([], 1, None), ([], 3, None), ([3, 4, 5], 3, None)], r)
     \<and> ring_inv r \<and> pending r = [])
   \<and> (\<exists>r. RingBuffer_run int_runtime [RWrite [1, 2], RRead 2, RReadItem] (NewRingBuffer int_runtime 3)
      = Inr ([([], 2, None), ([1, 2], 2, None), ([0], 1, None)], r) \<and> pending r = [1, 2])"
proof -
  have three: "replicate 3 (zero_val int_runtime) = [0, 0, 0]" by (simp add: numeral_3_eq_3 int_runtime_def)
  have logs: "log_run (zero_val int_runtime) [RWrite [1, 2], RRead 1, RWrite [3, 4], RWriteItem 5, RLen, RRead 9]
      (0, replicate 3 (zero_val int_runtime), 0)
    = ([([], 2, None), ([1], 1, None), ([], 2, None), ([], 1, None), ([], 3, None), ([3, 4, 5], 3, None)], (2, [3, 4, 5], 0))"
    "log_run (zero_val int_runtime) [RWrite [1, 2], RRead 2, RReadItem]
      (0, replicate 3 (zero_val int_runtime), 0)
    = ([([], 2, None), ([1, 2], 2, None), ([0], 1, None)], (2, [0, 1, 2], 2))"
    by (simp_all add: three lastn_def)
  show ?thesis
    using RingBuffer_refines_queue [OF _ _ logs(1), of 3] RingBuffer_refines_queue [OF _ _ logs(2), of 3]
    by (auto simp: maxInt_def lastn_def)
qed

text \<open>
  C9: No sequence of writes, reads, \<open>ReadItems\<close>, \<open>Next\<close>, \<open>Value\<close>, \<open>Len\<close> and \<open>Reset\<close> makes a
  ring buffer panic, whatever its size and the lengths involved; the indexes stay inside the ring
  and its capacity never changes.
\<close>

theorem RingBuffer_never_panics:
  assumes "sz \<le> maxInt"
  shows "\<exists>outs r. RingBuffer_run rt ops (NewRingBuffer rt sz) = Inr (outs, r) \<and> ring_inv r
     \<and> RingBuffer_Cap r = (if sz \<le> 0 then 256 else sz)"
proof -
  have "length (rb_items (NewRingBuffer rt sz)) = nat (if sz \<le> 0 then 256 else sz)"
    by (simp add: NewRingBuffer_def defaultBufferSize_def Let_def)
  moreover obtain outs r where "RingBuffer_run rt ops (NewRingBuffer rt sz) = Inr (outs, r)" "ring_inv r"
    "length (rb_items r) = length (rb_items (NewRingBuffer rt sz))"
    using RingBuffer_run_safe [OF NewRingBuffer_ok(1) [OF assms]] by metis
  ultimately show ?thesis by (auto simp: RingBuffer_Cap_def)
qed

theorem RingBuffer_never_panics_witness:
  "\<exists>outs r. RingBuffer_run int_runtime [RWrite [1, 2, 3, 4], RReadItem, RReadItems (\<lambda>x. x = 2), RNext 7]
       (NewRingBuffer int_runtime 3) = Inr (outs, r) \<and> ring_inv r \<and> RingBuffer_Cap r = 3"
  using RingBuffer_never_panics
    [of 3 int_runtime "[RWrite [1, 2, 3, 4], RReadItem, RReadItems (\<lambda>x. x = 2), RNext 7]"]
  by (simp only: maxInt_def) simp

text \<open>Writing the items of a list one by one.\<close>

primrec RingBuffer_WriteEach :: "'a list \<Rightarrow> 'a RingBuffer \<Rightarrow> go_panic + 'a RingBuffer" where
  "RingBuffer_WriteEach [] r = Inr r"
| "RingBuffer_WriteEach (x # xs) r = andThen (RingBuffer_WriteItem r x) (\<lambda>(_, r'). RingBuffer_WriteEach xs r')"

lemma RingBuffer_WriteEach_snoc:
  "RingBuffer_WriteEach (xs @ [x]) r =
     andThen (RingBuffer_WriteEach xs r) (\<lambda>r'. andThen (RingBuffer_WriteItem r' x) (\<lambda>(_, r''). Inr r''))"
  by (induction xs arbitrary: r) (auto simp: andThen_assoc split_def)

lemma after_write_Nil:
  "w < length xs \<Longrightarrow> i < length xs \<Longrightarrow> f \<longrightarrow> i = w \<Longrightarrow> after_write f w i xs [] = ring f w i xs"
proof -
  have "w < length xs \<Longrightarrow> written_cells xs w [] = xs"
    by (rule nth_equalityI) (auto simp: nth_written_cells)
  then show "w < length xs \<Longrightarrow> i < length xs \<Longrightarrow> f \<longrightarrow> i = w \<Longrightarrow> ?thesis"
    by (auto simp: after_write_def Let_def held_def cell_def)
qed

lemma WriteEach_after_write:
  assumes "w < length xs" "i < length xs" "f \<longrightarrow> i = w"
  shows "length p \<le> length xs \<Longrightarrow>
    RingBuffer_WriteEach p (ring f w i xs) = Inr (after_write f w i xs p)"
proof (induction p rule: rev_induct)
  case (snoc x p)
  then show ?case
    using after_write_snoc [of w xs i f p x] assms by (simp add: RingBuffer_WriteEach_snoc)
qed (use assms in \<open>simp add: after_write_Nil\<close>)

text \<open>
  C6: \<open>Write\<close> of fewer items than the ring holds is writing them one by one with \<open>WriteItem\<close>:
  the two code paths (the block copies of \<open>writeWithinBounds\<close> and \<open>writeWrapped\<close>, and the single
  step) end in the same state, and \<open>Write\<close> reports the length of its argument.
\<close>

theorem RingBuffer_Write_is_WriteItems:
  assumes "ring_inv r" "length p < length (rb_items r)"
  shows "RingBuffer_Write r p =
    andThen (RingBuffer_WriteEach p r) (\<lambda>r'. Inr ((int (length p), None), r'))"
proof -
  obtain f w i xs where "r = ring f w i xs" "w < length xs" "i < length xs" "f \<longrightarrow> i = w"
    using assms(1) by (rule ringE)
  with assms(2) show ?thesis by (simp add: WriteEach_after_write Write_after_write)
qed

theorem RingBuffer_Write_is_WriteItems_witness:
  "RingBuffer_Write \<lparr>rb_full = False, rb_write = 2, rb_read = 1, rb_items = [7, 8, 9::int]\<rparr> [5, 6] =
    andThen (RingBuffer_WriteEach [5, 6] \<lparr>rb_full = False, rb_write = 2, rb_read = 1, rb_items = [7, 8, 9]\<rparr>)
      (\<lambda>r'. Inr ((int (length [5::int, 6]), None), r'))"
  by (rule RingBuffer_Write_is_WriteItems) (simp_all add: ring_inv_def maxInt_def)

text \<open>
  \<open>Write\<close> of at least as many items as the ring holds keeps the right items, the last \<open>cap\<close>,
  but reports \<open>cap\<close> instead of the length of its argument, and the ring then yields those items
  rotated by the write index: in order only when that index was 0.
\<close>

theorem RingBuffer_Write_oversize:
  assumes "ring_inv r" "length (rb_items r) \<le> length p"
  shows "\<exists>r'. RingBuffer_Write r p = Inr ((rb_cap r, None), r') \<and> ring_inv r'
    \<and> rb_items r' = lastn (length (rb_items r)) p
    \<and> pending r' = rotate (nat (rb_write r)) (lastn (length (rb_items r)) p)"
proof -
  obtain f w i xs where r: "r = ring f w i xs" "w < length xs" "int (length xs) \<le> maxInt"
    using assms(1) by (rule ringE)
  with assms(2) show ?thesis
    by (auto simp: Write_full_ring ring_inv_ring pending_ring rotate_drop_take)
qed

theorem RingBuffer_Write_oversize_witness:
  "\<exists>r'. RingBuffer_Write \<lparr>rb_full = False, rb_write = 1, rb_read = 0, rb_items = [7, 0, 0]\<rparr> [1, 2, 3, 4::int]
        = Inr ((3, None), r') \<and> pending r' = [3, 4, 2]"
  using RingBuffer_Write_oversize
    [of "\<lparr>rb_full = False, rb_write = 1, rb_read = 0, rb_items = [7, 0, 0::int]\<rparr>" "[1, 2, 3, 4]"]
  by (auto simp: ring_inv_def maxInt_def lastn_def)

text \<open>
  \<open>ReadItem\<close> and then \<open>UnreadItem\<close> on a ring with unread items.  When the read index does not
  wrap the ring is back where it was, except that a full ring is no longer marked full (its unread
  items are gone).  When it does wrap, \<open>UnreadItem\<close> reports success but leaves the read index at
  -1, and the next \<open>ReadItem\<close> panics.
\<close>

theorem RingBuffer_UnreadItem_undo:
  assumes "ring_inv r" "pending r \<noteq> []"
  shows "\<exists>r1. RingBuffer_ReadItem r = Inr ((hd (pending r), None), r1)
    \<and> (if rb_read r + 1 < rb_cap r then RingBuffer_UnreadItem r1 = Inr (None, r\<lparr>rb_full := False\<rparr>)
       else 1 < rb_cap r \<longrightarrow>
         RingBuffer_UnreadItem r1 = Inr (None, r1\<lparr>rb_read := -1\<rparr>)
         \<and> RingBuffer_ReadItem (r1\<lparr>rb_read := -1\<rparr>) = Inl IndexRange)"
proof -
  obtain f w i xs where r: "r = ring f w i xs" "w < length xs" "i < length xs"
    using assms(1) by (rule ringE)
  define n where "n = length xs"
  define r1 where "r1 = ring False w (cell n (i + 1)) xs"
  have "go_rem (int i + 1) (int n) = Inr (int (cell n (i + 1)))"
    using go_rem_cell [of "i + 1" n] r by (simp add: n_def add.commute)
  then have read: "RingBuffer_ReadItem r = Inr ((xs ! i, None), r1)"
    using r by (simp add: RingBuffer_ReadItem_def go_simps r1_def n_def)
  obtain x r2 where "RingBuffer_ReadItem r = Inr ((x, None), r2)" "x = hd (pending r)"
    using RingBuffer_ReadItem_ok [OF assms(1)] assms(2) by metis
  with read have item: "xs ! i = hd (pending r)" by simp
  show ?thesis
  proof (cases "i + 1 < n")
    case True
    then have "go_rem (int i) (int n) = Inr (int i)"
      using go_rem_cell [of i n] by (simp add: cell_def)
    with True have "RingBuffer_UnreadItem r1 = Inr (None, ring False w i xs)"
      by (simp add: RingBuffer_UnreadItem_def r1_def cell_def n_def [symmetric])
    then show ?thesis using read item r(1) True by (simp add: n_def)
  next
    case False
    then have r1: "r1 = ring False w 0 xs" using r(3) by (simp add: r1_def cell_def n_def)
    have "go_rem (-1) (int n) = Inr (-1)" if "1 < int n"
      using that by (simp add: go_rem_def signed_modulo_int_def)
    with False show ?thesis
      using read item r(1) by (auto simp: r1 RingBuffer_UnreadItem_def RingBuffer_ReadItem_def
          go_index_def n_def)
  qed
qed

theorem RingBuffer_UnreadItem_undo_witness:
  "RingBuffer_ReadItem \<lparr>rb_full = False, rb_write = 2, rb_read = 1, rb_items = [5, 6, 7::int]\<rparr>
     = Inr ((6, None), \<lparr>rb_full = False, rb_write = 2, rb_read = 2, rb_items = [5, 6, 7]\<rparr>)
   \<and> RingBuffer_UnreadItem \<lparr>rb_full = False, rb_write = 2, rb_read = 2, rb_items = [5, 6, 7::int]\<rparr>
     = Inr (None, \<lparr>rb_full = False, rb_write = 2, rb_read = 1, rb_items = [5, 6, 7]\<rparr>)
   \<and> RingBuffer_UnreadItem \<lparr>rb_full = False, rb_write = 1, rb_read = 0, rb_items = [5, 6, 7::int]\<rparr>
     = Inr (None, \<lparr>rb_full = False, rb_write = 1, rb_read = -1, rb_items = [5, 6, 7]\<rparr>)"
proof -
  have read: "RingBuffer_ReadItem \<lparr>rb_full = f, rb_write = w, rb_read = i, rb_items = xs\<rparr>
      = Inr ((xs ! nat i, None), \<lparr>rb_full = False, rb_write = w, rb_read = (i + 1) mod int (length xs), rb_items = xs\<rparr>)"
    if "0 \<le> i" "i < int (length xs)" for f w i and xs :: "int list"
    using that by (cases "xs = []") (auto simp: RingBuffer_ReadItem_def go_simps)
  show ?thesis
    using RingBuffer_UnreadItem_undo
      [of "\<lparr>rb_full = False, rb_write = 2, rb_read = 1, rb_items = [5, 6, 7::int]\<rparr>"]
      RingBuffer_UnreadItem_undo
      [of "\<lparr>rb_full = False, rb_write = 1, rb_read = 2, rb_items = [5, 6, 7::int]\<rparr>"]
    by (simp add: read ring_inv_def maxInt_def pending_def sub_def)
qed

text \<open>
  \<open>ReadItems\<close>, when the ring is full or wrapped or read from its first cell: it delivers the
  unread items up to the delimiter (all of them if there is none), consumes exactly those, and
  leaves the delimiter to be read next.
\<close>

theorem RingBuffer_ReadItems_until:
  assumes "ring_inv r" "rb_full r \<or> rb_write r < rb_read r \<or> rb_read r = 0 \<and> 0 < rb_write r"
  shows "\<exists>r'. RingBuffer_ReadItems d r = Inr ((takeWhile (\<lambda>x. \<not> d x) (pending r), None), r')
    \<and> pending r' = dropWhile (\<lambda>x. \<not> d x) (pending r) \<and> ring_inv r'"
proof -
  obtain f w i xs where r: "r = ring f w i xs" "w < length xs" "i < length xs"
    "int (length xs) \<le> maxInt" "f \<longrightarrow> i = w"
    using assms(1) by (rule ringE)
  define line where "line = takeWhile (\<lambda>x. \<not> d x) (pending r)"
  have seen: "(if i < w then take w xs else drop i xs @ take w xs) = pending r"
    using assms(2) r by (auto simp: pending_ring sub_from_start)
  define r' where "r' = (if line = [] then r else ring False w (cell (length xs) (i + length line)) xs)"
  have run: "RingBuffer_ReadItems d r = Inr ((line, None), r')"
    using ReadItems_ring [of w xs i d f] r(1-3) seen
    by (simp only: Let_def r'_def line_def)
  have le: "length line \<le> held f w i (length xs)"
    using length_takeWhile_le [of _ "pending r"] length_pending [of w xs i f] r
    by (simp add: line_def)
  have "pending r' = drop (length line) (pending r)"
  proof (cases "line = []")
    case False
    with pending_after_read [of w xs i f "length line"] r le show ?thesis by (simp add: r'_def)
  qed (simp add: r'_def)
  then have "pending r' = dropWhile (\<lambda>x. \<not> d x) (pending r)"
    by (simp add: dropWhile_eq_drop line_def)
  moreover obtain l q where "RingBuffer_ReadItems d r = Inr ((l, None), q)" "ring_inv q"
    using ReadItems_safe [OF assms(1)] by metis
  ultimately show ?thesis using run by (simp add: line_def)
qed

theorem RingBuffer_ReadItems_until_witness:
  "\<exists>r'. RingBuffer_ReadItems (\<lambda>x. x = 9)
          \<lparr>rb_full = False, rb_write = 2, rb_read = 3, rb_items = [7, 9, 0, 5, 6::int]\<rparr>
      = Inr (([5, 6, 7], None), r') \<and> pending r' = [9]"
  using RingBuffer_ReadItems_until
    [of "\<lparr>rb_full = False, rb_write = 2, rb_read = 3, rb_items = [7, 9, 0, 5, 6::int]\<rparr>" "\<lambda>x. x = 9"]
  by (auto simp: ring_inv_def maxInt_def pending_def)

end
