(* ===== verification/RingStream.thy ===== *)
theory RingStream
  imports RingQueue
begin

text \<open>
  \<open>RingBuffer.ReadFrom\<close> and \<open>RingBuffer.WriteTo\<close> against the interfaces of \<^theory_text>\<open>Gio\<close>: filling a
  ring from a reader keeps the last \<open>cap\<close> items of what was unread followed by everything the
  reader delivers; draining it hands the unread items over in order.
\<close>

section \<open>Filling from a reader\<close>

lemma overlay_read:
  assumes "w + length p = length xs" "length q = length p" "n \<le> length p"
    "drop n q = drop n (drop w xs)"
  shows "overlay xs w q = written_cells xs w (take n q)"
proof (rule nth_equalityI)
  have len: "w \<le> length xs" using assms(1) by simp
  then show "length (overlay xs w q) = length (written_cells xs w (take n q))" by simp
  fix c assume "c < length (overlay xs w q)"
  with len have c: "c < length xs" by simp
  have untouched: "q ! (c - w) = xs ! c" if "w + n \<le> c"
  proof -
    have "q ! (c - w) = drop n q ! (c - w - n)"
      using that assms c by (subst nth_drop) simp_all
    also have "\<dots> = drop n (drop w xs) ! (c - w - n)" by (simp only: assms(4))
    also have "\<dots> = xs ! c" using that c by simp
    finally show ?thesis .
  qed
  show "overlay xs w q ! c = written_cells xs w (take n q) ! c"
    using c assms untouched by (auto simp: nth_overlay nth_written_cells)
qed

text \<open>One round of the loop that reads \<open>n\<close> items without an error.\<close>

lemma ReadFrom_round:
  assumes st: "w < length xs" "i < length xs" "f \<longrightarrow> i = w"
    and rd: "rd b (drop w xs) = Inr ((int n, None, q), b')"
    and q: "length q = length xs - w" "n \<le> length xs - w" "drop n q = drop n (drop w xs)"
  shows "RingBuffer_ReadFrom_loop (Suc fuel) rd (ring f w i xs) b k =
    RingBuffer_ReadFrom_loop fuel rd (after_write f w i xs (take n q)) b' (k + int n)"
proof -
  define N where "N = length xs"
  define ys where "ys = written_cells xs w (take n q)"
  have lq: "length (take n q) = n" using q by simp
  have ov: "overlay xs w q = ys"
    using overlay_read [of w "drop w xs" xs q n] st q by (simp add: ys_def)
  have [simp]: "length ys = N" by (simp add: ys_def N_def)
  have s: "go_slice xs (int w) (int N) = Inr (drop w xs)"
    using st by (simp add: go_simps sub_to_end N_def)
  have r: "go_rem (int w + int n) (int N) = Inr (int (cell N (w + n)))"
    using go_rem_cell [of "w + n" N] st q by (simp add: N_def)
  have aw: "after_write f w i xs (take n q) =
      (if N \<le> held f w i N + n then ring True (cell N (w + n)) (cell N (w + n)) ys
       else ring False (cell N (w + n)) i ys)"
    unfolding after_write_def Let_def lq ys_def N_def by simp
  have fills: "N \<le> held f w i N + n \<longleftrightarrow>
      f \<or> (w < i \<and> i \<le> w + n) \<or> int N - (int w - int i) = int n"
    using st q by (auto simp: held_def N_def)
  show ?thesis
    unfolding aw fills using s r rd
    by (auto simp: N_def [symmetric] ov Let_def)
qed

context gio_tidy_reader
begin

lemma RingBuffer_ReadFrom_loop_correct:
  "ring_inv r \<Longrightarrow> reader_inv b \<Longrightarrow> length (rest b) < fuel \<Longrightarrow>
    \<exists>b' r'. RingBuffer_ReadFrom_loop fuel read_call r b k
        = Some (Inr ((k + int (length (rest b)), None), b', r'))
      \<and> reader_inv b' \<and> rest b' = [] \<and> ring_inv r'
      \<and> length (rb_items r') = length (rb_items r)
      \<and> pending r' = lastn (length (rb_items r)) (pending r @ rest b)"
proof (induction fuel arbitrary: r b k)
  case (Suc fuel)
  obtain f w i xs where r: "r = ring f w i xs" "w < length xs" "i < length xs"
    "int (length xs) \<le> maxInt" "f \<longrightarrow> i = w"
    using Suc.prems(1) by (rule ringE)
  have p: "drop w xs \<noteq> []" using r by simp
  obtain res b1 where call: "read_call b (drop w xs) = Inr (res, b1)" "reader_inv b1"
    "read_outcome (drop w xs) (rest b) res (rest b1)"
    using read_ok [OF Suc.prems(2) p] by metis
  from call(3) show ?case
  proof (cases rule: read_outcomeE)
    case (progress n q)
    define r1 where "r1 = after_write f w i xs (take n q)"
    have q: "take n q = take n (rest b)" "length (take n q) \<le> length xs" using progress by auto
    have "drop n q = drop n (drop w xs)"
      using tidy [OF Suc.prems(2) p] call(1) progress(1) by fastforce
    then have step: "RingBuffer_ReadFrom_loop (Suc fuel) read_call r b k =
        RingBuffer_ReadFrom_loop fuel read_call r1 b1 (k + int n)"
      using ReadFrom_round [of w xs i f read_call b n q b1 fuel k] call(1) r progress
      by (simp add: r1_def)
    have r1: "ring_inv r1" "length (rb_items r1) = length xs"
      "pending r1 = lastn (length xs) (pending r @ take n (rest b))"
      unfolding r1_def r(1)
      using after_write_ok [OF r(2,3,5,4) q(2)] by (simp_all add: q(1))
    have "lastn (length xs) (pending r1 @ rest b1) = lastn (length xs) (pending r @ rest b)"
      using progress by (simp add: r1(3) lastn_append_left)
    then show ?thesis
      using Suc.IH [of r1 b1 "k + int n"] r1 call(2) Suc.prems(3) progress step r(1)
      by (auto simp: add.assoc)
  next
    case (eof q)
    from eof(1) call(1) have "rest b = []"
      using eof_clean [OF Suc.prems(2) p] by fastforce
    moreover have "drop 0 q = drop 0 (drop w xs)"
      using tidy [OF Suc.prems(2) p] call(1) eof(1) \<open>rest b = []\<close> by fastforce
    moreover from this have "overlay xs w q = xs"
      using r(2) by (simp add: overlay_def)
    moreover have "go_slice xs (int w) (int (length xs)) = Inr (drop w xs)"
      using r by (simp add: go_simps sub_to_end)
    moreover have "length (pending r) \<le> length xs"
      using r held_le [of w "length xs" i f] by (simp add: length_pending)
    ultimately have "RingBuffer_ReadFrom_loop (Suc fuel) read_call r b k = Some (Inr ((k, None), b1, r))"
      using call(1) eof(1) r(1) by (auto simp: Let_def)
    then show ?thesis
      using call(2) eof \<open>rest b = []\<close> Suc.prems(1) \<open>length (pending r) \<le> length xs\<close> r(1)
      by (simp add: lastn_all)
  qed
qed simp

end

interpretation slice_reader_tidy: gio_tidy_reader Reader_Read ahead reader_ok
proof
  fix r r' :: "'a Reader" and p q n e
  assume "reader_ok r" "p \<noteq> []" "Reader_Read r p = Inr ((n, e, q), r')"
  then show "drop (nat n) q = drop (nat n) p"
    by (cases "ahead r = []") (auto simp: Reader_Read_end Reader_Read_items overlay_def min_def)
qed

interpretation buffer_reader_tidy: gio_tidy_reader Buffer_Read unread buf_inv
proof
  fix r r' :: "'a Buffer" and p q n e
  assume "buf_inv r" "p \<noteq> []" "Buffer_Read r p = Inr ((n, e, q), r')"
  then show "drop (nat n) q = drop (nat n) p"
    by (cases "unread r = []") (auto simp: Buffer_Read_empty Buffer_Read_items overlay_def min_def)
qed

text \<open>
  C7: \<open>ReadFrom\<close> fills a ring from a slice \<open>Reader\<close> or from a \<open>Buffer\<close>.  With more fuel than
  items to come it returns, reports their number and no error, drains the source, and the ring
  then holds the last \<open>cap\<close> items of its old unread items followed by the source's.
\<close>

theorem RingBuffer_ReadFrom_keeps_last:
  assumes "ring_inv r" "reader_ok s" "length (ahead s) < fuel" "buf_inv b" "length (unread b) < fuel"
  shows "(\<exists>s' r'. RingBuffer_ReadFrom fuel Reader_Read r s = Some (Inr ((int (length (ahead s)), None), s', r'))
      \<and> ahead s' = [] \<and> ring_inv r'
      \<and> pending r' = lastn (length (rb_items r)) (pending r @ ahead s))
    \<and> (\<exists>b' r'. RingBuffer_ReadFrom fuel Buffer_Read r b = Some (Inr ((int (length (unread b)), None), b', r'))
      \<and> unread b' = [] \<and> ring_inv r'
      \<and> pending r' = lastn (length (rb_items r)) (pending r @ unread b))"
  using slice_reader_tidy.RingBuffer_ReadFrom_loop_correct [OF assms(1,2,3), of 0]
    buffer_reader_tidy.RingBuffer_ReadFrom_loop_correct [OF assms(1,4,5), of 0]
  unfolding RingBuffer_ReadFrom_def by fastforce

theorem RingBuffer_ReadFrom_keeps_last_witness:
  "\<exists>s' r'. RingBuffer_ReadFrom 6 Reader_Read (NewRingBuffer int_runtime 3) (NewReader [1, 2, 3, 4, 5])
      = Some (Inr ((5, None), s', r')) \<and> pending r' = [3, 4, 5]"
proof -
  have s: "reader_ok (NewReader [1, 2, 3, 4, 5 :: int])" by (rule reader_ok_New) (simp add: maxInt_def)
  have r: "ring_inv (NewRingBuffer int_runtime 3)" by (rule NewRingBuffer_ok) (simp add: maxInt_def)
  have len: "length (rb_items (NewRingBuffer int_runtime 3)) = 3" by (simp add: NewRingBuffer_def)
  have p: "pending (NewRingBuffer int_runtime 3) = []" by (simp add: NewRingBuffer_def pending_def)
  show ?thesis
    using RingBuffer_ReadFrom_keeps_last [OF r s, where fuel = 6 and b = "zero_Buffer :: int Buffer"] len p
    by (auto simp: reader_ok_New buf_inv_zero lastn_def)
qed

section \<open>Draining into a writer\<close>

text \<open>
  What \<open>WriteTo\<close> hands over: the unread items, but every cell, from the read index round to it,
  when nothing is unread.
\<close>

definition drained :: "'a RingBuffer \<Rightarrow> 'a list" where
  "drained r = (if pending r = [] then rotate (nat (rb_read r)) (rb_items r) else pending r)"

lemma drained_ring:
  assumes "w < length xs" "i < length xs" "f \<longrightarrow> i = w"
  shows "drained (ring f w i xs) = (if i < w then sub xs i w else drop i xs @ take w xs)"
proof -
  have "pending (ring f w i xs) = [] \<longleftrightarrow> \<not> f \<and> i = w"
    using assms by (auto simp: pending_ring sub_def)
  then show ?thesis
    using assms by (auto simp: drained_def pending_ring rotate_drop_take)
qed

context gio_writer
begin

lemma writeTail_correct:
  assumes st: "w < length xs" "i \<le> w" and wr: "writer_inv b"
  shows "case RingBuffer_writeTail write_call (ring f w i xs) b k of
      Inl e \<Rightarrow> e \<in> faults
    | Inr ((n, err), b', r') \<Rightarrow> n = k + int (w - i) \<and> err = None \<and> writer_inv b'
        \<and> got b' = got b @ sub xs i w \<and> r' = ring False w w xs"
proof (cases "write_call b (sub xs i w)")
  case (Inl e)
  then show ?thesis using st write_panic [OF wr Inl]
    by (simp add: RingBuffer_writeTail_def go_simps)
next
  case (Inr out)
  obtain n err b' where out: "out = ((n, err), b')" by (cases out) auto
  from write_ok [OF wr Inr [unfolded out]] st
  have o: "n = int (w - i)" "err = None" "writer_inv b'" "got b' = got b @ sub xs i w" by auto
  have "go_rem (int i + int (w - i)) (int (length xs)) = Inr (int w)"
    using go_rem_cell [of w "length xs"] st by (simp add: cell_def)
  then show ?thesis
    using Inr out o st by (simp add: RingBuffer_writeTail_def go_slice_ok Let_def del: of_nat_diff)
qed

lemma RingBuffer_WriteTo_correct:
  assumes "ring_inv r" and wr: "writer_inv b"
  shows "case RingBuffer_WriteTo write_call r b of
      Inl e \<Rightarrow> e \<in> faults
    | Inr ((n, err), b', r') \<Rightarrow> n = int (length (drained r)) \<and> err = None \<and> writer_inv b'
        \<and> got b' = got b @ drained r \<and> ring_inv r' \<and> pending r' = [] \<and> rb_items r' = rb_items r"
proof -
  obtain f w i xs where r: "r = ring f w i xs" "w < length xs" "i < length xs"
    "int (length xs) \<le> maxInt" "f \<longrightarrow> i = w"
    using assms(1) by (rule ringE)
  have final: "ring_inv (ring False w w xs)" "pending (ring False w w xs) = []"
    using r by (simp_all add: ring_inv_ring pending_ring)
  show ?thesis
  proof (cases "i < w")
    case True
    then have "RingBuffer_WriteTo write_call r b = RingBuffer_writeTail write_call (ring f w i xs) b 0"
      by (simp add: RingBuffer_WriteTo_def r(1))
    then show ?thesis
      using writeTail_correct [OF r(2) _ wr, where i = i and f = f and k = 0] True r final
      by (auto simp: drained_ring split: sum.splits prod.splits)
  next
    case False
    define n where "n = length xs"
    have d: "drained r = drop i xs @ take w xs" using False r by (simp add: drained_ring)
    have s: "go_slice xs (int i) (int n) = Inr (drop i xs)"
      using r by (simp add: go_simps sub_to_end n_def)
    have pos: "go_rem (int i + int (n - i)) (int n) = Inr 0"
      using r go_rem_cell [of n n] by (auto simp: cell_def n_def of_nat_diff dest: gr_implies_not0)
    show ?thesis
    proof (cases "write_call b (drop i xs)")
      case (Inl e)
      then show ?thesis using False write_panic [OF wr Inl]
        by (simp add: RingBuffer_WriteTo_def r(1) s n_def [symmetric])
    next
      case (Inr out)
      obtain k err b1 where out: "out = ((k, err), b1)" by (cases out) auto
      from write_ok [OF wr Inr [unfolded out]]
      have o: "k = int (n - i)" "err = None" "writer_inv b1" "got b1 = got b @ drop i xs"
        by (auto simp: n_def)
      then have "RingBuffer_WriteTo write_call r b
          = RingBuffer_writeTail write_call (ring False w 0 xs) b1 (int (n - i))"
        using False Inr out s pos
        by (simp add: RingBuffer_WriteTo_def r(1) n_def [symmetric] Let_def del: of_nat_diff)
      then show ?thesis
        using writeTail_correct [OF r(2) _ o(3), where i = 0 and f = False and k = "int (n - i)"] r final o(4)
        by (auto simp: d [unfolded r(1)] n_def sub_from_start split: sum.splits prod.splits)
    qed
  qed
qed

end

text \<open>
  C8: \<open>WriteTo\<close> from a ring into a \<open>Buffer\<close> either panics with \<open>ErrBufferTooLarge\<close> or appends the
  ring's unread items to the buffer in order, reports their number and no error, and leaves
  the ring empty; from a ring with nothing unread it appends every (stale) cell instead.
\<close>

theorem RingBuffer_WriteTo_drains:
  assumes "ring_inv r" "runtime_ok rt" "buf_inv b"
  shows "case RingBuffer_WriteTo (Buffer_Write rt) r b of
      Inl e \<Rightarrow> e = PanicErr ErrBufferTooLarge
    | Inr ((n, err), b', r') \<Rightarrow> err = None \<and> pending r' = [] \<and> ring_inv r'
        \<and> (if pending r \<noteq> [] then n = int (length (pending r)) \<and> unread b' = unread b @ pending r
           else n = rb_cap r \<and> unread b' = unread b @ rotate (nat (rb_read r)) (rb_items r))"
  using buffer_writer.RingBuffer_WriteTo_correct [OF assms(1), of rt b] assms(2,3)
  by (auto simp: drained_def split: sum.splits prod.splits)

theorem RingBuffer_WriteTo_drains_witness:
  "\<exists>b' r'. RingBuffer_WriteTo (Buffer_Write int_runtime)
        \<lparr>rb_full = True, rb_write = 1, rb_read = 1, rb_items = [7, 5, 6]\<rparr> zero_Buffer
      = Inr ((3, None), b', r') \<and> unread b' = [5, 6, 7] \<and> pending r' = []"
proof -
  let ?r = "\<lparr>rb_full = True, rb_write = 1, rb_read = 1, rb_items = [7, 5, 6::int]\<rparr>"
  have "\<not> isl (RingBuffer_WriteTo (Buffer_Write int_runtime) ?r zero_Buffer)" by code_simp
  moreover have inv: "ring_inv ?r" and "pending ?r = [5, 6, 7]"
    by (simp_all add: ring_inv_def maxInt_def pending_def)
  ultimately show ?thesis
    using RingBuffer_WriteTo_drains [OF inv int_runtime_ok(1) buf_inv_zero(1)] buf_inv_zero(2)
    by (auto split: sum.splits prod.splits)
qed

end
