(* ===== verification/RingFilter.thy ===== *)
theory RingFilter
  imports RingStream
begin

text \<open>
  \<open>ringfilter.go\<close>: \<open>RingFilter[T]\<close>, a ring that also hands everything written to a client's
  function \<open>fn\<close>, which may refuse it with an error.  The function is a parameter: a map from its
  state (whatever the closure captures) and the items to the error and the new state.  It gets the
  caller's slice, or the cells just filled, and is taken to only read them.  The operations are
  those of the source; the theorems relate them to the ring buffer's.
\<close>

section \<open>State\<close>

type_synonym ('s, 'a) filter_fn = "'s \<Rightarrow> 'a list \<Rightarrow> go_panic + (go_error option \<times> 's)"

record 'a RingFilter =
  rf_full :: bool
  rf_write :: int
  rf_read :: int
  rf_items :: "'a list"

definition unimplementedFilter :: "('s, 'a) filter_fn" where
  "unimplementedFilter s p = Inr (None, s)"

definition NewRingFilter ::
  "'a runtime \<Rightarrow> int \<Rightarrow> ('s, 'a) filter_fn option \<Rightarrow> 'a RingFilter \<times> ('s, 'a) filter_fn" where
  "NewRingFilter rt sz fn =
     (let sz = (if sz \<le> 0 then defaultBufferSize else sz);
          fn = (case fn of None \<Rightarrow> unimplementedFilter | Some f \<Rightarrow> f)
      in (\<lparr>rf_full = False, rf_write = 0, rf_read = 0,
           rf_items = replicate (nat sz) (zero_val rt)\<rparr>, fn))"

abbreviation rf_cap :: "'a RingFilter \<Rightarrow> int" where
  "rf_cap r \<equiv> int (length (rf_items r))"

section \<open>Writing\<close>

definition RingFilter_writeWithinBounds ::
  "('s, 'a) filter_fn \<Rightarrow> 'a RingFilter \<Rightarrow> 's \<Rightarrow> 'a list \<Rightarrow> int
   \<Rightarrow> go_panic + ((int \<times> go_error option) \<times> 's \<times> 'a RingFilter)" where
  "RingFilter_writeWithinBounds fn r s p end =
     andThen (go_copy (rf_items r) (rf_write r) end p) (\<lambda>(n, items).
     andThen (fn s p) (\<lambda>(err, s').
       let r1 = r\<lparr>rf_items := items\<rparr>;
           r2 = (if rf_write r1 < rf_read r1 \<and> end \<ge> rf_read r1 then r1\<lparr>rf_full := True\<rparr> else r1);
           r3 = r2\<lparr>rf_write := end\<rparr>;
           r4 = (if rf_full r3 then r3\<lparr>rf_read := end\<rparr> else r3)
       in Inr (if err \<noteq> None then (n, err) else (n, None), s', r4)))"

definition RingFilter_writeWrapped ::
  "('s, 'a) filter_fn \<Rightarrow> 'a RingFilter \<Rightarrow> 's \<Rightarrow> 'a list \<Rightarrow> int
   \<Rightarrow> go_panic + ((int \<times> go_error option) \<times> 's \<times> 'a RingFilter)" where
  "RingFilter_writeWrapped fn r s p end =
     andThen (go_rem end (rf_cap r)) (\<lambda>endWrapped.
     andThen (go_copy (rf_items r) (rf_write r) (rf_cap r) p) (\<lambda>(n1, items1).
     andThen (go_slice p n1 (int (length p))) (\<lambda>p2.
     andThen (go_copy items1 0 endWrapped p2) (\<lambda>(n2, items2).
     andThen (fn s p) (\<lambda>(err, s').
       let r1 = r\<lparr>rf_items := items2\<rparr>;
           r2 = (if rf_write r1 < rf_read r1 \<and> end \<ge> rf_read r1 then r1\<lparr>rf_full := True\<rparr> else r1);
           r3 = r2\<lparr>rf_write := endWrapped\<rparr>;
           r4 = (if rf_full r3 \<or> endWrapped \<ge> rf_read r3
                 then r3\<lparr>rf_read := rf_write r3, rf_full := True\<rparr> else r3)
       in Inr (if err \<noteq> None then (n1 + n2, err) else (n1 + n2, None), s', r4))))))"

definition RingFilter_writeWithinCapacity ::
  "('s, 'a) filter_fn \<Rightarrow> 'a RingFilter \<Rightarrow> 's \<Rightarrow> 'a list
   \<Rightarrow> go_panic + ((int \<times> go_error option) \<times> 's \<times> 'a RingFilter)" where
  "RingFilter_writeWithinCapacity fn r s p =
     (let end = rf_write r + int (length p)
      in if end < rf_cap r then RingFilter_writeWithinBounds fn r s p end
         else RingFilter_writeWrapped fn r s p end)"

definition RingFilter_Write ::
  "('s, 'a) filter_fn \<Rightarrow> 'a RingFilter \<Rightarrow> 's \<Rightarrow> 'a list
   \<Rightarrow> go_panic + ((int \<times> go_error option) \<times> 's \<times> 'a RingFilter)" where
  "RingFilter_Write fn r s p =
     (let ln = int (length p); ringLn = rf_cap r
      in if ln < ringLn then RingFilter_writeWithinCapacity fn r s p
         else
           andThen (go_slice p (ln - ringLn) ln) (\<lambda>src.
           andThen (go_copy (rf_items r) 0 ringLn src) (\<lambda>(_, items).
             let r1 = r\<lparr>rf_items := items, rf_read := rf_write r, rf_full := True\<rparr>
             in andThen (fn s p) (\<lambda>(err, s').
                  if err \<noteq> None then Inr ((0, err), s', r1) else Inr ((ringLn, None), s', r1)))))"

definition RingFilter_WriteItem ::
  "('s, 'a) filter_fn \<Rightarrow> 'a RingFilter \<Rightarrow> 's \<Rightarrow> 'a
   \<Rightarrow> go_panic + (go_error option \<times> 's \<times> 'a RingFilter)" where
  "RingFilter_WriteItem fn r s item =
     andThen (go_rem (rf_write r + 1) (rf_cap r)) (\<lambda>pos.
       let r1 = (if rf_full r then r\<lparr>rf_read := pos\<rparr>
                 else if pos = rf_read r then r\<lparr>rf_full := True\<rparr> else r)
       in andThen (go_update (rf_items r1) (rf_write r1) item) (\<lambda>items.
          andThen (fn s [item]) (\<lambda>(err, s').
            Inr (err, s', r1\<lparr>rf_items := items, rf_write := pos\<rparr>))))"

section \<open>Reading\<close>

definition RingFilter_Len :: "'a RingFilter \<Rightarrow> go_panic + int" where
  "RingFilter_Len r =
     (if rf_full r then Inr (rf_cap r)
      else go_rem (rf_cap r + (rf_write r - rf_read r)) (rf_cap r))"

definition RingFilter_Cap :: "'a RingFilter \<Rightarrow> int" where
  "RingFilter_Cap r = rf_cap r"

definition RingFilter_Read ::
  "'a RingFilter \<Rightarrow> 'a list
   \<Rightarrow> go_panic + ((int \<times> go_error option \<times> 'a list) \<times> 'a RingFilter)" where
  "RingFilter_Read r p =
     (let itemLen = int (length p)
      in andThen (if itemLen = 0 then Inr True else andThen (RingFilter_Len r) (\<lambda>l. Inr (l = 0)))
         (\<lambda>nothing.
           if nothing then Inr ((0, None, p), r)
           else if rf_read r \<ge> rf_write r then
             andThen (go_slice (rf_items r) (rf_read r) (rf_cap r)) (\<lambda>src.
             andThen (go_copy p 0 itemLen src) (\<lambda>(n, p1).
               let r1 = r\<lparr>rf_full := False\<rparr>
               in if n \<ge> itemLen then
                    andThen (go_rem (rf_read r1 + n) (rf_cap r1)) (\<lambda>pos.
                      Inr ((n, None, p1), r1\<lparr>rf_read := pos\<rparr>))
                  else
                    andThen (go_slice (rf_items r1) 0 (rf_write r1)) (\<lambda>src2.
                    andThen (go_copy p1 n itemLen src2) (\<lambda>(n2, p2).
                    andThen (go_rem (rf_read r1 + (n + n2)) (rf_cap r1)) (\<lambda>pos.
                      Inr ((n + n2, None, p2), r1\<lparr>rf_read := pos\<rparr>))))))
           else
             andThen (go_slice (rf_items r) (rf_read r) (rf_write r)) (\<lambda>src.
             andThen (go_copy p 0 itemLen src) (\<lambda>(n, p1).
               Inr ((n, None, p1), r\<lparr>rf_read := rf_read r + n\<rparr>)))))"

definition RingFilter_Value ::
  "'a runtime \<Rightarrow> 'a RingFilter \<Rightarrow> go_panic + ('a list \<times> 'a RingFilter)" where
  "RingFilter_Value rt r =
     (if rf_read r < rf_write r then
        (let fresh = replicate (nat (rf_write r - rf_read r)) (zero_val rt)
         in andThen (go_slice (rf_items r) (rf_read r) (rf_write r)) (\<lambda>src.
            andThen (go_copy fresh 0 (int (length fresh)) src) (\<lambda>(_, items).
              Inr (items, r\<lparr>rf_read := rf_write r\<rparr>))))
      else
        (let fresh = replicate (nat (rf_cap r)) (zero_val rt)
         in if rf_read r = 0 then
              andThen (go_copy fresh 0 (int (length fresh)) (rf_items r)) (\<lambda>(_, items).
                Inr (items, r))
            else
              andThen (go_slice (rf_items r) (rf_read r) (rf_cap r)) (\<lambda>src1.
              andThen (go_copy fresh 0 (rf_cap r - rf_read r) src1) (\<lambda>(_, items1).
              andThen (go_slice (rf_items r) 0 (rf_read r)) (\<lambda>src2.
              andThen (go_copy items1 (rf_cap r - rf_read r) (rf_cap r) src2) (\<lambda>(_, items2).
                Inr (items2, r)))))))"

definition RingFilter_Reset :: "'a runtime \<Rightarrow> 'a RingFilter \<Rightarrow> 'a RingFilter" where
  "RingFilter_Reset rt r =
     r\<lparr>rf_read := 0, rf_write := 0, rf_items := map (\<lambda>_. zero_val rt) (rf_items r)\<rparr>"

definition RingFilter_Truncate ::
  "'a runtime \<Rightarrow> 'a RingFilter \<Rightarrow> int \<Rightarrow> go_panic + 'a RingFilter" where
  "RingFilter_Truncate rt r n =
     andThen (if n \<le> 0 then Inr True else andThen (RingFilter_Len r) (\<lambda>l. Inr (n > l))) (\<lambda>reset.
       if reset then Inr (RingFilter_Reset rt r)
       else
         andThen (go_copy (rf_items r) (rf_read r) (rf_read r + n)
                    (replicate (nat n) (zero_val rt))) (\<lambda>(_, items).
           Inr (r\<lparr>rf_items := items\<rparr>)))"

definition RingFilter_Next ::
  "'a runtime \<Rightarrow> 'a RingFilter \<Rightarrow> int \<Rightarrow> go_panic + ('a list \<times> 'a RingFilter)" where
  "RingFilter_Next rt r n =
     (if n \<le> 0 then Inr ([], r)
      else andThen (RingFilter_Len r) (\<lambda>l.
        if n > l then RingFilter_Value rt r
        else andThen (RingFilter_Read r (replicate (nat n) (zero_val rt))) (\<lambda>((_, err, items), r1).
               if err \<noteq> None then Inr ([], r1) else Inr (items, r1))))"

definition RingFilter_UnreadItem ::
  "'a RingFilter \<Rightarrow> go_panic + (go_error option \<times> 'a RingFilter)" where
  "RingFilter_UnreadItem r =
     (if rf_read r = rf_write r then Inr (Some ErrRingFilterUnreadItem, r)
      else andThen (go_rem (rf_read r - 1) (rf_cap r)) (\<lambda>pos. Inr (None, r\<lparr>rf_read := pos\<rparr>)))"

definition RingFilter_ReadItems ::
  "('a \<Rightarrow> bool) \<Rightarrow> 'a RingFilter \<Rightarrow> go_panic + (('a list \<times> go_error option) \<times> 'a RingFilter)" where
  "RingFilter_ReadItems delim r =
     andThen
       (if rf_read r \<ge> rf_write r then
          andThen (scan_items delim (rf_items r) (rf_read r) (rf_cap r) []) (\<lambda>(broke, line).
            if broke then Inr line
            else andThen (scan_items delim (rf_items r) 0 (rf_write r) line) (\<lambda>(_, line). Inr line))
        else andThen (scan_items delim (rf_items r) 0 (rf_write r) []) (\<lambda>(_, line). Inr line))
       (\<lambda>line.
         if line = [] then Inr (([], None), r)
         else andThen (go_rem (rf_read r + int (length line)) (rf_cap r)) (\<lambda>pos.
                Inr ((line, None), r\<lparr>rf_read := pos, rf_full := False\<rparr>)))"

definition RingFilter_ReadItem ::
  "'a RingFilter \<Rightarrow> go_panic + (('a \<times> go_error option) \<times> 'a RingFilter)" where
  "RingFilter_ReadItem r =
     andThen (go_index (rf_items r) (rf_read r)) (\<lambda>item.
     andThen (go_rem (rf_read r + 1) (rf_cap r)) (\<lambda>pos.
       Inr ((item, None), r\<lparr>rf_read := pos, rf_full := False\<rparr>)))"

definition RingFilter_Seek ::
  "'a RingFilter \<Rightarrow> int \<Rightarrow> int \<Rightarrow> go_panic + ((int \<times> go_error option) \<times> 'a RingFilter)" where
  "RingFilter_Seek r offset whence =
     (if whence = io_SeekEnd then
        andThen (go_rem (wrap64 (rf_write r + offset)) (rf_cap r)) (\<lambda>pos.
          Inr ((pos, None), r\<lparr>rf_read := pos\<rparr>))
      else if whence = io_SeekCurrent \<or> whence = io_SeekStart then
        andThen (go_rem (wrap64 (rf_read r + offset)) (rf_cap r)) (\<lambda>pos.
          Inr ((pos, None), r\<lparr>rf_read := pos\<rparr>))
      else Inr ((0, Some ErrRingFilterInvalidWhence), r))"

section \<open>ReadFrom and WriteTo\<close>

text \<open>
  The loop of \<open>ReadFrom\<close>, as for the ring buffer; \<open>fn\<close> gets the cells just filled, before the
  write index moves past them.
\<close>

fun RingFilter_ReadFrom_loop ::
  "nat \<Rightarrow> ('s, 'a) filter_fn \<Rightarrow> ('r, 'a) reader_fn \<Rightarrow> 'a RingFilter \<Rightarrow> 's \<Rightarrow> 'r \<Rightarrow> int
   \<Rightarrow> (go_panic + ((int \<times> go_error option) \<times> 'r \<times> 's \<times> 'a RingFilter)) option" where
  "RingFilter_ReadFrom_loop 0 fn rd r s b n = None"
| "RingFilter_ReadFrom_loop (Suc fuel) fn rd r s b n =
     stepThen (go_slice (rf_items r) (rf_write r) (rf_cap r)) (\<lambda>p.
     stepThen (rd b p) (\<lambda>((num, err, q), b').
       let r0 = r\<lparr>rf_items := overlay (rf_items r) (nat (rf_write r)) q\<rparr>
       in if num < 0 then Some (Inr ((n, Some ErrRingFilterNegativeRead), b', s, r0))
          else
            (let r1 = (if rf_write r0 < rf_read r0 \<and> rf_write r0 + num \<ge> rf_read r0
                       then r0\<lparr>rf_full := True\<rparr> else r0)
             in if is_err err EOF then Some (Inr ((n, None), b', s, r1))
                else if err \<noteq> None then Some (Inr ((n, err), b', s, r1))
                else
                  (let r2 = (if rf_cap r1 - (rf_write r1 - rf_read r1) = num
                             then r1\<lparr>rf_full := True, rf_read := rf_write r1\<rparr> else r1)
                   in stepThen (go_slice (rf_items r2) (rf_write r2) (rf_write r2 + num)) (\<lambda>chunk.
                      stepThen (fn s chunk) (\<lambda>(errFilter, s').
                        if errFilter \<noteq> None then Some (Inr ((n + num, errFilter), b', s', r2))
                        else
                          stepThen (go_rem (rf_write r2 + num) (rf_cap r2)) (\<lambda>pos.
                            let r3 = r2\<lparr>rf_write := pos\<rparr>;
                                r4 = (if rf_full r3 then r3\<lparr>rf_read := rf_write r3\<rparr> else r3)
                            in RingFilter_ReadFrom_loop fuel fn rd r4 s' b' (n + num))))))))"

definition RingFilter_ReadFrom ::
  "nat \<Rightarrow> ('s, 'a) filter_fn \<Rightarrow> ('r, 'a) reader_fn \<Rightarrow> 'a RingFilter \<Rightarrow> 's \<Rightarrow> 'r
   \<Rightarrow> (go_panic + ((int \<times> go_error option) \<times> 'r \<times> 's \<times> 'a RingFilter)) option" where
  "RingFilter_ReadFrom fuel fn rd r s b = RingFilter_ReadFrom_loop fuel fn rd r s b 0"

text \<open>The second write of \<open>WriteTo\<close>, which the first falls through to.\<close>

definition RingFilter_writeTail ::
  "('w, 'a) writer_fn \<Rightarrow> 'a RingFilter \<Rightarrow> 'w \<Rightarrow> int
   \<Rightarrow> go_panic + ((int \<times> go_error option) \<times> 'w \<times> 'a RingFilter)" where
  "RingFilter_writeTail wr r w n =
     andThen (go_slice (rf_items r) (rf_read r) (rf_write r)) (\<lambda>p.
     andThen (wr w p) (\<lambda>((num, err), w').
       if num < 0 then Inr ((n, Some ErrRingFilterNegativeRead), w', r)
       else
         andThen (go_rem (rf_read r + num) (rf_cap r)) (\<lambda>pos.
           let r1 = r\<lparr>rf_full := False, rf_read := pos\<rparr>
           in if is_err err EOF then Inr ((n + num, None), w', r1)
              else if err \<noteq> None then Inr ((n + num, err), w', r1)
              else Inr ((n + num, None), w', r1))))"

definition RingFilter_WriteTo ::
  "('w, 'a) writer_fn \<Rightarrow> 'a RingFilter \<Rightarrow> 'w
   \<Rightarrow> go_panic + ((int \<times> go_error option) \<times> 'w \<times> 'a RingFilter)" where
  "RingFilter_WriteTo wr r w =
     (if rf_read r \<ge> rf_write r then
        andThen (go_slice (rf_items r) (rf_read r) (rf_cap r)) (\<lambda>p.
        andThen (wr w p) (\<lambda>((num, err), w').
          if num < 0 then Inr ((0, Some ErrRingFilterNegativeRead), w', r)
          else
            andThen (go_rem (rf_read r + num) (rf_cap r)) (\<lambda>pos.
              let r1 = r\<lparr>rf_full := False, rf_read := pos\<rparr>
              in if is_err err EOF then Inr ((num, None), w', r1)
                 else if err \<noteq> None then Inr ((num, err), w', r1)
                 else RingFilter_writeTail wr r1 w' num)))
      else RingFilter_writeTail wr r w 0)"

section \<open>The filter is a ring buffer with an observer\<close>

definition as_ring :: "'a RingFilter \<Rightarrow> 'a RingBuffer" where
  "as_ring r = \<lparr>rb_full = rf_full r, rb_write = rf_write r, rb_read = rf_read r, rb_items = rf_items r\<rparr>"

definition of_ring :: "'a RingBuffer \<Rightarrow> 'a RingFilter" where
  "of_ring r = \<lparr>rf_full = rb_full r, rf_write = rb_write r, rf_read = rb_read r, rf_items = rb_items r\<rparr>"

lemma of_as_ring [simp]: "of_ring (as_ring r) = r" "as_ring (of_ring r') = r'"
  by (simp_all add: as_ring_def of_ring_def)

lemma of_ring_simps [simp]:
  "rf_full (of_ring r) = rb_full r" "rf_write (of_ring r) = rb_write r"
  "rf_read (of_ring r) = rb_read r" "rf_items (of_ring r) = rb_items r"
  by (simp_all add: of_ring_def)

text \<open>A step of the filter, seen on the ring.\<close>

definition on_ring :: "go_panic + ('b \<times> 'a RingFilter) \<Rightarrow> go_panic + ('b \<times> 'a RingBuffer)" where
  "on_ring m = andThen m (\<lambda>(out, r). Inr (out, as_ring r))"

lemma on_ring_Inl [simp]: "on_ring (Inl e) = Inl e"
  by (simp add: on_ring_def)

lemma on_ring_Inr [simp]: "on_ring (Inr (out, r)) = Inr (out, as_ring r)"
  by (simp add: on_ring_def)

lemma on_ring_andThen: "on_ring (andThen m f) = andThen m (\<lambda>x. on_ring (f x))"
  by (simp add: on_ring_def andThen_assoc)

lemma on_ring_if: "on_ring (if b then x else y) = (if b then on_ring x else on_ring y)"
  by simp

lemma on_ring_Read: "on_ring (RingFilter_Read r p) = RingBuffer_Read (as_ring r) p"
  unfolding RingFilter_Read_def RingBuffer_Read_def RingFilter_Len_def RingBuffer_Len_def Let_def
  by (simp add: as_ring_def on_ring_andThen on_ring_if split_def cong: if_cong)


lemma on_ring_Value: "on_ring (RingFilter_Value rt r) = RingBuffer_Value rt (as_ring r)"
  unfolding RingFilter_Value_def RingBuffer_Value_def Let_def
  by (simp add: as_ring_def on_ring_andThen on_ring_if split_def cong: if_cong)

lemma Len_as_ring: "RingFilter_Len r = RingBuffer_Len (as_ring r)"
  by (simp add: RingFilter_Len_def RingBuffer_Len_def as_ring_def)

lemma on_ring_Next: "on_ring (RingFilter_Next rt r n) = RingBuffer_Next rt (as_ring r) n"
proof -
  have "on_ring (andThen (RingFilter_Read r p) (\<lambda>((k, err, q), r1). if err \<noteq> None then Inr ([], r1) else Inr (q, r1)))
      = andThen (RingBuffer_Read (as_ring r) p) (\<lambda>((k, err, q), r1). if err \<noteq> None then Inr ([], r1) else Inr (q, r1))"
    for p
    unfolding on_ring_Read [symmetric]
    by (simp add: on_ring_def andThen_assoc split_def cong: if_cong) (simp add: andThen_def split: sum.split)
  then show ?thesis
    unfolding RingFilter_Next_def RingBuffer_Next_def Len_as_ring
    by (simp add: on_ring_andThen on_ring_if on_ring_Value cong: if_cong)
qed

lemma on_ring_ReadItems: "on_ring (RingFilter_ReadItems d r) = RingBuffer_ReadItems d (as_ring r)"
  unfolding RingFilter_ReadItems_def RingBuffer_ReadItems_def
  by (simp add: as_ring_def on_ring_andThen on_ring_if split_def cong: if_cong)

lemma on_ring_ReadItem: "on_ring (RingFilter_ReadItem r) = RingBuffer_ReadItem (as_ring r)"
  unfolding RingFilter_ReadItem_def RingBuffer_ReadItem_def Let_def
  by (simp add: as_ring_def on_ring_andThen)

lemma on_ring_Seek: "on_ring (RingFilter_Seek r o' wh) = RingBuffer_Seek (as_ring r) o' wh"
  unfolding RingFilter_Seek_def RingBuffer_Seek_def
  by (simp add: as_ring_def on_ring_andThen on_ring_if cong: if_cong)

text \<open>
  Reading from a filter is reading from the ring buffer with the same cells and indexes:
  \<open>Len\<close>, \<open>Read\<close>, \<open>Next\<close>, \<open>Value\<close>, \<open>ReadItem\<close>, \<open>ReadItems\<close> and \<open>Seek\<close> give the same results, the
  same panics and the same next state, on every state.
\<close>

theorem RingFilter_reads_as_RingBuffer:
  "RingFilter_Len r = RingBuffer_Len (as_ring r)
   \<and> on_ring (RingFilter_Read r p) = RingBuffer_Read (as_ring r) p
   \<and> on_ring (RingFilter_Next rt r n) = RingBuffer_Next rt (as_ring r) n
   \<and> on_ring (RingFilter_Value rt r) = RingBuffer_Value rt (as_ring r)
   \<and> on_ring (RingFilter_ReadItem r) = RingBuffer_ReadItem (as_ring r)
   \<and> on_ring (RingFilter_ReadItems d r) = RingBuffer_ReadItems d (as_ring r)
   \<and> on_ring (RingFilter_Seek r pos whence) = RingBuffer_Seek (as_ring r) pos whence"
  by (simp only: Len_as_ring on_ring_Read on_ring_Next on_ring_Value on_ring_ReadItem
      on_ring_ReadItems on_ring_Seek simp_thms)

text \<open>Writing: the ring's new state does not depend on what \<open>fn\<close> answers.\<close>

lemma RingFilter_Write_as_ring:
  assumes "fn s p = Inr (err, s')" "RingBuffer_Write (as_ring r) p = Inr ((n, e), r')"
  shows "RingFilter_Write fn r s p =
    Inr ((if err \<noteq> None \<and> length (rf_items r) \<le> length p then 0 else n, err), s', of_ring r')"
proof (cases "length p < length (rf_items r)")
  case True
  then show ?thesis
    using assms
    by (auto simp: RingFilter_Write_def RingBuffer_Write_def RingFilter_writeWithinCapacity_def
        RingBuffer_writeWithinCapacity_def RingFilter_writeWithinBounds_def
        RingBuffer_writeWithinBounds_def RingFilter_writeWrapped_def RingBuffer_writeWrapped_def
        as_ring_def of_ring_def andThen_eq_Inr Let_def split: if_splits)
next
  case False
  then show ?thesis
    using assms
    by (auto simp: RingFilter_Write_def RingBuffer_Write_def as_ring_def of_ring_def andThen_eq_Inr Let_def)
qed

lemma RingFilter_WriteItem_as_ring:
  assumes "fn s [x] = Inr (err, s')" "RingBuffer_WriteItem (as_ring r) x = Inr (e, r')"
  shows "RingFilter_WriteItem fn r s x = Inr (err, s', of_ring r')"
  using assms
  by (auto simp: RingFilter_WriteItem_def RingBuffer_WriteItem_def as_ring_def of_ring_def
      andThen_eq_Inr Let_def split: if_splits)

text \<open>
  C16: Where the function \<open>fn\<close> does not panic on them, \<open>Write\<close> of a filter that meets the invariant
  hands its whole argument (not the unread items, as the comment has it) to \<open>fn\<close> once and returns
  \<open>fn\<close>'s error, and stores the items whatever \<open>fn\<close> answers: a short write appends to the bounded
  queue and counts its items, a write of the capacity or more leaves the last \<open>cap\<close> items in the
  cells and counts \<open>cap\<close> items, or none when \<open>fn\<close> refused them (the comment says the length of \<open>p\<close>).
  \<open>WriteItem\<close> hands over its one item, stores it likewise and returns \<open>fn\<close>'s error, which the comment
  says is always nil.
\<close>

theorem RingFilter_Write_filters:
  assumes "ring_inv (as_ring r)" "fn s p = Inr (err, s')" "fn s [x] = Inr (err1, s1)"
  shows "(\<exists>r'. RingFilter_Write fn r s p =
        Inr ((if length p < length (rf_items r) then int (length p)
              else if err = None then rf_cap r else 0, err), s', r')
      \<and> ring_inv (as_ring r')
      \<and> (if length p < length (rf_items r)
         then pending (as_ring r') = lastn (length (rf_items r)) (pending (as_ring r) @ p)
         else rf_items r' = lastn (length (rf_items r)) p))
    \<and> (\<exists>r'. RingFilter_WriteItem fn r s x = Inr (err1, s1, r') \<and> ring_inv (as_ring r')
      \<and> pending (as_ring r') = lastn (length (rf_items r)) (pending (as_ring r) @ [x]))"
proof
  have cells: "rb_items (as_ring r) = rf_items r" by (simp add: as_ring_def)
  show "\<exists>r'. RingFilter_WriteItem fn r s x = Inr (err1, s1, r') \<and> ring_inv (as_ring r')
      \<and> pending (as_ring r') = lastn (length (rf_items r)) (pending (as_ring r) @ [x])"
    using RingBuffer_WriteItem_ok [OF assms(1), of x] RingFilter_WriteItem_as_ring [where r = r and fn = fn and s = s and x = x, OF assms(3)] cells
    by (metis of_as_ring(2))
  show "\<exists>r'. RingFilter_Write fn r s p =
        Inr ((if length p < length (rf_items r) then int (length p)
              else if err = None then rf_cap r else 0, err), s', r')
      \<and> ring_inv (as_ring r')
      \<and> (if length p < length (rf_items r)
         then pending (as_ring r') = lastn (length (rf_items r)) (pending (as_ring r) @ p)
         else rf_items r' = lastn (length (rf_items r)) p)"
  proof (cases "length p < length (rf_items r)")
    case True
    then obtain r' where "RingBuffer_Write (as_ring r) p = Inr ((int (length p), None), r')" "ring_inv r'"
      "pending r' = lastn (length (rf_items r)) (pending (as_ring r) @ p)"
      using RingBuffer_Write_ok [OF assms(1), of p] cells by metis
    with RingFilter_Write_as_ring [where r = r and fn = fn and s = s and p = p, OF assms(2)] True show ?thesis
      by (intro exI [of _ "of_ring r'"]) simp
  next
    case False
    obtain f w i xs where r: "as_ring r = ring f w i xs" "w < length xs" "int (length xs) \<le> maxInt"
      using assms(1) by (rule ringE)
    have [simp]: "rf_items r = xs" using r(1) cells by simp
    from False Write_full_ring [of xs p f w i] RingFilter_Write_as_ring [where r = r and fn = fn and s = s and p = p, OF assms(2)]
    show ?thesis
      by (intro exI [of _ "of_ring (ring True w w (lastn (length xs) p))"])
        (simp add: r ring_inv_ring)
  qed
qed

text \<open>A filter whose function keeps what it accepts and refuses any batch with a negative item.\<close>

definition keep_nonneg :: "(int list, int) filter_fn" where
  "keep_nonneg s p = Inr (if list_all (\<lambda>x. 0 \<le> x) p then (None, s @ p) else (Some (Sentinel ''negative''), s))"

theorem RingFilter_Write_filters_witness:
  "\<exists>r'. RingFilter_Write keep_nonneg (fst (NewRingFilter int_runtime 3 (Some keep_nonneg))) [9] [4, -1]
      = Inr ((2, Some (Sentinel ''negative'')), [9], r') \<and> pending (as_ring r') = [4, -1]"
proof -
  let ?r = "fst (NewRingFilter int_runtime 3 (Some keep_nonneg))"
  have "ring_inv (as_ring ?r)" "pending (as_ring ?r) = []" "length (rf_items ?r) = 3"
    by (simp_all add: NewRingFilter_def as_ring_def ring_inv_def pending_def maxInt_def)
  then show ?thesis
    using RingFilter_Write_filters [of ?r keep_nonneg "[9]" "[4, -1]" "Some (Sentinel ''negative'')" "[9]" 1 None "[9, 1]"]
    by (auto simp: keep_nonneg_def lastn_def)
qed

text \<open>
  \<open>Reset\<close> of a filter forgets to clear \<open>full\<close>: reset of a full filter leaves a full one, whose
  unread items are \<open>cap\<close> zero values; only a filter that is not full becomes empty.
\<close>

theorem RingFilter_Reset_keeps_full:
  assumes "ring_inv (as_ring r)"
  shows "pending (as_ring (RingFilter_Reset rt r)) =
    (if rf_full r then replicate (length (rf_items r)) (zero_val rt) else [])"
  using assms by (auto simp: RingFilter_Reset_def as_ring_def pending_def map_replicate_const)

theorem RingFilter_Reset_keeps_full_witness:
  "pending (as_ring (RingFilter_Reset int_runtime
      \<lparr>rf_full = True, rf_write = 1, rf_read = 1, rf_items = [4, 5]\<rparr>)) = [0, 0]"
  using RingFilter_Reset_keeps_full [of "\<lparr>rf_full = True, rf_write = 1, rf_read = 1, rf_items = [4, 5]\<rparr>" int_runtime]
  by (simp add: as_ring_def ring_inv_def maxInt_def int_runtime_def numeral_2_eq_2)

section \<open>Filling from a reader\<close>

lemma RingFilter_ReadFrom_round:
  assumes st: "w < length xs" "i < length xs" "f \<longrightarrow> i = w"
    and rd: "rd b (drop w xs) = Inr ((int n, None, q), b')"
    and q: "length q = length xs - w" "n \<le> length xs - w" "drop n q = drop n (drop w xs)"
    and fn: "fn s (take n q) = Inr (err, s')"
  shows "err = None \<Longrightarrow> RingFilter_ReadFrom_loop (Suc fuel) fn rd (of_ring (ring f w i xs)) s b k =
      RingFilter_ReadFrom_loop fuel fn rd (of_ring (after_write f w i xs (take n q))) s' b' (k + int n)"
    and "err \<noteq> None \<Longrightarrow>
      \<exists>r. RingFilter_ReadFrom_loop (Suc fuel) fn rd (of_ring (ring f w i xs)) s b k =
        Some (Inr ((k + int n, err), b', s', r)) \<and> rf_write r = int w"
proof -
  define N where "N = length xs"
  define ys where "ys = written_cells xs w (take n q)"
  have lq: "length (take n q) = n" using q by simp
  have ov: "overlay xs w q = ys"
    using overlay_read [of w "drop w xs" xs q n] st q by (simp add: ys_def)
  have [simp]: "length ys = N" by (simp add: ys_def N_def)
  have s: "go_slice xs (int w) (int N) = Inr (drop w xs)"
    using st by (simp add: go_simps sub_to_end N_def)
  have "sub ys w (w + n) = take n q"
    using st q unfolding ov [symmetric] by (subst overlay_sub) simp_all
  then have chunk: "go_slice ys (int w) (int w + int n) = Inr (take n q)"
    using st q by (simp add: go_slice_def ys_def nat_add_distrib)
  have r: "go_rem (int w + int n) (int N) = Inr (int (cell N (w + n)))"
    using go_rem_cell [of "w + n" N] st q by (simp add: N_def)
  have aw: "after_write f w i xs (take n q) =
      (if N \<le> held f w i N + n then ring True (cell N (w + n)) (cell N (w + n)) ys
       else ring False (cell N (w + n)) i ys)"
    unfolding after_write_def Let_def lq ys_def N_def by simp
  have fills: "N \<le> held f w i N + n \<longleftrightarrow>
      f \<or> (w < i \<and> i \<le> w + n) \<or> int N - (int w - int i) = int n"
    using st q by (auto simp: held_def N_def)
  show "RingFilter_ReadFrom_loop (Suc fuel) fn rd (of_ring (ring f w i xs)) s b k =
      RingFilter_ReadFrom_loop fuel fn rd (of_ring (after_write f w i xs (take n q))) s' b' (k + int n)"
    if "err = None"
    unfolding aw fills using s r rd fn chunk that
    by (auto simp: N_def [symmetric] ov Let_def of_ring_def)
  show "\<exists>r. RingFilter_ReadFrom_loop (Suc fuel) fn rd (of_ring (ring f w i xs)) s b k =
        Some (Inr ((k + int n, err), b', s', r)) \<and> rf_write r = int w"
    if "err \<noteq> None"
    using s r rd fn chunk that
    by (auto simp: N_def [symmetric] ov Let_def of_ring_def)
qed

text \<open>Handing batches to the function one after another, until it refuses one.\<close>

fun filter_feed :: "('s, 'a) filter_fn \<Rightarrow> 's \<Rightarrow> 'a list list \<Rightarrow> go_panic + (go_error option \<times> 's)" where
  "filter_feed fn s [] = Inr (None, s)"
| "filter_feed fn s (c # cs) =
     andThen (fn s c) (\<lambda>(err, s'). if err = None then filter_feed fn s' cs else Inr (err, s'))"

context gio_tidy_reader
begin

lemma RingFilter_ReadFrom_loop_correct:
  fixes fn :: "('s, 'a) filter_fn"
  assumes fn: "\<And>s p. \<not> isl (fn s p)"
  shows "ring_inv r \<Longrightarrow> reader_inv b \<Longrightarrow> length (rest b) < fuel \<Longrightarrow>
    \<exists>e b' s' r' chunks s1. RingFilter_ReadFrom_loop fuel fn read_call (of_ring r) s b k
        = Some (Inr ((k + int (length (concat chunks)), e), b', s', r'))
      \<and> concat chunks @ rest b' = rest b
      \<and> filter_feed fn s chunks = Inr (e, s') \<and> filter_feed fn s (butlast chunks) = Inr (None, s1)
      \<and> (e = None \<longrightarrow> rest b' = [] \<and> ring_inv (as_ring r') \<and> length (rf_items r') = length (rb_items r)
           \<and> pending (as_ring r') = lastn (length (rb_items r)) (pending r @ rest b))"
proof (induction fuel arbitrary: r b k s)
  case (Suc fuel)
  obtain f w i xs where r: "r = ring f w i xs" "w < length xs" "i < length xs"
    "int (length xs) \<le> maxInt" "f \<longrightarrow> i = w"
    using Suc.prems(1) by (rule ringE)
  have p: "drop w xs \<noteq> []" using r by simp
  obtain res b1 where call: "read_call b (drop w xs) = Inr (res, b1)" "reader_inv b1"
    "read_outcome (drop w xs) (rest b) res (rest b1)"
    using read_ok [OF Suc.prems(2) p] by metis
  from call(3) show ?case
  proof (cases rule: read_outcomeE)
    case (progress n q)
    define r1 where "r1 = after_write f w i xs (take n q)"
    have q: "take n q = take n (rest b)" "length (take n q) \<le> length xs" using progress by auto
    have same: "drop n q = drop n (drop w xs)"
      using tidy [OF Suc.prems(2) p] call(1) progress(1) by fastforce
    obtain err s1 where f1: "fn s (take n q) = Inr (err, s1)"
      using fn [of s "take n q"] by (cases "fn s (take n q)") auto
    have len: "length q = length xs - w" "n \<le> length xs - w" using progress by simp_all
    note round = RingFilter_ReadFrom_round [of w xs i f read_call b n q b1 fn s err s1 fuel k]
    show ?thesis
    proof (cases err)
      case (Some e)
      then obtain r' where "RingFilter_ReadFrom_loop (Suc fuel) fn read_call (of_ring r) s b k =
          Some (Inr ((k + int n, Some e), b1, s1, r'))"
        using round(2) call(1) r progress(1) f1 len same by auto
      moreover have "length (concat [take n q]) = n" "concat [take n q] @ rest b1 = rest b"
        "filter_feed fn s [take n q] = Inr (Some e, s1)" "filter_feed fn s (butlast [take n q]) = Inr (None, s)"
        using len Some f1 progress q(1) by simp_all
      ultimately show ?thesis
        by - (rule exI [of _ "Some e"], rule exI [of _ b1], rule exI [of _ s1], rule exI [of _ r'],
          rule exI [of _ "[take n q]"], rule exI [of _ s], simp only: simp_thms option.distinct)
    next
      case None
      have step: "RingFilter_ReadFrom_loop (Suc fuel) fn read_call (of_ring r) s b k =
          RingFilter_ReadFrom_loop fuel fn read_call (of_ring r1) s1 b1 (k + int n)"
        using round(1) None call(1) r progress(1) f1 len same by (simp add: r1_def)
      have r1: "ring_inv r1" "length (rb_items r1) = length xs"
        "pending r1 = lastn (length xs) (pending r @ take n (rest b))"
        unfolding r1_def r(1)
        using after_write_ok [OF r(2,3,5,4) q(2)] by (simp_all add: q(1))
      have keep: "lastn (length xs) (pending r1 @ rest b1) = lastn (length xs) (pending r @ rest b)"
        using progress by (simp add: r1(3) lastn_append_left)
      have short: "length (rest b1) < fuel" using Suc.prems(3) progress by simp
      obtain e b' s' r' chunks s2 where ih:
        "RingFilter_ReadFrom_loop fuel fn read_call (of_ring r1) s1 b1 (k + int n)
          = Some (Inr ((k + int n + int (length (concat chunks)), e), b', s', r'))"
        "concat chunks @ rest b' = rest b1" "filter_feed fn s1 chunks = Inr (e, s')"
        "filter_feed fn s1 (butlast chunks) = Inr (None, s2)"
        "e = None \<longrightarrow> rest b' = [] \<and> ring_inv (as_ring r') \<and> length (rf_items r') = length xs
           \<and> pending (as_ring r') = lastn (length xs) (pending r1 @ rest b1)"
        using Suc.IH [OF r1(1) call(2) short, of s1 "k + int n"] r1(2) by auto
      have "concat (take n q # chunks) @ rest b' = rest b" using ih(2) progress q(1) by simp
      moreover have "k + int n + int (length (concat chunks)) = k + int (length (concat (take n q # chunks)))"
        using len by simp
      moreover have "\<exists>s3. filter_feed fn s (butlast (take n q # chunks)) = Inr (None, s3)"
        "filter_feed fn s (take n q # chunks) = Inr (e, s')"
        using ih(3,4) f1 None by simp_all
      moreover have "e = None \<longrightarrow> rest b' = [] \<and> ring_inv (as_ring r') \<and> length (rf_items r') = length (rb_items r)
           \<and> pending (as_ring r') = lastn (length (rb_items r)) (pending r @ rest b)"
        using ih(5) keep r(1) by simp
      ultimately show ?thesis using step ih(1) by metis
    qed
  next
    case (eof q)
    from eof(1) call(1) have nil: "rest b = []"
      using eof_clean [OF Suc.prems(2) p] by fastforce
    moreover have "drop 0 q = drop 0 (drop w xs)"
      using tidy [OF Suc.prems(2) p] call(1) eof(1) nil by fastforce
    moreover from this have "overlay xs w q = xs"
      using r(2) by (simp add: overlay_def)
    moreover have "go_slice xs (int w) (int (length xs)) = Inr (drop w xs)"
      using r by (simp add: go_simps sub_to_end)
    moreover have short: "length (pending r) \<le> length xs"
      using r held_le [of w "length xs" i f] by (simp add: length_pending)
    ultimately have "RingFilter_ReadFrom_loop (Suc fuel) fn read_call (of_ring r) s b k
        = Some (Inr ((k, None), b1, s, of_ring r))"
      using call(1) eof(1) r(1) by (auto simp: Let_def of_ring_def)
    then show ?thesis
      using nil eof Suc.prems(1) short r(1)
      by - (rule exI [of _ None], rule exI [of _ b1], rule exI [of _ s], rule exI [of _ "of_ring r"],
        rule exI [of _ "[]"], simp add: lastn_all of_ring_def as_ring_def)
  qed
qed simp

end

text \<open>
  C17: \<open>ReadFrom\<close> of a filter from a \<open>Buffer\<close>, with a function that does not panic: the items taken from the
  source go through the function once and in order, in some batches.  If the function refuses a
  batch, that is the last one, \<open>ReadFrom\<close> returns its error and what follows stays in the source; otherwise
  the source is drained and the ring keeps the last \<open>cap\<close> items of the whole.  The count is the
  number of items handed over.  Nothing is said of how large the batches are, and the ring is not
  reset between them.
\<close>

theorem RingFilter_ReadFrom_filters:
  assumes "ring_inv (as_ring r)" "buf_inv b" "length (unread b) < fuel"
    and "\<And>s p. \<not> isl (fn s p)"
  shows "\<exists>e b' s' r' chunks s1. RingFilter_ReadFrom fuel fn Buffer_Read r s b
        = Some (Inr ((int (length (concat chunks)), e), b', s', r'))
      \<and> concat chunks @ unread b' = unread b
      \<and> filter_feed fn s chunks = Inr (e, s') \<and> filter_feed fn s (butlast chunks) = Inr (None, s1)
      \<and> (e = None \<longrightarrow> unread b' = [] \<and> ring_inv (as_ring r')
           \<and> pending (as_ring r') = lastn (length (rf_items r)) (pending (as_ring r) @ unread b))"
proof -
  have cells: "rb_items (as_ring r) = rf_items r" "of_ring (as_ring r) = r" by (simp_all add: as_ring_def)
  show ?thesis
    using buffer_reader_tidy.RingFilter_ReadFrom_loop_correct
      [where fn = fn and s = s and k = 0, OF assms(4,1,2,3)]
    unfolding RingFilter_ReadFrom_def cells add_0 by blast
qed

theorem RingFilter_ReadFrom_filters_witness:
  "\<exists>chunks b' r'. RingFilter_ReadFrom 9 (\<lambda>s p. Inr (None, s @ p)) Buffer_Read
        \<lparr>rf_full = False, rf_write = 1, rf_read = 0, rf_items = [7, 0]\<rparr> [] (NewBuffer (slice_of [1, 2, 3] 3))
      = Some (Inr ((3, None), b', [1, 2, 3 :: int], r')) \<and> pending (as_ring r') = [2, 3]"
proof -
  let ?r = "\<lparr>rf_full = False, rf_write = 1, rf_read = 0, rf_items = [7, 0 :: int]\<rparr>"
  let ?b = "NewBuffer (slice_of [1, 2, 3 :: int] 3)"
  let ?fn = "\<lambda>s p. Inr (None, s @ p) :: go_panic + (go_error option \<times> int list)"
  have r: "ring_inv (as_ring ?r)" by (simp add: as_ring_def ring_inv_def maxInt_def)
  have p: "pending (as_ring ?r) = [7]" by (simp add: as_ring_def pending_def sub_def)
  have b: "buf_inv ?b" "unread ?b = [1, 2, 3]"
    by (simp_all add: NewBuffer_def buf_inv_def unread_def slice_ok_def maxInt_def s_items_def sub_def)
  have feed: "filter_feed ?fn s cs = Inr (None, s @ concat cs)" for s cs
    by (induction cs arbitrary: s) simp_all
  show ?thesis
    using RingFilter_ReadFrom_filters [OF r b(1), where fuel = 9 and s = "[]" and fn = ?fn]
    by (auto simp: b p feed lastn_def)
qed

end
