(* ===== verification/Items.thy ===== *)
theory Items
  imports Errs
begin

text \<open>
  \<open>items.go\<close>: \<open>Repeat\<close>, which fills a slice with copies of another by doubling the part already
  filled.  The loop is a partial function (it would not end on an empty pattern and a non-empty
  target); that it returns is part of the theorem.  The argument \<open>fits\<close> of \<open>Repeat\<close> says which
  lengths the runtime can make a slice of, which depends on the size of the item type; \<open>make\<close>
  panics on the others.
\<close>

partial_function (option) Repeat_loop :: "int \<Rightarrow> 'a list \<Rightarrow> (go_panic + 'a list) option" where
  "Repeat_loop bp nb =
     (if bp < int (length nb) then
        (case andThen (go_slice nb 0 bp) (\<lambda>src. go_copy nb bp (int (length nb)) src) of
           Inl e \<Rightarrow> Some (Inl e)
         | Inr (_, nb') \<Rightarrow> Repeat_loop (wrap64 (bp * 2)) nb')
      else Some (Inr nb))"

definition Repeat :: "(int \<Rightarrow> bool) \<Rightarrow> 'a \<Rightarrow> 'a list \<Rightarrow> int \<Rightarrow> (go_panic + 'a list) option" where
  "Repeat fits zero b cnt =
     (if cnt = 0 then Some (Inr [])
      else if cnt < 0 then Some (Inl (PanicErr ErrNegativeRepeatCount))
      else if wrap64 (int (length b) * cnt) sdiv cnt \<noteq> int (length b)
           then Some (Inl (PanicErr ErrCountOverflows))
      else if \<not> (0 \<le> wrap64 (int (length b) * cnt) \<and> fits (wrap64 (int (length b) * cnt)))
           then Some (Inl MakeLen)
      else
        (let nb = replicate (nat (wrap64 (int (length b) * cnt))) zero
         in case go_copy nb 0 (int (length nb)) b of
              Inl e \<Rightarrow> Some (Inl e)
            | Inr (bp, nb') \<Rightarrow> Repeat_loop bp nb'))"

section \<open>The overflow check\<close>

text \<open>Dividing the wrapped product by the count gives the length back exactly when nothing wrapped.\<close>

lemma overflow_check:
  assumes "0 < c" "0 \<le> l" "l \<le> maxInt" "c \<le> maxInt"
  shows "wrap64 (l * c) sdiv c = l \<longleftrightarrow> l * c \<le> maxInt"
proof
  assume "l * c \<le> maxInt"
  moreover have "0 \<le> l * c" using assms by simp
  ultimately have "wrap64 (l * c) = l * c" by (intro wrap64_id) (simp add: in64_def)
  with assms show "wrap64 (l * c) sdiv c = l" by (simp add: sdiv_nonneg)
next
  assume eq: "wrap64 (l * c) sdiv c = l"
  show "l * c \<le> maxInt"
  proof (cases "0 \<le> wrap64 (l * c)")
    case True
    with eq assms have "wrap64 (l * c) div c = l" by (simp add: sdiv_nonneg)
    then have "l * c \<le> wrap64 (l * c)"
      using div_mult_mod_eq [of "wrap64 (l * c)" c] pos_mod_sign [OF assms(1), of "wrap64 (l * c)"]
      by simp
    then show ?thesis using in64_wrap64 [of "l * c"] by (simp add: in64_def)
  next
    case False
    then have "wrap64 (l * c) sdiv c \<le> 0"
      using assms(1) by (simp add: signed_divide_int_def sgn_if pos_imp_zdiv_nonneg_iff)
    with eq assms(2) have "l = 0" by simp
    then show ?thesis by (simp add: maxInt_def)
  qed
qed

section \<open>The doubling loop\<close>

definition copies :: "nat \<Rightarrow> 'a list \<Rightarrow> 'a list" where
  "copies k b = concat (replicate k b)"

lemma length_copies [simp]: "length (copies k b) = k * length b"
  by (induction k) (simp_all add: copies_def)

lemma nth_copies: "i < k * length b \<Longrightarrow> copies k b ! i = b ! (i mod length b)"
proof (induction k arbitrary: i)
  case (Suc k)
  show ?case
  proof (cases "i < length b")
    case False
    with Suc show ?thesis by (simp add: copies_def nth_append le_mod_geq)
  qed (simp add: copies_def nth_append)
qed simp

lemma copies_period:
  assumes "i + m * length b < k * length b"
  shows "copies k b ! (i + m * length b) = copies k b ! i"
  using assms by (simp add: nth_copies)

lemma Repeat_loop_fills:
  assumes "length nb = k * length b" "int (length nb) \<le> maxInt" "b \<noteq> []" "0 < m"
    and "\<And>i. int (m * length b) * 2 ^ i < 2 ^ 62 \<or> int (length nb) \<le> int (m * length b) * 2 ^ i"
    and "take (m * length b) nb = take (m * length b) (copies k b)"
  shows "Repeat_loop (int (m * length b)) nb = Some (Inr (copies k b))"
  using assms
proof (induction "length nb - m * length b" arbitrary: nb m rule: less_induct)
  case less
  define p where "p = m * length b"
  have p0: "0 < p" using less.prems by (simp add: p_def)
  show ?case
  proof (cases "p < length nb")
    case False
    then have "k * length b \<le> m * length b" using less.prems(1) unfolding p_def by linarith
    then have "take (m * length b) nb = nb" "take (m * length b) (copies k b) = copies k b"
      using less.prems(1) by (intro take_all; simp only: length_copies)+
    with less.prems(6) have "nb = copies k b" by (simp only:)
    moreover have "\<not> int (m * length b) < int (length nb)" using False by (simp only: p_def of_nat_less_iff) simp
    ultimately show ?thesis by (subst Repeat_loop.simps) simp
  next
    case True
    define nb' where "nb' = overlay nb p (take (length nb - p) (take p nb))"
    have s: "go_slice nb 0 (int p) = Inr (take p nb)" using True by (simp add: go_simps sub_from_start)
    have c: "\<exists>n. go_copy nb (int p) (int (length nb)) (take p nb) = Inr (n, nb')"
      using True by (simp add: go_simps nb'_def nat_diff_distrib' del: take_take)
    have "int p * 2 \<le> maxInt" using True less.prems(5) [of 0] unfolding p_def [symmetric] by (auto simp: maxInt_def)
    then have w: "wrap64 (int p * 2) = int (2 * m * length b)"
    proof -
      have "0 \<le> int p * 2" by simp
      with \<open>int p * 2 \<le> maxInt\<close> have "in64 (int p * 2)"
        unfolding in64_def by (auto intro: order_trans [of _ 0])
      then show ?thesis by (simp add: wrap64_id p_def)
    qed
    have "take (2 * m * length b) nb' = take (2 * m * length b) (copies k b)"
    proof (rule nth_equalityI)
      show "length (take (2 * m * length b) nb') = length (take (2 * m * length b) (copies k b))"
        using True less.prems(1) by (simp add: nb'_def)
      fix i assume "i < length (take (2 * m * length b) nb')"
      then have i: "i < 2 * p" "i < length nb" using True by (auto simp: nb'_def p_def)
      have old: "nb ! j = copies k b ! j" if "j < p" for j
        using less.prems(6) that nth_take [of j p] by (metis p_def)
      show "take (2 * m * length b) nb' ! i = take (2 * m * length b) (copies k b) ! i"
      proof (cases "i < p")
        case True
        with i old show ?thesis by (simp add: nb'_def nth_overlay p_def)
      next
        case False
        then have "nb' ! i = copies k b ! (i - p)"
          using i old [of "i - p"] by (auto simp: nb'_def nth_overlay min_def)
        also have "\<dots> = copies k b ! (i - p + m * length b)"
          using i False less.prems(1) by (intro copies_period [symmetric]) (simp add: p_def)
        finally show ?thesis using i False by (simp add: p_def)
      qed
    qed
    moreover have "length nb' = length nb" using True by (simp add: nb'_def)
    moreover have "length nb - 2 * m * length b < length nb - m * length b"
    proof -
      have "2 * m * length b = p + p" by (simp add: p_def)
      then show ?thesis using True p0 unfolding p_def [symmetric] by simp
    qed
    moreover have "int (2 * m * length b) * 2 ^ i < 2 ^ 62
        \<or> int (length nb) \<le> int (2 * m * length b) * 2 ^ i" for i
      using less.prems(5) [of "Suc i"] by (simp add: mult_ac)
    ultimately have "Repeat_loop (int (2 * m * length b)) nb' = Some (Inr (copies k b))"
      using less.hyps [of nb' "2 * m"] less.prems(1-4) by simp
    then show ?thesis
      using True s c w by (subst Repeat_loop.simps) (auto simp: p_def [symmetric])
  qed
qed

text \<open>One round of the loop.\<close>

lemma Repeat_loop_step:
  assumes "0 \<le> bp" "bp < int (length nb)"
  shows "\<exists>nb'. Repeat_loop bp nb = Repeat_loop (wrap64 (bp * 2)) nb' \<and> length nb' = length nb"
proof -
  obtain n nb' where cp: "go_copy nb bp (int (length nb)) (sub nb 0 (nat bp)) = Inr (n, nb')"
    "length nb' = length nb"
    using assms length_overlay [of "nat bp" nb] by (simp add: go_copy_def nat_le_iff)
  have "go_slice nb 0 bp = Inr (sub nb 0 (nat bp))" using assms by (simp add: go_slice_def)
  with cp assms(2) show ?thesis by (subst Repeat_loop.simps) auto
qed

lemma Repeat_step_wraps:
  assumes "2 ^ 62 \<le> bp" "bp < int (length nb)" "int (length nb) \<le> maxInt"
  shows "Repeat_loop bp nb = Some (Inl SliceBounds)"
proof -
  obtain nb' where nb': "Repeat_loop bp nb = Repeat_loop (wrap64 (bp * 2)) nb'" "length nb' = length nb"
    using Repeat_loop_step [of bp nb] assms by auto
  have "bp * 2 < 2 ^ 64" "2 ^ 63 \<le> bp * 2" using assms by (simp_all add: maxInt_def)
  then have neg: "wrap64 (bp * 2) < 0" by (subst wrap64_above) (simp_all add: maxInt_def)
  then have "Repeat_loop (wrap64 (bp * 2)) nb' = Some (Inl SliceBounds)"
    by (subst Repeat_loop.simps) (simp add: go_slice_def)
  with nb' show ?thesis by simp
qed

text \<open>
  Where the filled length is doubled past \<open>2^62\<close> before it reaches the length of the result, it
  wraps to a negative one, and the slice expression panics.
\<close>

lemma Repeat_loop_wraps:
  assumes "0 < bp" "2 ^ 62 \<le> bp * 2 ^ j" "bp * 2 ^ j < int (length nb)" "int (length nb) \<le> maxInt"
  shows "Repeat_loop bp nb = Some (Inl SliceBounds)"
  using assms
proof (induction j arbitrary: bp nb)
  case 0
  then show ?case using Repeat_step_wraps [of bp nb] by simp
next
  case (Suc j)
  show ?case
  proof (cases "2 ^ 62 \<le> bp")
    case True
    have "bp * 1 \<le> bp * 2 ^ Suc j" using Suc.prems(1) by (intro mult_left_mono one_le_power) simp_all
    then have "bp \<le> bp * 2 ^ Suc j" by simp
    with True Suc.prems(3,4) show ?thesis by (intro Repeat_step_wraps) linarith+
  next
    case False
    have "bp * 1 \<le> bp * 2 ^ Suc j" using Suc.prems(1) by (intro mult_left_mono one_le_power) simp_all
    then have "bp \<le> bp * 2 ^ Suc j" by simp
    with Suc.prems(3) have "bp < int (length nb)" by simp
    then obtain nb' where nb': "Repeat_loop bp nb = Repeat_loop (wrap64 (bp * 2)) nb'"
      "length nb' = length nb"
      using Repeat_loop_step [of bp nb] Suc.prems(1) by auto
    have "wrap64 (bp * 2) = bp * 2" using False Suc.prems(1) by (intro wrap64_id) (simp add: in64_def maxInt_def)
    with nb' Suc.IH [of "bp * 2" nb'] Suc.prems show ?thesis by (simp add: mult_ac)
  qed
qed

lemma Repeat_made:
  assumes "int (length b) * int k \<le> maxInt" "int k \<le> maxInt" "int (length b) \<le> maxInt" "0 < k"
  shows "Repeat fits zero b (int k) = Some
    (if \<not> fits (int (length b) * int k) then Inl MakeLen
     else if \<exists>j. 2 ^ 62 \<le> int (length b) * 2 ^ j \<and> int (length b) * 2 ^ j < int (length b) * int k
          then Inl SliceBounds
     else Inr (copies k b))"
proof (cases "fits (int (length b) * int k)")
  case True
  let ?nb = "replicate (k * length b) zero"
  have "in64 (int (length b) * int k)" using assms(1) unfolding in64_def by (auto intro: order_trans [of _ 0])
  then have w: "wrap64 (int (length b) * int k) = int (k * length b)" by (simp add: wrap64_id mult.commute)
  have check: "wrap64 (int (length b) * int k) sdiv int k = int (length b)"
    using overflow_check [of "int k" "int (length b)"] assms by simp
  have "length b \<le> length ?nb" using assms(4) by simp
  then have "go_copy ?nb 0 (int (length ?nb)) b = Inr (int (length b), overlay ?nb 0 b)"
    by (simp add: go_copy_ok del: length_replicate)
  moreover have "replicate (nat (int (k * length b))) zero = ?nb" by (simp only: nat_int)
  moreover have "fits (int (k * length b))" using True by (simp add: mult.commute)
  ultimately have run: "Repeat fits zero b (int k) = Repeat_loop (int (length b)) (overlay ?nb 0 b)"
    unfolding Repeat_def Let_def using assms(4) check by (simp add: w del: of_nat_mult)
  have len: "int (length (overlay ?nb 0 b)) = int (length b) * int k" by simp
  show ?thesis
  proof (cases "\<exists>j. 2 ^ 62 \<le> int (length b) * 2 ^ j \<and> int (length b) * 2 ^ j < int (length b) * int k")
    case wraps: True
    then have "0 < int (length b)" by (cases "b = []") auto
    with wraps len assms(1) have "Repeat_loop (int (length b)) (overlay ?nb 0 b) = Some (Inl SliceBounds)"
      using Repeat_loop_wraps [of "int (length b)" _ "overlay ?nb 0 b"] by metis
    with wraps run True show ?thesis by simp
  next
    case fine: False
    have "Repeat_loop (int (length b)) (overlay ?nb 0 b) = Some (Inr (copies k b))"
    proof (cases "b = []")
      case True
      then show ?thesis by (simp add: Repeat_loop.simps copies_def)
    next
      case False
      have "take (length b) (overlay ?nb 0 b) = take (length b) (copies k b)"
        using assms(4) by (cases k) (simp_all add: overlay_def copies_def)
      then show ?thesis
        using Repeat_loop_fills [of "overlay ?nb 0 b" k b 1] False fine assms(1) len
        by (simp add: not_less not_le mult.commute)
    qed
    with run True fine show ?thesis by simp
  qed
next
  case False
  have "in64 (int (length b) * int k)" using assms(1) unfolding in64_def by (auto intro: order_trans [of _ 0])
  then have "wrap64 (int (length b) * int k) = int (length b) * int k" by (simp add: wrap64_id)
  with False overflow_check [of "int k" "int (length b)"] assms show ?thesis by (simp add: Repeat_def)
qed

section \<open>Properties\<close>

text \<open>
  C39: \<open>Repeat(b, count)\<close> always returns or panics, and which of them is determined by \<open>len(b)\<close>,
  \<open>count\<close> and what \<open>make\<close> can make: it returns no items for a count of 0; panics with
  \<open>ErrNegativeRepeatCount\<close> for a negative count, with \<open>ErrCountOverflows\<close> exactly when
  \<open>len(b) * count\<close> does not fit an \<open>int\<close> (the check by division is exact), with \<open>make\<close>'s panic where
  the result cannot be made, and with a slice error exactly when the filled length, doubled from
  \<open>len(b)\<close>, passes \<open>2^62\<close> before it reaches the length of the result; otherwise it returns \<open>count\<close>
  copies of \<open>b\<close> in a row.
\<close>

theorem Repeat_correct:
  assumes "int (length b) \<le> maxInt" "cnt \<le> maxInt"
  shows "Repeat fits zero b cnt = Some
    (if cnt < 0 then Inl (PanicErr ErrNegativeRepeatCount)
     else if cnt = 0 then Inr []
     else if maxInt < int (length b) * cnt then Inl (PanicErr ErrCountOverflows)
     else if \<not> fits (int (length b) * cnt) then Inl MakeLen
     else if \<exists>j. 2 ^ 62 \<le> int (length b) * 2 ^ j \<and> int (length b) * 2 ^ j < int (length b) * cnt
          then Inl SliceBounds
     else Inr (concat (replicate (nat cnt) b)))"
proof (cases "0 < cnt \<and> int (length b) * cnt \<le> maxInt")
  case True
  then have "cnt = int (nat cnt)" "0 < nat cnt" by simp_all
  then obtain k where k: "cnt = int k" "nat cnt = k" "0 < k" by blast
  have "Repeat fits zero b (int k) = Some
    (if \<not> fits (int (length b) * int k) then Inl MakeLen
     else if \<exists>j. 2 ^ 62 \<le> int (length b) * 2 ^ j \<and> int (length b) * 2 ^ j < int (length b) * int k
          then Inl SliceBounds
     else Inr (copies k b))"
    using assms True k by (intro Repeat_made) simp_all
  moreover have "\<not> int k < 0" "int k \<noteq> 0" "\<not> maxInt < int (length b) * int k" using True k by simp_all
  ultimately show ?thesis by (simp only: copies_def k(1) nat_int if_False)
next
  case False
  with overflow_check [of cnt "int (length b)"] assms show ?thesis by (auto simp: Repeat_def maxInt_def)
qed

theorem Repeat_correct_witness:
  "Repeat (\<lambda>n. n < 100) 0 [1, 2 :: int] 3 = Some (Inr [1, 2, 1, 2, 1, 2])
   \<and> Repeat (\<lambda>n. n < 100) 0 [1, 2 :: int] 60 = Some (Inl MakeLen)
   \<and> Repeat (\<lambda>n. n < 100) 0 [1, 2 :: int] (2 ^ 62) = Some (Inl (PanicErr ErrCountOverflows))"
proof (intro conjI)
  have no: "\<not> (\<exists>j::nat. (2 :: int) ^ 62 \<le> 2 * 2 ^ j \<and> (2 :: int) * 2 ^ j < 6)" by auto
  show "Repeat (\<lambda>n. n < 100) 0 [1, 2 :: int] 3 = Some (Inr [1, 2, 1, 2, 1, 2])"
    using Repeat_correct [of "[1, 2 :: int]" 3 "\<lambda>n. n < 100" 0] no by (simp add: maxInt_def numeral_3_eq_3)
  show "Repeat (\<lambda>n. n < 100) 0 [1, 2 :: int] 60 = Some (Inl MakeLen)"
    using Repeat_correct [of "[1, 2 :: int]" 60 "\<lambda>n. n < 100" 0] by (simp add: maxInt_def)
  show "Repeat (\<lambda>n. n < 100) 0 [1, 2 :: int] (2 ^ 62) = Some (Inl (PanicErr ErrCountOverflows))"
    using Repeat_correct [of "[1, 2 :: int]" "2 ^ 62" "\<lambda>n. n < 100" 0] by (simp add: maxInt_def)
qed

text \<open>
  A slice of more than \<open>2^62\<close> items exists in Go where the item type has size zero.  \<open>Repeat\<close> of one
  such item, more than \<open>2^62\<close> times, panics with a slice error, although the length of the result
  fits an \<open>int\<close>, the documented check passes and \<open>make\<close> makes the result.
\<close>

theorem Repeat_beyond_bound_panics:
  assumes "2 ^ 62 < cnt" "cnt \<le> maxInt" "fits cnt"
  shows "Repeat fits zero [x] cnt = Some (Inl SliceBounds)"
  using assms Repeat_made [of "[x]" "nat cnt" fits zero] by (auto intro!: exI [of _ 62])

end
