(* ===== verification/ContainerHeap.thy ===== *)
theory ContainerHeap
  imports Errs
begin

text \<open>
  \<open>heap.go\<close>: the binary heap routines \<open>Init\<close>, \<open>Push\<close>, \<open>Pop\<close>, \<open>Remove\<close> and \<open>Fix\<close> over a client's
  type.  The interface \<open>Heap[T]\<close> (\<open>Len\<close>, \<open>Less\<close>, \<open>Swap\<close>, \<open>Push\<close>, \<open>Pop\<close>) is a record of functions
  on the client's state; its contract is a locale, interpreted on a heap kept in a slice.
\<close>

section \<open>The client's methods\<close>

record ('h, 'a) Heap =
  h_Len :: "'h \<Rightarrow> int"
  h_Less :: "'h \<Rightarrow> int \<Rightarrow> int \<Rightarrow> go_panic + bool"
  h_Swap :: "'h \<Rightarrow> int \<Rightarrow> int \<Rightarrow> go_panic + 'h"
  h_Push :: "'h \<Rightarrow> 'a \<Rightarrow> 'h"
  h_Pop :: "'h \<Rightarrow> go_panic + ('a \<times> 'h)"

section \<open>The routines\<close>

definition half :: int where "half = 2"
definition double :: int where "double = 2"

text \<open>Why the two loops end: \<open>up\<close> moves towards 0, \<open>down\<close> moves to a larger index.\<close>

lemma up_decreases:
  assumes "wrap64 (j - 1) sdiv half \<noteq> j"
  shows "\<bar>wrap64 (j - 1) sdiv half\<bar> < \<bar>j\<bar>"
proof (cases "in64 (j - 1)")
  case True
  then have w: "wrap64 (j - 1) = j - 1" by (rule wrap64_id)
  show ?thesis
  proof (cases "1 \<le> j")
    case True
    then show ?thesis by (simp add: w half_def sdiv_nonneg)
  next
    case False
    then have "(j - 1) sdiv 2 = - ((1 - j) div 2)"
      by (simp add: signed_divide_int_def sgn_if)
    moreover have "j \<noteq> 0" "j \<noteq> -1" using assms by (auto simp: w half_def signed_divide_int_def)
    ultimately show ?thesis using False by (simp add: w half_def)
  qed
next
  case False
  then have big: "2 ^ 63 \<le> \<bar>j\<bar>" by (auto simp: in64_def maxInt_def)
  have "\<bar>wrap64 (j - 1)\<bar> \<le> 2 ^ 63" using in64_wrap64 [of "j - 1"] by (auto simp: in64_def maxInt_def)
  then have "\<bar>wrap64 (j - 1) sdiv half\<bar> \<le> 2 ^ 62"
    by (auto simp: half_def signed_divide_int_def abs_mult sgn_if)
  with big show ?thesis by simp
qed

lemma down_increases:
  assumes "in64 i" "0 \<le> wrap64 (double * i + 1)"
  shows "i < wrap64 (double * i + 1)"
proof (cases "0 \<le> i")
  case True
  show ?thesis
  proof (cases "double * i + 1 \<le> maxInt")
    case True
    with \<open>0 \<le> i\<close> show ?thesis by (subst wrap64_id) (simp_all add: in64_def double_def)
  next
    case False
    moreover have "double * i + 1 < 2 ^ 64" using assms(1) by (simp add: double_def in64_def maxInt_def)
    ultimately have "wrap64 (double * i + 1) < 0" by (subst wrap64_above) simp_all
    with assms(2) show ?thesis by simp
  qed
qed (use assms in simp)

text \<open>The loop of \<open>up\<close>.\<close>

function heap_up :: "('h, 'a) Heap \<Rightarrow> 'h \<Rightarrow> int \<Rightarrow> go_panic + 'h" where
  "heap_up ops h j =
     (let i = wrap64 (j - 1) sdiv half
      in if i = j then Inr h
         else andThen (h_Less ops h j i) (\<lambda>less.
                if \<not> less then Inr h
                else andThen (h_Swap ops h i j) (\<lambda>h'. heap_up ops h' i)))"
  by pat_completeness auto

termination
proof (relation "measure (\<lambda>(ops, h, j). nat \<bar>j\<bar>)", goal_cases)
  case (2 ops h j i less h')
  with up_decreases [of j] show ?case by simp
qed simp

declare heap_up.simps [simp del]

text \<open>
  The loop of \<open>down\<close>.  \<open>2*i + 1\<close> may overflow; \<open>n\<close> is a Go integer, read through \<open>wrap64\<close>.
\<close>

function heap_down_loop ::
  "('h, 'a) Heap \<Rightarrow> 'h \<Rightarrow> int \<Rightarrow> int \<Rightarrow> int \<Rightarrow> go_panic + (bool \<times> 'h)" where
  "heap_down_loop ops h i i0 n =
     (let j1 = wrap64 (double * i + 1)
      in if j1 \<ge> wrap64 n \<or> j1 < 0 then Inr (i > i0, h)
         else
           (let j2 = j1 + 1
            in andThen (if j2 < wrap64 n then h_Less ops h j2 j1 else Inr False) (\<lambda>right.
                 let j = (if right then j2 else j1)
                 in andThen (h_Less ops h j i) (\<lambda>less.
                      if \<not> less then Inr (i > i0, h)
                      else andThen (h_Swap ops h i j) (\<lambda>h'. heap_down_loop ops h' j i0 n)))))"
  by pat_completeness auto

termination
proof (relation "inv_image (less_than <*lex*> less_than)
    (\<lambda>(ops, h, i, i0, n). (if in64 i then 0 else 1, nat (wrap64 n - i)))", goal_cases)
  case (2 ops h i i0 n j1 j2 right j less h')
  have "wrap64 n \<le> maxInt" using in64_wrap64 [of n] by (simp add: in64_def)
  with 2 have j: "in64 j" "j1 \<le> j" by (auto simp: in64_def)
  have "i < j1" if "in64 i" using 2 down_increases [OF that] by simp
  with 2 j show ?case
    by auto
qed auto

declare heap_down_loop.simps [simp del]

definition heap_down :: "('h, 'a) Heap \<Rightarrow> 'h \<Rightarrow> int \<Rightarrow> int \<Rightarrow> go_panic + (bool \<times> 'h)" where
  "heap_down ops h i0 n = heap_down_loop ops h i0 i0 n"

text \<open>The loop of \<open>Init\<close> from index \<open>i\<close> downwards.\<close>

function heap_Init_loop :: "('h, 'a) Heap \<Rightarrow> 'h \<Rightarrow> int \<Rightarrow> int \<Rightarrow> go_panic + 'h" where
  "heap_Init_loop ops h i n =
     (if i \<ge> 0 then andThen (heap_down ops h i n) (\<lambda>(_, h'). heap_Init_loop ops h' (i - 1) n)
      else Inr h)"
  by pat_completeness auto
termination
  by (relation "measure (\<lambda>(ops, h, i, n). nat (i + 1))") auto

declare heap_Init_loop.simps [simp del]

definition heap_Init :: "('h, 'a) Heap \<Rightarrow> 'h \<Rightarrow> go_panic + 'h" where
  "heap_Init ops h = (let n = h_Len ops h in heap_Init_loop ops h (n sdiv half - 1) n)"

definition heap_Push :: "('h, 'a) Heap \<Rightarrow> 'h \<Rightarrow> 'a \<Rightarrow> go_panic + 'h" where
  "heap_Push ops h x = (let h' = h_Push ops h x in heap_up ops h' (h_Len ops h' - 1))"

definition heap_Pop :: "('h, 'a) Heap \<Rightarrow> 'h \<Rightarrow> go_panic + ('a \<times> 'h)" where
  "heap_Pop ops h =
     (let n = h_Len ops h - 1
      in andThen (h_Swap ops h 0 n) (\<lambda>h1.
         andThen (heap_down ops h1 0 n) (\<lambda>(_, h2). h_Pop ops h2)))"

definition heap_Remove :: "('h, 'a) Heap \<Rightarrow> 'h \<Rightarrow> int \<Rightarrow> go_panic + ('a \<times> 'h)" where
  "heap_Remove ops h i =
     (let n = h_Len ops h - 1
      in andThen
           (if n \<noteq> i then
              andThen (h_Swap ops h i n) (\<lambda>h1.
              andThen (heap_down ops h1 i n) (\<lambda>(moved, h2).
                if \<not> moved then heap_up ops h2 i else Inr h2))
            else Inr h)
           (\<lambda>h3. h_Pop ops h3))"

definition heap_Fix :: "('h, 'a) Heap \<Rightarrow> 'h \<Rightarrow> int \<Rightarrow> go_panic + 'h" where
  "heap_Fix ops h i =
     andThen (heap_down ops h i (h_Len ops h)) (\<lambda>(moved, h').
       if \<not> moved then heap_up ops h' i else Inr h')"

section \<open>The client's contract\<close>

text \<open>
  What \<open>sort.Interface\<close> and \<open>Heap\<close> promise for a client holding the list \<open>cells h\<close>, ordered by a
  strict weak order \<open>lt\<close>.  Indexes out of range are not promised anything.
\<close>

definition swapped :: "'a list \<Rightarrow> nat \<Rightarrow> nat \<Rightarrow> 'a list" where
  "swapped xs i j = xs[i := xs ! j, j := xs ! i]"

locale heap_client =
  fixes ops :: "('h, 'a) Heap"
    and cells :: "'h \<Rightarrow> 'a list"
    and lt :: "'a \<Rightarrow> 'a \<Rightarrow> bool"
    and client_ok :: "'h \<Rightarrow> bool"
  assumes len: "client_ok h \<Longrightarrow> h_Len ops h = int (length (cells h)) \<and> int (length (cells h)) \<le> maxInt"
    and less: "client_ok h \<Longrightarrow> i < length (cells h) \<Longrightarrow> j < length (cells h) \<Longrightarrow>
        h_Less ops h (int i) (int j) = Inr (lt (cells h ! i) (cells h ! j))"
    and swap: "client_ok h \<Longrightarrow> i < length (cells h) \<Longrightarrow> j < length (cells h) \<Longrightarrow>
        \<exists>h'. h_Swap ops h (int i) (int j) = Inr h' \<and> client_ok h' \<and> cells h' = swapped (cells h) i j"
    and push: "client_ok h \<Longrightarrow> int (length (cells h)) < maxInt \<Longrightarrow>
        client_ok (h_Push ops h x) \<and> cells (h_Push ops h x) = cells h @ [x]"
    and pop: "client_ok h \<Longrightarrow> cells h \<noteq> [] \<Longrightarrow>
        \<exists>h'. h_Pop ops h = Inr (last (cells h), h') \<and> client_ok h' \<and> cells h' = butlast (cells h)"
    and lt_asym: "lt x y \<Longrightarrow> \<not> lt y x"
    and lt_trans: "\<not> lt y x \<Longrightarrow> \<not> lt z y \<Longrightarrow> \<not> lt z x"

section \<open>Order and shape\<close>

definition parent :: "nat \<Rightarrow> nat" where
  "parent j = (j - 1) div 2"

lemma parent_less: "0 < j \<Longrightarrow> parent j < j"
  by (simp add: parent_def)

lemma parent_iff: "0 < j \<Longrightarrow> parent j = i \<longleftrightarrow> j = 2 * i + 1 \<or> j = 2 * i + 2"
  by (auto simp: parent_def)

text \<open>
  \<open>ordered_but lt P n xs\<close>: among the first \<open>n\<close> items none is less than its parent, except perhaps
  at the indexes \<open>P\<close> excuses.
\<close>

definition ordered_but :: "('a \<Rightarrow> 'a \<Rightarrow> bool) \<Rightarrow> (nat \<Rightarrow> bool) \<Rightarrow> nat \<Rightarrow> 'a list \<Rightarrow> bool" where
  "ordered_but lt P n xs \<longleftrightarrow> (\<forall>j. 0 < j \<and> j < n \<and> \<not> P j \<longrightarrow> \<not> lt (xs ! j) (xs ! parent j))"

definition is_heap :: "('a \<Rightarrow> 'a \<Rightarrow> bool) \<Rightarrow> 'a list \<Rightarrow> bool" where
  "is_heap lt xs \<longleftrightarrow> list_all (\<lambda>j. \<not> lt (xs ! j) (xs ! parent j)) [1..<length xs]"

lemma is_heap_ordered: "is_heap lt xs \<longleftrightarrow> ordered_but lt (\<lambda>_. False) (length xs) xs"
  by (auto simp: is_heap_def ordered_but_def list_all_iff)

lemma ordered_but_mono:
  "ordered_but lt P n xs \<Longrightarrow> (\<And>j. 0 < j \<Longrightarrow> j < n \<Longrightarrow> P j \<Longrightarrow> Q j) \<Longrightarrow> ordered_but lt Q n xs"
  unfolding ordered_but_def by blast

lemma length_swapped [simp]: "length (swapped xs i j) = length xs"
  by (simp add: swapped_def)

lemma nth_swapped:
  "i < length xs \<Longrightarrow> j < length xs \<Longrightarrow> k < length xs \<Longrightarrow>
    swapped xs i j ! k = (if k = j then xs ! i else if k = i then xs ! j else xs ! k)"
  by (simp add: swapped_def nth_list_update)

lemma mset_swapped: "i < length xs \<Longrightarrow> j < length xs \<Longrightarrow> mset (swapped xs i j) = mset xs"
  unfolding swapped_def by (rule mset_swap)

context heap_client
begin

abbreviation leq :: "'a \<Rightarrow> 'a \<Rightarrow> bool" where
  "leq x y \<equiv> \<not> lt y x"

text \<open>
  Where a client may be after some swaps below index \<open>n\<close>: the same items, those from \<open>n\<close> on where
  they were.
\<close>

definition moved :: "nat \<Rightarrow> 'h \<Rightarrow> 'h \<Rightarrow> bool" where
  "moved n h h' \<longleftrightarrow> client_ok h' \<and> mset (cells h') = mset (cells h)
     \<and> (\<forall>k. n \<le> k \<longrightarrow> k < length (cells h) \<longrightarrow> cells h' ! k = cells h ! k)"

lemma moved_refl: "client_ok h \<Longrightarrow> moved n h h"
  by (simp add: moved_def)

lemma moved_length: "moved n h h' \<Longrightarrow> length (cells h') = length (cells h)"
  by (auto simp: moved_def dest: mset_eq_length)

lemma moved_trans: "moved n h h' \<Longrightarrow> moved n h' h'' \<Longrightarrow> moved n h h''"
  using moved_length [of n h h'] by (auto simp: moved_def)

lemma swap_moved:
  assumes "client_ok h" "i < n" "j < n" "n \<le> length (cells h)"
  obtains h' where "h_Swap ops h (int i) (int j) = Inr h'" "moved n h h'"
    "cells h' = swapped (cells h) i j"
proof -
  obtain h' where h': "h_Swap ops h (int i) (int j) = Inr h'" "client_ok h'"
    "cells h' = swapped (cells h) i j"
    using swap [of h i j] assms by auto
  moreover have "moved n h h'"
    using h' assms by (auto simp: moved_def mset_swapped nth_swapped)
  ultimately show ?thesis using that by blast
qed

text \<open>One round of \<open>down\<close> inside the bounds.\<close>

lemma down_cases:
  assumes h: "client_ok h" and i: "i < n" and n: "n \<le> length (cells h)"
  obtains (stop) "heap_down_loop ops h (int i) i0 (int n) = Inr (int i > i0, h)"
      "\<And>c. 0 < c \<Longrightarrow> c < n \<Longrightarrow> parent c = i \<Longrightarrow> leq (cells h ! i) (cells h ! c)"
    | (sink) j h' where "0 < j" "j < n" "parent j = i" "moved n h h'" "cells h' = swapped (cells h) i j"
      "lt (cells h ! j) (cells h ! i)"
      "\<And>c. 0 < c \<Longrightarrow> c < n \<Longrightarrow> parent c = i \<Longrightarrow> leq (cells h ! j) (cells h ! c)"
      "heap_down_loop ops h (int i) i0 (int n) = heap_down_loop ops h' (int j) i0 (int n)"
proof -
  define xs where "xs = cells h"
  have bound: "int (length xs) \<le> maxInt" using len [OF h] by (simp add: xs_def)
  have nn: "wrap64 (int n) = int n" using bound n by (intro wrap64_id) (simp add: in64_def xs_def)
  have i64: "in64 (int i)" using bound i n by (simp add: in64_def xs_def)
  define j1 where "j1 = 2 * i + 1"
  show ?thesis
  proof (cases "j1 < n")
    case False
    have "wrap64 (double * int i + 1) \<ge> int n \<or> wrap64 (double * int i + 1) < 0"
    proof (cases "in64 (double * int i + 1)")
      case True
      then show ?thesis using False by (simp add: wrap64_id double_def j1_def)
    next
      case out: False
      have "double * int i + 1 < 2 ^ 64" using i64 by (simp add: double_def in64_def maxInt_def)
      moreover have "maxInt < double * int i + 1" using out by (simp add: in64_def double_def)
      ultimately show ?thesis by (subst (1 2) wrap64_above) simp_all
    qed
    then have "heap_down_loop ops h (int i) i0 (int n) = Inr (int i > i0, h)"
      by (subst heap_down_loop.simps) (simp add: Let_def nn)
    with False show ?thesis by (intro stop) (auto simp: parent_iff j1_def)
  next
    case True
    have w: "wrap64 (double * int i + 1) = int j1"
      using True bound n by (subst wrap64_id) (simp_all add: in64_def double_def j1_def xs_def)
    define right where "right = (j1 + 1 < n \<and> lt (xs ! (j1 + 1)) (xs ! j1))"
    define j where "j = (if right then j1 + 1 else j1)"
    have pick: "(if int j1 + 1 < wrap64 (int n) then h_Less ops h (int j1 + 1) (int j1) else Inr False)
        = Inr right"
      using less [OF h, of "j1 + 1" j1] n True by (auto simp: nn right_def xs_def add.commute)
    have j: "0 < j" "j < n" "parent j = i" "int j = (if right then int j1 + 1 else int j1)"
      using True by (auto simp: j_def j1_def right_def parent_iff)
    have best: "leq (xs ! j) (xs ! c)" if "0 < c" "c < n" "parent c = i" for c
      using that lt_asym by (auto simp: parent_iff j_def j1_def right_def)
    have cmp: "h_Less ops h (int j) (int i) = Inr (lt (xs ! j) (xs ! i))"
      using less [OF h, of j i] i j n by (simp add: xs_def)
    have in_range: "\<not> n \<le> j1" using True by simp
    have step: "heap_down_loop ops h (int i) i0 (int n) =
        (if \<not> lt (xs ! j) (xs ! i) then Inr (int i > i0, h)
         else andThen (h_Swap ops h (int i) (int j)) (\<lambda>h'. heap_down_loop ops h' (int j) i0 (int n)))"
      using cmp by (subst heap_down_loop.simps)
        (simp add: w nn pick [unfolded nn] j(4) [symmetric] in_range Let_def del: of_nat_add)
    show ?thesis
    proof (cases "lt (xs ! j) (xs ! i)")
      case False
      show ?thesis
      proof (rule stop)
        show "heap_down_loop ops h (int i) i0 (int n) = Inr (int i > i0, h)" using step False by simp
        fix c assume "0 < c" "c < n" "parent c = i"
        with False best [of c] lt_trans [of "xs ! j" "xs ! i" "xs ! c"]
        show "leq (cells h ! i) (cells h ! c)" by (simp add: xs_def)
      qed
    next
      case True
      obtain h' where "h_Swap ops h (int i) (int j) = Inr h'" "moved n h h'"
        "cells h' = swapped (cells h) i j"
        using swap_moved [OF h i j(2) n] by blast
      with True step j best show ?thesis by (intro sink [of j h']) (simp_all add: xs_def)
    qed
  qed
qed

text \<open>
  \<open>down\<close> repairs a heap whose only faults are at the children of \<open>i\<close>.  The items below \<open>k\<close> may
  be out of order with each other, as they are while \<open>Init\<close> builds the heap.
\<close>

lemma down_repairs:
  assumes "client_ok h" "i < n" "n \<le> length (cells h)" "k \<le> i"
    and "ordered_but lt (\<lambda>j. parent j = i \<or> parent j < k) n (cells h)"
    and "\<And>c. 0 < c \<Longrightarrow> c < n \<Longrightarrow> parent c = i \<Longrightarrow> 0 < i \<Longrightarrow> k \<le> parent i \<Longrightarrow>
        leq (cells h ! parent i) (cells h ! c)"
  shows "\<exists>b h'. heap_down_loop ops h (int i) i0 (int n) = Inr (b, h') \<and> (i0 < int i \<longrightarrow> b)
      \<and> moved n h h' \<and> ordered_but lt (\<lambda>j. parent j < k) n (cells h')"
  using assms
proof (induction "n - i" arbitrary: h i rule: less_induct)
  case less
  note h = less.prems(1) and i = less.prems(2) and n = less.prems(3) and k = less.prems(4)
  note ord = less.prems(5) [unfolded ordered_but_def, rule_format] and above = less.prems(6)
  from h i n show ?case
  proof (cases rule: down_cases [where ?i0.0 = i0])
    case stop
    have "ordered_but lt (\<lambda>j. parent j < k) n (cells h)"
      using ord stop(2) unfolding ordered_but_def by metis
    with stop(1) moved_refl [OF h] show ?thesis by simp
  next
    case (sink j h')
    define xs ys where "xs = cells h" and "ys = cells h'"
    have ij: "i < j" using parent_less sink(1,3) by blast
    have ys: "ys ! c = (if c = j then xs ! i else if c = i then xs ! j else xs ! c)" if "c < n" for c
      using that i n sink(2,5) by (simp add: ys_def xs_def nth_swapped)
    have pj: "parent c < n" if "0 < c" "c < n" for c using parent_less [OF that(1)] that by simp
    have ordered: "ordered_but lt (\<lambda>c. parent c = j \<or> parent c < k) n ys"
      unfolding ordered_but_def
    proof (intro allI impI)
      fix c assume c: "0 < c \<and> c < n \<and> \<not> (parent c = j \<or> parent c < k)"
      then have pc: "parent c < c" "parent c < n" using parent_less pj by auto
      consider "c = j" | "c \<noteq> j" "parent c = i" | "c = i" | "c \<noteq> j" "c \<noteq> i" "parent c \<noteq> i" by blast
      then show "leq (ys ! parent c) (ys ! c)"
      proof cases
        case 1
        then show ?thesis using sink(2,3) lt_asym [OF sink(6)] ij i by (simp add: ys xs_def)
      next
        case 2
        then show ?thesis using c pc sink(7) ij i by (simp add: ys xs_def)
      next
        case 3
        then show ?thesis using c pc ij above [OF sink(1,2,3)] by (auto simp: ys xs_def)
      next
        case 4
        then show ?thesis using c pc ord by (simp add: ys xs_def)
      qed
    qed
    have above': "leq (ys ! parent j) (ys ! c)" if "0 < c" "c < n" "parent c = j" for c
    proof -
      have "c \<noteq> j" "c \<noteq> i" using that parent_less [of c] ij by auto
      then show ?thesis using that ord [of c] ij i k sink(2,3) by (simp add: ys xs_def)
    qed
    have "n \<le> length (cells h')" using n moved_length [OF sink(4)] by simp
    then obtain b h'' where "heap_down_loop ops h' (int j) i0 (int n) = Inr (b, h'')"
      "i0 < int j \<longrightarrow> b" "moved n h' h''" "ordered_but lt (\<lambda>j. parent j < k) n (cells h'')"
      using less.hyps [OF _ _ sink(2), of h'] ij i k ordered above' sink(4)
      unfolding ys_def by (auto simp: moved_def diff_less_mono2)
    with sink(8) moved_trans [OF sink(4)] ij show ?thesis by auto
  qed
qed

text \<open>\<open>Init\<close> repairs the subtrees from the last parent down to the root.\<close>

lemma Init_loop_builds:
  assumes "client_ok h" "i < int (length (cells h))"
    and "ordered_but lt (\<lambda>j. int (parent j) \<le> i) (length (cells h)) (cells h)"
  shows "\<exists>h'. heap_Init_loop ops h i (int (length (cells h))) = Inr h' \<and> moved (length (cells h)) h h'
    \<and> is_heap lt (cells h')"
  using assms
proof (induction "nat (i + 1)" arbitrary: i h)
  case 0
  then have "ordered_but lt (\<lambda>_. False) (length (cells h)) (cells h)"
    by (auto intro: ordered_but_mono)
  with 0 show ?case
    by (subst heap_Init_loop.simps) (simp add: is_heap_ordered moved_refl)
next
  case (Suc m)
  define n where "n = length (cells h)"
  obtain l where l: "i = int l" using Suc.hyps(2) by (cases i) auto
  have "ordered_but lt (\<lambda>j. parent j = l \<or> parent j < l) n (cells h)"
    using Suc.prems(3) unfolding ordered_but_def n_def by (auto simp: l)
  then obtain b h1 where d: "heap_down_loop ops h (int l) (int l) (int n) = Inr (b, h1)" "moved n h h1"
    "ordered_but lt (\<lambda>j. parent j < l) n (cells h1)"
    using down_repairs [of h l n l "int l"] Suc.prems(1,2) parent_less [of l]
    by (fastforce simp: l n_def)
  have len: "length (cells h1) = n" using moved_length [OF d(2)] by (simp add: n_def)
  have "ordered_but lt (\<lambda>j. int (parent j) \<le> i - 1) n (cells h1)"
    using d(3) by (rule ordered_but_mono) (simp add: l)
  moreover have m: "m = nat (i - 1 + 1)" using Suc.hyps(2) by simp
  ultimately obtain h2 where "heap_Init_loop ops h1 (i - 1) (int n) = Inr h2" "moved n h1 h2" "is_heap lt (cells h2)"
    using Suc.hyps(1) [OF m, of h1] Suc.prems(2) d(2) len by (auto simp: moved_def n_def)
  then show ?case
    using d moved_trans [OF d(2)] by (subst heap_Init_loop.simps) (auto simp: l n_def heap_down_def)
qed

lemma Init_builds:
  assumes "client_ok h"
  shows "\<exists>h'. heap_Init ops h = Inr h' \<and> client_ok h' \<and> mset (cells h') = mset (cells h)
    \<and> is_heap lt (cells h')"
proof -
  define n where "n = length (cells h)"
  have "h_Len ops h = int n" using len [OF assms] by (simp add: n_def)
  then have "heap_Init ops h = heap_Init_loop ops h (int (n div 2) - 1) (int n)"
    by (simp add: heap_Init_def half_def sdiv_nonneg zdiv_int Let_def)
  moreover have "ordered_but lt (\<lambda>j. int (parent j) \<le> int (n div 2) - 1) n (cells h)"
    by (auto simp: ordered_but_def parent_def)
  ultimately show ?thesis
    using Init_loop_builds [of h "int (n div 2) - 1"] assms by (auto simp: n_def moved_def)
qed

end

context heap_client
begin

text \<open>One round of \<open>up\<close> inside the bounds, and what it repairs.\<close>

lemma up_cases:
  assumes h: "client_ok h" and j: "j < n" and n: "n \<le> length (cells h)"
  obtains (stop) "heap_up ops h (int j) = Inr h"
      "0 < j \<Longrightarrow> leq (cells h ! parent j) (cells h ! j)"
    | (rise) h' where "0 < j" "moved n h h'" "cells h' = swapped (cells h) (parent j) j"
      "lt (cells h ! j) (cells h ! parent j)"
      "heap_up ops h (int j) = heap_up ops h' (int (parent j))"
proof (cases "j = 0")
  case True
  have "wrap64 (-1) sdiv half = 0" by (simp add: wrap64_def half_def signed_divide_int_def)
  with True show ?thesis by (intro stop) (simp_all add: heap_up.simps)
next
  case False
  have "int j - 1 = int (j - 1)" using False by simp
  moreover have "int (length (cells h)) \<le> maxInt" using len [OF h] by simp
  ultimately have "wrap64 (int j - 1) = int (j - 1)"
    using j n by (simp add: wrap64_id in64_def del: of_nat_diff)
  then have i: "wrap64 (int j - 1) sdiv half = int (parent j)"
    by (simp add: half_def sdiv_nonneg parent_def zdiv_int)
  have p: "parent j < j" using False by (simp add: parent_less)
  with h j n less [OF h, of j "parent j"]
  have c: "h_Less ops h (int j) (int (parent j)) = Inr (lt (cells h ! j) (cells h ! parent j))" by simp
  show ?thesis
  proof (cases "lt (cells h ! j) (cells h ! parent j)")
    case True
    obtain h' where "h_Swap ops h (int (parent j)) (int j) = Inr h'" "moved n h h'"
      "cells h' = swapped (cells h) (parent j) j"
      using swap_moved [OF h _ j n, of "parent j"] p j by auto
    with True False c i p show ?thesis
      by (intro rise [of h']) (simp_all add: heap_up.simps [of ops h "int j"] Let_def)
  next
    case False
    with c i p show ?thesis
      by (intro stop) (simp_all add: heap_up.simps [of ops h "int j"] Let_def)
  qed
qed

text \<open>Swapping a too small item \<open>j\<close> with its parent moves the one wrong place up.\<close>

lemma rise_repairs:
  assumes "ordered_but lt (\<lambda>c. c = j) n xs" "0 < j" "j < n" "n \<le> length xs" "p = parent j" "lt (xs ! j) (xs ! p)"
    and above: "\<And>c. 0 < c \<Longrightarrow> c < n \<Longrightarrow> parent c = j \<Longrightarrow> leq (xs ! p) (xs ! c)"
  shows "ordered_but lt (\<lambda>c. c = p) n (swapped xs p j)"
    and "0 < c \<Longrightarrow> c < n \<Longrightarrow> parent c = p \<Longrightarrow> 0 < p \<Longrightarrow> leq (swapped xs p j ! parent p) (swapped xs p j ! c)"
proof -
  note ord = assms(1) [unfolded ordered_but_def, rule_format]
  have p: "p < j" using assms(2,5) by (simp add: parent_less)
  have ys: "swapped xs p j ! c = (if c = j then xs ! p else if c = p then xs ! j else xs ! c)" if "c < n" for c
    using that assms(3,4) p by (simp add: nth_swapped)
  have lower: "leq (xs ! j) (xs ! c)" if "0 < c" "c < n" "parent c = p" "c \<noteq> j" for c
    using lt_trans [of "xs ! p" "xs ! j" "xs ! c"] lt_asym [OF assms(6)] ord [of c] that by simp
  show "ordered_but lt (\<lambda>c. c = p) n (swapped xs p j)"
    unfolding ordered_but_def
  proof (intro allI impI)
    fix c assume c: "0 < c \<and> c < n \<and> c \<noteq> p"
    then have pc: "parent c < c" "parent c < n" using parent_less [of c] by auto
    consider "c = j" | "c \<noteq> j" "parent c = p" | "parent c = j" | "c \<noteq> j" "parent c \<noteq> p" "parent c \<noteq> j"
      by blast
    then show "leq (swapped xs p j ! parent c) (swapped xs p j ! c)"
    proof cases
      case 1
      then show ?thesis using p assms(3) pc lt_asym [OF assms(6)] by (simp add: ys assms(5) [symmetric])
    next
      case 2
      then show ?thesis using c pc p lower [of c] by (simp add: ys)
    next
      case 3
      then show ?thesis using c pc p assms(3) above [of c] by (simp add: ys)
    next
      case 4
      then show ?thesis using c pc ord [of c] by (simp add: ys)
    qed
  qed
  assume c: "0 < c" "c < n" "parent c = p" "0 < p"
  have pp: "parent p < p" using c by (simp add: parent_less)
  have up: "leq (xs ! parent p) (xs ! p)" using ord [of p] c p assms(3) by simp
  show "leq (swapped xs p j ! parent p) (swapped xs p j ! c)"
  proof (cases "c = j")
    case True
    then show ?thesis using up pp p assms(3) by (simp add: ys)
  next
    case False
    moreover have "c \<noteq> p" using parent_less [of c] c by auto
    moreover have "leq (xs ! p) (xs ! c)" using ord [of c] c False by simp
    ultimately show ?thesis
      using up lt_trans [of "xs ! p" "xs ! parent p" "xs ! c"] pp p assms(3) c by (simp add: ys)
  qed
qed

lemma up_repairs:
  assumes "client_ok h" "j < n" "n \<le> length (cells h)"
    and "ordered_but lt (\<lambda>c. c = j) n (cells h)"
    and "\<And>c. 0 < c \<Longrightarrow> c < n \<Longrightarrow> parent c = j \<Longrightarrow> 0 < j \<Longrightarrow> leq (cells h ! parent j) (cells h ! c)"
  shows "\<exists>h'. heap_up ops h (int j) = Inr h' \<and> moved n h h' \<and> ordered_but lt (\<lambda>_. False) n (cells h')"
  using assms
proof (induction j arbitrary: h rule: less_induct)
  case (less j)
  note h = less.prems(1) and j = less.prems(2) and n = less.prems(3)
  from h j n show ?case
  proof (cases rule: up_cases)
    case stop
    have "ordered_but lt (\<lambda>_. False) n (cells h)"
      using less.prems(4) stop(2) unfolding ordered_but_def by metis
    with stop(1) moved_refl [OF h] show ?thesis by blast
  next
    case (rise h')
    define p where "p = parent j"
    have p: "p < j" using rise(1) by (simp add: p_def parent_less)
    have cells': "cells h' = swapped (cells h) p j" using rise(3) by (simp add: p_def)
    note rr = rise_repairs [OF less.prems(4) rise(1) j n p_def rise(4) [folded p_def], folded cells']
    have "n \<le> length (cells h')" using n moved_length [OF rise(2)] by simp
    moreover have "client_ok h'" using rise(2) by (simp add: moved_def)
    ultimately obtain h'' where "heap_up ops h' (int p) = Inr h''" "moved n h' h''"
      "ordered_but lt (\<lambda>_. False) n (cells h'')"
      using less.IH [OF p, of h'] p j rr less.prems(5) rise(1) unfolding p_def by auto
    with rise(5) moved_trans [OF rise(2)] show ?thesis by (auto simp: p_def)
  qed
qed

text \<open>\<open>down\<close>, then \<open>up\<close> if nothing moved: what \<open>Fix\<close> and \<open>Remove\<close> do about one wrong item.\<close>

lemma fix_repairs:
  assumes h: "client_ok h" and i: "i < n" and n: "n \<le> length (cells h)"
    and ord: "ordered_but lt (\<lambda>c. parent c = i \<or> c = i) n (cells h)"
    and above: "\<And>c. 0 < c \<Longrightarrow> c < n \<Longrightarrow> parent c = i \<Longrightarrow> 0 < i \<Longrightarrow> leq (cells h ! parent i) (cells h ! c)"
  shows "\<exists>h'. andThen (heap_down ops h (int i) (int n))
        (\<lambda>(b, h1). if \<not> b then heap_up ops h1 (int i) else Inr h1) = Inr h'
      \<and> moved n h h' \<and> ordered_but lt (\<lambda>_. False) n (cells h')"
  using h i n
proof (cases rule: down_cases [where ?i0.0 = "int i"])
  case stop
  have "ordered_but lt (\<lambda>c. c = i) n (cells h)"
    using ord stop(2) unfolding ordered_but_def by metis
  with stop(1) up_repairs [OF h i n] above show ?thesis by (simp add: heap_down_def)
next
  case (sink j h')
  define xs ys where "xs = cells h" and "ys = cells h'"
  have ij: "i < j" using parent_less sink(1,3) by blast
  have ys: "ys ! c = (if c = j then xs ! i else if c = i then xs ! j else xs ! c)" if "c < n" for c
    using that i n sink(2,5) by (simp add: ys_def xs_def nth_swapped)
  have old: "leq (xs ! parent c) (xs ! c)" if "0 < c" "c < n" "parent c \<noteq> i" "c \<noteq> i" for c
    using ord that unfolding ordered_but_def xs_def by blast
  have ordered: "ordered_but lt (\<lambda>c. parent c = j \<or> parent c < 0) n ys"
    unfolding ordered_but_def
  proof (intro allI impI)
    fix c assume c: "0 < c \<and> c < n \<and> \<not> (parent c = j \<or> parent c < 0)"
    then have pc: "parent c < c" "parent c < n" using parent_less [of c] by auto
    consider "c = j" | "c \<noteq> j" "parent c = i" | "c = i" | "c \<noteq> j" "c \<noteq> i" "parent c \<noteq> i" by blast
    then show "leq (ys ! parent c) (ys ! c)"
    proof cases
      case 1
      then show ?thesis using sink(2,3) lt_asym [OF sink(6)] ij i by (simp add: ys xs_def)
    next
      case 2
      then show ?thesis using c pc sink(7) ij i by (simp add: ys xs_def)
    next
      case 3
      then show ?thesis using c pc ij above [OF sink(1,2,3)] by (auto simp: ys xs_def)
    next
      case 4
      then show ?thesis using c pc old [of c] by (simp add: ys)
    qed
  qed
  have above': "leq (ys ! parent j) (ys ! c)" if "0 < c" "c < n" "parent c = j" for c
  proof -
    have "c \<noteq> j" "c \<noteq> i" using that parent_less [of c] ij by auto
    then show ?thesis using that old [of c] ij i sink(2,3) by (simp add: ys)
  qed
  have "n \<le> length (cells h')" "client_ok h'"
    using n moved_length [OF sink(4)] sink(4) by (simp_all add: moved_def)
  then obtain b h'' where "heap_down_loop ops h' (int j) (int i) (int n) = Inr (b, h'')"
    "int i < int j \<longrightarrow> b" "moved n h' h''" "ordered_but lt (\<lambda>j. parent j < 0) n (cells h'')"
    using down_repairs [OF _ sink(2), of h' 0 "int i"] ordered above' unfolding ys_def by auto
  with sink(8) moved_trans [OF sink(4)] ij show ?thesis by (auto simp: heap_down_def)
qed

end

context heap_client
begin

lemma ordered_prefix: "ordered_but lt P n (take m xs) \<longleftrightarrow> ordered_but lt P n xs" if "n \<le> m"
  using that unfolding ordered_but_def
  by (auto simp: parent_less less_le_trans order_less_trans [OF parent_less])

lemma ordered_whole: "ordered_but lt (\<lambda>_. False) n xs \<Longrightarrow> n \<le> length xs \<Longrightarrow> is_heap lt (take n xs)"
  using ordered_prefix [of n n] by (simp add: is_heap_ordered)

lemma root_least:
  assumes "is_heap lt xs" "j < length xs"
  shows "leq (xs ! 0) (xs ! j)"
  using assms(2)
proof (induction j rule: less_induct)
  case (less j)
  show ?case
  proof (cases "j = 0")
    case False
    then have "parent j < j" by (simp add: parent_less)
    with less have "leq (xs ! 0) (xs ! parent j)" by simp
    moreover have "leq (xs ! parent j) (xs ! j)"
      using assms(1) less.prems False by (simp add: is_heap_ordered ordered_but_def)
    ultimately show ?thesis using lt_trans by blast
  qed (use lt_asym in auto)
qed

lemma Push_keeps:
  assumes "client_ok h" "is_heap lt (cells h)" "int (length (cells h)) < maxInt"
  shows "\<exists>h'. heap_Push ops h x = Inr h' \<and> client_ok h' \<and> is_heap lt (cells h')
    \<and> mset (cells h') = add_mset x (mset (cells h))"
proof -
  define h1 where "h1 = h_Push ops h x"
  define n where "n = length (cells h)"
  have h1: "client_ok h1" "cells h1 = cells h @ [x]" using push [OF assms(1,3)] by (simp_all add: h1_def)
  have "h_Len ops h1 - 1 = int n" using len [OF h1(1)] h1(2) by (simp add: n_def)
  then have run: "heap_Push ops h x = heap_up ops h1 (int n)" by (simp add: heap_Push_def Let_def h1_def)
  have "ordered_but lt (\<lambda>c. c = n) (Suc n) (cells h1)"
    unfolding ordered_but_def
  proof (intro allI impI)
    fix c assume c: "0 < c \<and> c < Suc n \<and> c \<noteq> n"
    then have "c < n" "parent c < n" using parent_less [of c] by auto
    with assms(2) c show "leq (cells h1 ! parent c) (cells h1 ! c)"
      by (simp add: is_heap_ordered ordered_but_def h1(2) nth_append n_def)
  qed
  moreover have "\<not> (0 < c \<and> c < Suc n \<and> parent c = n)" for c using parent_less [of c] by auto
  ultimately obtain h2 where "heap_up ops h1 (int n) = Inr h2" "moved (Suc n) h1 h2"
    "ordered_but lt (\<lambda>_. False) (Suc n) (cells h2)"
    using up_repairs [of h1 n "Suc n"] h1 by (auto simp: n_def)
  then show ?thesis
    using run h1 moved_length [of "Suc n" h1 h2] by (auto simp: moved_def is_heap_ordered n_def)
qed

text \<open>Taking out the item at index \<open>i\<close>, once it has been swapped to the end and the rest repaired.\<close>

lemma take_out:
  assumes "client_ok h" "i < length (cells h)" and n: "n = length (cells h) - 1"
    and m: "moved n h1 h2" and h1: "cells h1 = swapped (cells h) i n"
    and heap: "ordered_but lt (\<lambda>_. False) n (cells h2)"
  shows "\<exists>h'. h_Pop ops h2 = Inr (cells h ! i, h') \<and> client_ok h' \<and> is_heap lt (cells h')
    \<and> mset (cells h) = add_mset (cells h ! i) (mset (cells h'))"
proof -
  have len: "length (cells h2) = Suc n" "length (cells h1) = Suc n"
    using moved_length [OF m] h1 n assms(2) by simp_all
  then have ne: "cells h2 \<noteq> []" by auto
  have last: "last (cells h2) = cells h ! i"
    using m len n assms(2) ne by (simp add: moved_def last_conv_nth h1 nth_swapped)
  obtain h' where h': "h_Pop ops h2 = Inr (last (cells h2), h')" "client_ok h'" "cells h' = butlast (cells h2)"
    using pop [OF _ ne] m by (auto simp: moved_def)
  have "cells h' = take n (cells h2)" using h'(3) len by (simp add: butlast_conv_take)
  with heap len have "is_heap lt (cells h')" using ordered_whole [of n "cells h2"] by simp
  moreover have "mset (cells h2) = add_mset (last (cells h2)) (mset (butlast (cells h2)))"
    using ne by (metis append_butlast_last_id mset_append add_mset_add_single mset_single_iff_right mset.simps)
  moreover have "mset (cells h2) = mset (cells h)"
    using m h1 n assms(2) by (simp add: moved_def mset_swapped)
  ultimately show ?thesis using h' last by auto
qed

lemma swapped_ordered:
  assumes heap: "is_heap lt xs" and i: "i \<le> n" and n: "length xs = Suc n"
  shows "ordered_but lt (\<lambda>c. parent c = i \<or> c = i) n (swapped xs i n)"
    and "0 < c \<Longrightarrow> c < n \<Longrightarrow> parent c = i \<Longrightarrow> 0 < i \<Longrightarrow>
      leq (swapped xs i n ! parent i) (swapped xs i n ! c)"
proof -
  have ord: "leq (xs ! parent c) (xs ! c)" if "0 < c" "c < Suc n" for c
    using heap that n by (simp add: is_heap_ordered ordered_but_def)
  show "ordered_but lt (\<lambda>c. parent c = i \<or> c = i) n (swapped xs i n)"
    unfolding ordered_but_def
  proof (intro allI impI)
    fix c assume c: "0 < c \<and> c < n \<and> \<not> (parent c = i \<or> c = i)"
    then have "parent c < c" by (simp add: parent_less)
    with c i n ord [of c] show "leq (swapped xs i n ! parent c) (swapped xs i n ! c)"
      by (simp add: nth_swapped)
  qed
  show "leq (swapped xs i n ! parent i) (swapped xs i n ! c)"
    if "0 < c" "c < n" "parent c = i" "0 < i"
  proof -
    have "parent i < i" "i < c" using that parent_less [of i] parent_less [of c] by auto
    with that i n ord [of c] ord [of i] lt_trans [of "xs ! i" "xs ! parent i" "xs ! c"]
    show ?thesis by (simp add: nth_swapped)
  qed
qed

lemma Remove_takes:
  assumes h: "client_ok h" and heap: "is_heap lt (cells h)" and i: "i < length (cells h)"
  shows "\<exists>h'. heap_Remove ops h (int i) = Inr (cells h ! i, h') \<and> client_ok h' \<and> is_heap lt (cells h')
    \<and> mset (cells h) = add_mset (cells h ! i) (mset (cells h'))"
proof -
  define n where "n = length (cells h) - 1"
  have n: "length (cells h) = Suc n" "h_Len ops h - 1 = int n" "i \<le> n"
    using i len [OF h] by (simp_all add: n_def)
  show ?thesis
  proof (cases "i = n")
    case True
    have "swapped (cells h) n n = cells h" using n(1) by (simp add: swapped_def)
    moreover have "ordered_but lt (\<lambda>_. False) n (cells h)"
      using heap n(1) by (auto simp: is_heap_ordered ordered_but_def)
    ultimately show ?thesis
      using take_out [OF h i n_def moved_refl [OF h]] True n(2)
      by (simp add: heap_Remove_def)
  next
    case False
    then have i': "i < n" using n(3) by simp
    obtain h1 where h1: "h_Swap ops h (int i) (int n) = Inr h1" "client_ok h1"
      "cells h1 = swapped (cells h) i n"
      using swap [OF h i, of n] n(1) by auto
    obtain h2 where h2: "andThen (heap_down ops h1 (int i) (int n))
        (\<lambda>(b, h2). if \<not> b then heap_up ops h2 (int i) else Inr h2) = Inr h2"
      "moved n h1 h2" "ordered_but lt (\<lambda>_. False) n (cells h2)"
      using fix_repairs [OF h1(2) i'] swapped_ordered [OF heap n(3,1)] h1(3) n(1) by auto
    have "heap_Remove ops h (int i) = h_Pop ops h2"
      using False n(2) h1(1) h2(1) by (simp add: heap_Remove_def Let_def)
    with take_out [OF h i n_def h2(2) h1(3) h2(3)] show ?thesis by simp
  qed
qed

lemma Fix_repairs:
  assumes h: "client_ok h" and heap: "is_heap lt xs" and i: "i < length xs" and c: "cells h = xs[i := v]"
  shows "\<exists>h'. heap_Fix ops h (int i) = Inr h' \<and> client_ok h' \<and> is_heap lt (cells h')
    \<and> mset (cells h') = mset (cells h)"
proof -
  define n where "n = length xs"
  have ord: "leq (xs ! parent c) (xs ! c)" if "0 < c" "c < n" for c
    using heap that by (simp add: is_heap_ordered ordered_but_def n_def)
  have "ordered_but lt (\<lambda>c. parent c = i \<or> c = i) n (cells h)"
    using ord by (auto simp: ordered_but_def c)
  moreover have "leq (cells h ! parent i) (cells h ! k)" if "0 < k" "k < n" "parent k = i" "0 < i" for k
  proof -
    have "parent i < i" "i < k" using that parent_less [of i] parent_less [of k] by auto
    with that ord [of k] ord [of i] lt_trans [of "xs ! i" "xs ! parent i" "xs ! k"]
    show ?thesis by (simp add: c)
  qed
  ultimately obtain h' where "andThen (heap_down ops h (int i) (int n))
        (\<lambda>(b, h1). if \<not> b then heap_up ops h1 (int i) else Inr h1) = Inr h'"
    "moved n h h'" "ordered_but lt (\<lambda>_. False) n (cells h')"
    using fix_repairs [OF h, of i n] i by (auto simp: n_def c)
  moreover have "h_Len ops h = int n" using len [OF h] by (simp add: c n_def)
  ultimately show ?thesis
    using moved_length [of n h h'] by (auto simp: heap_Fix_def moved_def is_heap_ordered c n_def)
qed

lemma Pop_is_Remove:
  assumes h: "client_ok h" and ne: "cells h \<noteq> []" and heap: "is_heap lt (cells h)"
  shows "\<exists>h'. heap_Pop ops h = Inr (cells h ! 0, h') \<and> client_ok h' \<and> is_heap lt (cells h')
    \<and> mset (cells h) = add_mset (cells h ! 0) (mset (cells h'))"
proof -
  define n where "n = length (cells h) - 1"
  have n: "length (cells h) = Suc n" "h_Len ops h - 1 = int n"
    using ne len [OF h] by (cases "cells h"; simp add: n_def)+
  obtain h1 where h1: "h_Swap ops h 0 (int n) = Inr h1" "client_ok h1"
    "cells h1 = swapped (cells h) 0 n"
    using swap [OF h, of 0 n] n(1) by auto
  have "\<exists>b h2. heap_down ops h1 0 (int n) = Inr (b, h2) \<and> moved n h1 h2
      \<and> ordered_but lt (\<lambda>_. False) n (cells h2)"
  proof (cases "n = 0")
    case True
    have "heap_down ops h1 0 0 = Inr (False, h1)"
      by (simp add: heap_down_def heap_down_loop.simps wrap64_def double_def)
    with True moved_refl [OF h1(2)] show ?thesis
      by (intro exI [of _ False] exI [of _ h1]) (simp add: ordered_but_def)
  next
    case False
    have "ordered_but lt (\<lambda>c. parent c = 0 \<or> parent c < 0) n (cells h1)"
      using swapped_ordered(1) [OF heap _ n(1), of 0] parent_less unfolding h1(3)
      by (auto simp: ordered_but_def)
    with down_repairs [OF h1(2), of 0 n 0 0] False n(1) show ?thesis
      by (auto simp: heap_down_def h1(3))
  qed
  then obtain b h2 where "heap_down ops h1 0 (int n) = Inr (b, h2)" "moved n h1 h2"
    "ordered_but lt (\<lambda>_. False) n (cells h2)"
    by blast
  with take_out [OF h _ n_def _ h1(3)] n h1(1) show ?thesis
    by (simp add: heap_Pop_def Let_def)
qed

lemma Pop_least:
  assumes "is_heap lt (cells h)" "mset (cells h) = add_mset (cells h ! 0) (mset (cells h'))"
    "y \<in> set (cells h')"
  shows "leq (cells h ! 0) y"
proof -
  have "y \<in># mset (cells h)" using assms(2,3) by simp
  then obtain j where "j < length (cells h)" "y = cells h ! j"
    by (auto simp: in_set_conv_nth)
  with root_least [OF assms(1)] show ?thesis by simp
qed

end

text \<open>Popping until the client is empty; \<open>k\<close> is how often.\<close>

primrec heap_drain :: "('h, 'a) Heap \<Rightarrow> nat \<Rightarrow> 'h \<Rightarrow> go_panic + ('a list \<times> 'h)" where
  "heap_drain ops 0 h = Inr ([], h)"
| "heap_drain ops (Suc k) h =
     andThen (heap_Pop ops h) (\<lambda>(x, h').
     andThen (heap_drain ops k h') (\<lambda>(xs, h''). Inr (x # xs, h'')))"

context heap_client
begin

lemma drain_sorts:
  "client_ok h \<Longrightarrow> is_heap lt (cells h) \<Longrightarrow>
    \<exists>xs h'. heap_drain ops (length (cells h)) h = Inr (xs, h') \<and> cells h' = []
      \<and> mset xs = mset (cells h) \<and> sorted_wrt (\<lambda>x y. \<not> lt y x) xs"
proof (induction "length (cells h)" arbitrary: h)
  case (Suc k)
  then have "cells h \<noteq> []" by auto
  with Suc.prems obtain h1 where h1: "heap_Pop ops h = Inr (cells h ! 0, h1)" "client_ok h1" "is_heap lt (cells h1)"
    "mset (cells h) = add_mset (cells h ! 0) (mset (cells h1))"
    using Pop_is_Remove [of h] by auto
  have k: "k = length (cells h1)" using Suc.hyps(2) h1(4) by (metis Suc_inject size_add_mset size_mset)
  obtain xs h2 where "heap_drain ops k h1 = Inr (xs, h2)" "cells h2 = []"
    "mset xs = mset (cells h1)" "sorted_wrt (\<lambda>x y. \<not> lt y x) xs"
    using Suc.hyps(1) [OF k h1(2,3)] k by auto
  moreover have "leq (cells h ! 0) y" if "y \<in> set xs" for y
    using Pop_least [OF Suc.prems(2) h1(4)] that \<open>mset xs = mset (cells h1)\<close>
    by (metis set_mset_mset)
  ultimately show ?case
    using h1 unfolding Suc.hyps(2) [symmetric] by simp
qed simp

end

section \<open>A client that keeps its items in a slice\<close>

definition slice_heap :: "('a \<Rightarrow> 'a \<Rightarrow> bool) \<Rightarrow> ('a list, 'a) Heap" where
  "slice_heap lt = \<lparr>
     h_Len = (\<lambda>xs. int (length xs)),
     h_Less = (\<lambda>xs i j. andThen (go_index xs i) (\<lambda>x. andThen (go_index xs j) (\<lambda>y. Inr (lt x y)))),
     h_Swap = (\<lambda>xs i j. andThen (go_index xs i) (\<lambda>x. andThen (go_index xs j) (\<lambda>y.
                 andThen (go_update xs i y) (\<lambda>ys. go_update ys j x)))),
     h_Push = (\<lambda>xs x. xs @ [x]),
     h_Pop = (\<lambda>xs. andThen (go_index xs (int (length xs) - 1)) (\<lambda>x. Inr (x, butlast xs)))\<rparr>"

interpretation int_slice_heap:
  heap_client "slice_heap ((<) :: int \<Rightarrow> int \<Rightarrow> bool)" id "(<)" "\<lambda>xs. int (length xs) \<le> maxInt"
proof
  fix xs :: "int list"
  show "\<exists>h'. h_Pop (slice_heap (<)) xs = Inr (last (id xs), h') \<and> int (length h') \<le> maxInt
      \<and> id h' = butlast (id xs)" if "int (length xs) \<le> maxInt" "id xs \<noteq> []"
    using that by (simp add: slice_heap_def go_index_def last_conv_nth nat_diff_distrib' Suc_le_eq)
qed (auto simp: slice_heap_def go_simps swapped_def)

section \<open>Properties\<close>

text \<open>
  \<open>Init\<close> on any client that meets the contract returns and establishes the heap invariant,
  keeping the client's items.
\<close>

theorem Init_heapifies:
  assumes "heap_client ops cells lt client_ok" "client_ok h"
  shows "\<exists>h'. heap_Init ops h = Inr h' \<and> client_ok h' \<and> is_heap lt (cells h')
    \<and> mset (cells h') = mset (cells h)"
  using heap_client.Init_builds [OF assms] by blast

theorem Init_heapifies_witness:
  "\<exists>xs. heap_Init (slice_heap (<)) [5, 3, 4, 1 :: int] = Inr xs \<and> is_heap (<) xs
    \<and> mset xs = {#5, 3, 4, 1#}"
  using Init_heapifies [OF int_slice_heap.heap_client_axioms, of "[5, 3, 4, 1]"]
  by (auto simp: maxInt_def)

text \<open>
  C4: On a client that meets the contract and holds a heap of fewer than \<open>maxInt\<close> items,
  \<open>Push\<close> adds its item, to an empty heap as well; where the heap is not empty, \<open>Pop\<close> takes out a
  least item.  Both keep the invariant and the other items.
\<close>

theorem Push_Pop_correct:
  assumes "heap_client ops cells lt client_ok" "client_ok h" "is_heap lt (cells h)"
    and "int (length (cells h)) < maxInt"
  shows "(\<exists>h'. heap_Push ops h x = Inr h' \<and> client_ok h' \<and> is_heap lt (cells h')
       \<and> mset (cells h') = add_mset x (mset (cells h)))
    \<and> (cells h \<noteq> [] \<longrightarrow> (\<exists>y h'. heap_Pop ops h = Inr (y, h') \<and> client_ok h' \<and> is_heap lt (cells h')
       \<and> mset (cells h) = add_mset y (mset (cells h')) \<and> list_all (\<lambda>z. \<not> lt z y) (cells h')))"
proof (cases "cells h = []")
  case True
  with heap_client.Push_keeps [OF assms, of x] show ?thesis by blast
next
  case False
  obtain h' where h': "heap_Pop ops h = Inr (cells h ! 0, h')" "client_ok h'" "is_heap lt (cells h')"
    "mset (cells h) = add_mset (cells h ! 0) (mset (cells h'))"
    using heap_client.Pop_is_Remove [OF assms(1,2) False assms(3)] by blast
  then have "list_all (\<lambda>z. \<not> lt z (cells h ! 0)) (cells h')"
    using heap_client.Pop_least [OF assms(1,3)] by (auto simp: list_all_iff)
  with h' heap_client.Push_keeps [OF assms, of x] show ?thesis by blast
qed

theorem Push_Pop_correct_witness:
  "(\<exists>xs. heap_Push (slice_heap (<)) [] (1 :: int) = Inr xs \<and> is_heap (<) xs \<and> mset xs = {#1#})
   \<and> (\<exists>xs. heap_Push (slice_heap (<)) [2, 3 :: int] 1 = Inr xs \<and> is_heap (<) xs \<and> mset xs = {#1, 2, 3#})
   \<and> (\<exists>y xs. heap_Pop (slice_heap (<)) [2, 3 :: int] = Inr (y, xs) \<and> is_heap (<) xs
       \<and> {#2, 3#} = add_mset y (mset xs))"
proof -
  have "is_heap (<) [2, 3 :: int]" "is_heap (<) ([] :: int list)" by (simp_all add: is_heap_def parent_def)
  with Push_Pop_correct [OF int_slice_heap.heap_client_axioms, of "[2, 3]" 1]
    Push_Pop_correct [OF int_slice_heap.heap_client_axioms, of "[]" 1]
  show ?thesis by (auto simp: maxInt_def)
qed

text \<open>
  C5: \<open>Remove(i)\<close> takes out the item at index \<open>i\<close>, and \<open>Fix(i)\<close> repairs a heap whose item at \<open>i\<close>
  was overwritten; both restore the invariant and keep the other items.
\<close>

theorem Remove_Fix_correct:
  assumes "heap_client ops cells lt client_ok" "client_ok h" "is_heap lt (cells h)"
    and "i < length (cells h)" "client_ok g" "cells g = (cells h)[i := v]"
  shows "(\<exists>h'. heap_Remove ops h (int i) = Inr (cells h ! i, h') \<and> client_ok h'
        \<and> is_heap lt (cells h') \<and> mset (cells h) = add_mset (cells h ! i) (mset (cells h')))
    \<and> (\<exists>g'. heap_Fix ops g (int i) = Inr g' \<and> client_ok g' \<and> is_heap lt (cells g')
        \<and> mset (cells g') = mset (cells g))"
  using heap_client.Fix_repairs [OF assms(1,5,3,4,6)]
    heap_client.Remove_takes [OF assms(1-4)] by blast

theorem Remove_Fix_correct_witness:
  "(\<exists>xs. heap_Remove (slice_heap (<)) [1, 9, 2 :: int] 1 = Inr (9, xs) \<and> is_heap (<) xs
       \<and> {#1, 9, 2#} = add_mset 9 (mset xs))
   \<and> (\<exists>xs. heap_Fix (slice_heap (<)) [1, 0, 2 :: int] 1 = Inr xs \<and> is_heap (<) xs
       \<and> mset xs = {#1, 0, 2#})"
proof -
  have h: "is_heap (<) [1, 9, 2 :: int]" by (simp add: is_heap_def parent_def)
  show ?thesis
    using Remove_Fix_correct [OF int_slice_heap.heap_client_axioms, of "[1, 9, 2]" 1 "[1, 0, 2]" 0] h
    by (auto simp: maxInt_def)
qed

text \<open>
  C3: Draining a heap after \<open>Init\<close> sorts: popping as many times as there are items delivers all of
  them, in an order in which no later one is less than an earlier one, and empties the client.
\<close>

theorem Init_drain_sorts:
  assumes "heap_client ops cells lt client_ok" "client_ok h"
  shows "\<exists>xs h'. andThen (heap_Init ops h) (heap_drain ops (length (cells h))) = Inr (xs, h')
    \<and> cells h' = [] \<and> mset xs = mset (cells h) \<and> sorted_wrt (\<lambda>x y. \<not> lt y x) xs"
proof -
  obtain h1 where h1: "heap_Init ops h = Inr h1" "client_ok h1" "mset (cells h1) = mset (cells h)"
    "is_heap lt (cells h1)"
    using heap_client.Init_builds [OF assms] by blast
  then have "length (cells h1) = length (cells h)" by (auto dest: mset_eq_length)
  with h1 heap_client.drain_sorts [OF assms(1), of h1] show ?thesis by simp
qed

theorem Init_drain_sorts_witness:
  "\<exists>xs. andThen (heap_Init (slice_heap (<)) [5, 3, 4 :: int]) (heap_drain (slice_heap (<)) 3) = Inr (xs, [])
    \<and> mset xs = {#5, 3, 4#} \<and> sorted_wrt (\<lambda>x y. \<not> y < x) xs"
  using Init_drain_sorts [OF int_slice_heap.heap_client_axioms, of "[5, 3, 4]"]
  by (simp add: maxInt_def eval_nat_numeral(2,3))

end
