(* ===== verification/Links.thy ===== *)
theory Links
  imports Prelude
begin

text \<open>
  Doubly linked nodes in a store, seen through two functions \<open>nx\<close> and \<open>pv\<close> (the \<open>next\<close> and
  \<open>prev\<close> pointers): paths, closed paths, and what inserting, removing and linking do to them.
  Both \<open>List\<close> and \<open>Ring\<close> rest on these lemmas.
\<close>

section \<open>Paths\<close>

text \<open>\<open>path nx pv x ys\<close>: following \<open>next\<close> from \<open>x\<close> leads through \<open>ys\<close>, and \<open>prev\<close> leads back.\<close>

fun path :: "('p \<Rightarrow> 'p option) \<Rightarrow> ('p \<Rightarrow> 'p option) \<Rightarrow> 'p \<Rightarrow> 'p list \<Rightarrow> bool" where
  "path nx pv x [] \<longleftrightarrow> True"
| "path nx pv x (y # ys) \<longleftrightarrow> nx x = Some y \<and> pv y = Some x \<and> path nx pv y ys"

text \<open>A circle: the nodes \<open>r # xs\<close>, each once, and back to \<open>r\<close>.\<close>

definition circle :: "('p \<Rightarrow> 'p option) \<Rightarrow> ('p \<Rightarrow> 'p option) \<Rightarrow> 'p list \<Rightarrow> bool" where
  "circle nx pv cs \<longleftrightarrow> cs \<noteq> [] \<and> distinct cs \<and> path nx pv (hd cs) (tl cs @ [hd cs])"

lemma circle_Cons: "circle nx pv (r # xs) \<longleftrightarrow> distinct (r # xs) \<and> path nx pv r (xs @ [r])"
  by (simp add: circle_def)

lemma path_append: "path nx pv x (ys @ zs) \<longleftrightarrow> path nx pv x ys \<and> path nx pv (last (x # ys)) zs"
  by (induction ys arbitrary: x) auto

lemma path_frame:
  "path nx pv x ys \<Longrightarrow> (\<And>a. a \<in> set (butlast (x # ys)) \<Longrightarrow> nx' a = nx a) \<Longrightarrow>
    (\<And>a. a \<in> set ys \<Longrightarrow> pv' a = pv a) \<Longrightarrow> path nx' pv' x ys"
  by (induction ys arbitrary: x) auto

lemma circle_frame:
  assumes "circle nx pv cs" "\<And>a. a \<in> set cs \<Longrightarrow> nx' a = nx a" "\<And>a. a \<in> set cs \<Longrightarrow> pv' a = pv a"
  shows "circle nx' pv' cs"
proof (cases cs)
  case (Cons r xs)
  with assms show ?thesis
    by (auto simp: circle_Cons intro!: path_frame [of nx pv r "xs @ [r]"])
qed (use assms in \<open>simp add: circle_def\<close>)

lemma circle_rotate1: "circle nx pv cs \<Longrightarrow> circle nx pv (rotate1 cs)"
proof (cases cs)
  case (Cons r xs)
  assume c: "circle nx pv cs"
  show ?thesis
  proof (cases xs)
    case (Cons y ys)
    with \<open>cs = r # xs\<close> c show ?thesis by (auto simp: circle_Cons path_append)
  qed (use \<open>cs = r # xs\<close> c in simp)
qed simp

lemma circle_rotate: "circle nx pv cs \<Longrightarrow> circle nx pv (rotate k cs)"
  by (induction k) (simp_all add: circle_rotate1)

text \<open>Any node of a circle may be taken as its start.\<close>

lemma circle_from:
  assumes "circle nx pv (xs @ s # ys)"
  shows "circle nx pv (s # ys @ xs)"
  using circle_rotate [OF assms, of "length xs"] by (simp add: rotate_append)

text \<open>The two neighbours of a place in a circle.\<close>

lemma circle_gap:
  assumes "circle nx pv (r # ps @ qs)"
  shows "nx (last (r # ps)) = Some (hd (qs @ [r]))" "pv (hd (qs @ [r])) = Some (last (r # ps))"
proof -
  obtain n t where nt: "qs @ [r] = n # t" by (cases "qs @ [r]") auto
  have "path nx pv (last (r # ps)) (qs @ [r])" using assms by (simp add: circle_Cons path_append)
  then show "nx (last (r # ps)) = Some (hd (qs @ [r]))" "pv (hd (qs @ [r])) = Some (last (r # ps))"
    unfolding nt by simp_all
qed

text \<open>The pointers of a circle stay inside it.\<close>

lemma circle_points:
  assumes "circle nx' pv' cs" "a \<in> set cs"
  obtains b c where "nx' a = Some b" "b \<in> set cs" "pv' a = Some c" "c \<in> set cs"
proof -
  obtain xs ys where cs: "cs = xs @ a # ys" using assms(2) by (auto simp: in_set_conv_decomp)
  then have "circle nx' pv' (a # (ys @ xs))" using circle_from [of nx' pv' xs a ys] assms(1) by simp
  from circle_gap [of nx' pv' a "[]" "ys @ xs"] circle_gap [of nx' pv' a "ys @ xs" "[]"] this
  have "nx' a = Some (hd (ys @ xs @ [a]))" "pv' a = Some (last (a # ys @ xs))" by simp_all
  moreover have "hd (ys @ xs @ [a]) \<in> set cs" "last (a # ys @ xs) \<in> set cs"
    using hd_in_set [of "ys @ xs @ [a]"] last_in_set [of "a # ys @ xs"] cs by auto
  ultimately show ?thesis using that by blast
qed

section \<open>Insertion and removal\<close>

text \<open>Where the two neighbours of a gap are, and where they are not.\<close>

lemma gap_nodes:
  assumes d: "distinct (r # ps @ qs)" and at: "at = last (r # ps)" and nt: "qs @ [r] = n # t"
  shows "at \<in> set (r # ps)" "at \<notin> set (butlast (r # ps))" "at \<notin> set qs"
    and "n \<in> insert r (set qs)" "n \<notin> set ps" "n \<notin> set t"
    and "butlast (n # t) = qs" "set t \<subseteq> insert r (set qs)"
proof -
  show in_front: "at \<in> set (r # ps)" unfolding at by (rule last_in_set) simp
  with d show "at \<notin> set qs" by auto
  have "distinct (butlast (r # ps) @ [last (r # ps)])"
    using d append_butlast_last_id [of "r # ps"] by auto
  then show "at \<notin> set (butlast (r # ps))" by (simp only: distinct_append at) auto
  have dq: "distinct (n # t)" "set (n # t) = insert r (set qs)"
    using d unfolding nt [symmetric] by auto
  with d show "n \<in> insert r (set qs)" "n \<notin> set ps" "n \<notin> set t" "set t \<subseteq> insert r (set qs)" by auto
  show "butlast (n # t) = qs" by (simp add: nt [symmetric])
qed

lemma circle_insert:
  assumes c: "circle nx pv (r # ps @ qs)" and e: "e \<notin> set (r # ps @ qs)"
  defines "at \<equiv> last (r # ps)" and "n \<equiv> hd (qs @ [r])"
  assumes nx': "\<And>a. a \<in> set (r # ps @ e # qs) \<Longrightarrow>
      nx' a = (if a = e then Some n else if a = at then Some e else nx a)"
    and pv': "\<And>a. a \<in> set (r # ps @ e # qs) \<Longrightarrow>
      pv' a = (if a = n then Some e else if a = e then Some at else pv a)"
  shows "circle nx' pv' (r # ps @ e # qs)"
proof -
  obtain t where nt: "qs @ [r] = n # t" by (cases "qs @ [r]") (auto simp: n_def)
  have d: "distinct (r # ps @ qs)" and p: "path nx pv r ps" "path nx pv at (n # t)"
    using c nt by (auto simp: circle_Cons path_append at_def)
  note g = gap_nodes [OF d at_def [THEN meta_eq_to_obj_eq] nt]
  have "path nx' pv' r ps"
  proof (rule path_frame [OF p(1)])
    show "nx' a = nx a" if "a \<in> set (butlast (r # ps))" for a
      using that g(2) e in_set_butlastD [OF that] by (subst nx') auto
    show "pv' a = pv a" if "a \<in> set ps" for a
      using that g(5) e by (subst pv') auto
  qed
  moreover have "path nx' pv' at (e # n # t)"
  proof -
    have ne: "n \<noteq> e" using g(4) e by auto
    have "nx' at = Some e" using g(1) e by (subst nx') auto
    moreover have "pv' e = Some at" using ne by (subst pv') auto
    moreover have "nx' e = Some n" by (subst nx') auto
    moreover have "pv' n = Some e" using g(4) by (subst pv') auto
    moreover have "path nx' pv' n t"
    proof (rule path_frame [of nx pv])
      show "path nx pv n t" using p(2) by simp
      show "nx' a = nx a" if "a \<in> set (butlast (n # t))" for a
        using that g(3) e unfolding g(7) by (subst nx') auto
      show "pv' a = pv a" if "a \<in> set t" for a
        using that g(6) e g(8) by (subst pv') auto
    qed
    ultimately show ?thesis by simp
  qed
  ultimately have "path nx' pv' r (ps @ e # qs @ [r])"
    unfolding nt by (simp add: path_append at_def)
  with d e show ?thesis by (auto simp: circle_Cons)
qed

lemma circle_remove:
  assumes c: "circle nx pv (r # ps @ e # qs)"
  defines "at \<equiv> last (r # ps)" and "n \<equiv> hd (qs @ [r])"
  assumes nx': "\<And>a. a \<in> set (r # ps @ qs) \<Longrightarrow> nx' a = (if a = at then Some n else nx a)"
    and pv': "\<And>a. a \<in> set (r # ps @ qs) \<Longrightarrow> pv' a = (if a = n then Some at else pv a)"
  shows "circle nx' pv' (r # ps @ qs)"
proof -
  obtain t where nt: "qs @ [r] = n # t" by (cases "qs @ [r]") (auto simp: n_def)
  have d: "distinct (r # ps @ e # qs)" and p: "path nx pv r ps" "path nx pv e (n # t)"
    using c nt by (auto simp: circle_Cons path_append)
  have d': "distinct (r # ps @ qs)" using d by auto
  note g = gap_nodes [OF d' at_def [THEN meta_eq_to_obj_eq] nt]
  have "path nx' pv' r ps"
  proof (rule path_frame [OF p(1)])
    show "nx' a = nx a" if "a \<in> set (butlast (r # ps))" for a
      using that g(2) in_set_butlastD [OF that] by (subst nx') auto
    show "pv' a = pv a" if "a \<in> set ps" for a
      using that g(5) by (subst pv') auto
  qed
  moreover have "path nx' pv' at (n # t)"
  proof -
    have "nx' at = Some n" using g(1) by (subst nx') auto
    moreover have "pv' n = Some at" using g(4) by (subst pv') auto
    moreover have "path nx' pv' n t"
    proof (rule path_frame [of nx pv])
      show "path nx pv n t" using p(2) by simp
      show "nx' a = nx a" if "a \<in> set (butlast (n # t))" for a
        using that g(3) unfolding g(7) by (subst nx') auto
      show "pv' a = pv a" if "a \<in> set t" for a
        using that g(6) g(8) by (subst pv') auto
    qed
    ultimately show ?thesis by simp
  qed
  ultimately have "path nx' pv' r (ps @ qs @ [r])"
    unfolding nt by (simp add: path_append at_def)
  with d show ?thesis by (simp add: circle_Cons)
qed

section \<open>Joining and splitting circles\<close>

text \<open>
  The four assignments \<open>r.next = s; s.prev = r; n.prev = p; p.next = n\<close> with \<open>n\<close> after \<open>r\<close> and \<open>p\<close>
  before \<open>s\<close> join two circles, or cut one circle in two.
\<close>

lemma circle_join:
  assumes c: "circle nx pv (r # xs)" "circle nx pv (s # ys)" and d: "set (r # xs) \<inter> set (s # ys) = {}"
  defines "n \<equiv> hd (xs @ [r])" and "p \<equiv> last (s # ys)"
  shows "circle (nx(r := Some s, p := Some n)) (pv(s := Some r, n := Some p)) (r # s # ys @ xs)"
proof -
  obtain t where nt: "xs @ [r] = n # t" by (cases "xs @ [r]") (auto simp: n_def)
  let ?nx = "nx(r := Some s, p := Some n)" and ?pv = "pv(s := Some r, n := Some p)"
  have dist: "distinct (r # xs)" "distinct (s # ys)" and paths: "path nx pv r (n # t)" "path nx pv s ys"
    using c by (auto simp: circle_Cons path_append nt)
  have p: "p \<in> set (s # ys)" unfolding p_def by (rule last_in_set) simp
  have nt_set: "set (n # t) = insert r (set xs)" "distinct (n # t)" "butlast (n # t) = xs"
    using dist(1) unfolding nt [symmetric] by auto
  have p_last: "p \<notin> set (butlast (s # ys))"
    using dist(2) append_butlast_last_id [of "s # ys"] unfolding p_def
    by (metis distinct_append not_distinct_conv_prefix list.distinct(1) append.assoc)
  have "path ?nx ?pv s ys"
  proof (rule path_frame [OF paths(2)])
    show "?nx a = nx a" if "a \<in> set (butlast (s # ys))" for a
      using that p_last d in_set_butlastD [OF that] by auto
    show "?pv a = pv a" if "a \<in> set ys" for a
      using that dist(2) d nt_set(1) by auto
  qed
  moreover have "path ?nx ?pv n t"
  proof (rule path_frame [of nx pv])
    show "path nx pv n t" using paths(1) by simp
    show "?nx a = nx a" if "a \<in> set (butlast (n # t))" for a
      using that dist(1) p d unfolding nt_set(3) by auto
    show "?pv a = pv a" if "a \<in> set t" for a
      using that nt_set(1,2) d by auto
  qed
  moreover have "?nx r = Some s" "?pv s = Some r" "?nx p = Some n" "?pv n = Some p"
    using p d nt_set(1) by auto
  ultimately have "path ?nx ?pv r (s # ys @ xs @ [r])"
    unfolding nt by (simp add: path_append p_def [symmetric] del: last.simps)
  with dist d show ?thesis by (auto simp: circle_Cons)
qed

lemma circle_cut:
  assumes c: "circle nx pv (r # as @ bs)"
  defines "s \<equiv> hd (bs @ [r])" and "n \<equiv> hd (as @ bs @ [r])" and "p \<equiv> last (r # as)"
  shows "circle (nx(r := Some s, p := Some n)) (pv(s := Some r, n := Some p)) (r # bs)"
    and "as \<noteq> [] \<Longrightarrow> circle (nx(r := Some s, p := Some n)) (pv(s := Some r, n := Some p)) as"
    and "as = [] \<Longrightarrow> nx(r := Some s, p := Some n) = nx \<and> pv(s := Some r, n := Some p) = pv"
proof -
  let ?nx = "nx(r := Some s, p := Some n)" and ?pv = "pv(s := Some r, n := Some p)"
  show triv: "as = [] \<Longrightarrow> ?nx = nx \<and> ?pv = pv"
    using circle_gap [of nx pv r "[]" bs] c by (auto simp: s_def n_def p_def fun_upd_idem)
  obtain t where st: "bs @ [r] = s # t" by (cases "bs @ [r]") (auto simp: s_def)
  have dist: "distinct (r # as @ bs)" using c by (simp add: circle_Cons)
  have paths: "path nx pv r as" "path nx pv p (s # t)"
    using c by (auto simp: circle_Cons path_append st p_def)
  have st_set: "set (s # t) = insert r (set bs)" "distinct (s # t)" "butlast (s # t) = bs"
    using dist unfolding st [symmetric] by auto
  have "circle ?nx ?pv (r # bs) \<and> circle ?nx ?pv as" if ne: "as \<noteq> []"
  proof -
    obtain as' where as: "as = n # as'" using ne by (cases as) (auto simp: n_def)
    have p: "p = last as" "p \<in> set as" using ne by (simp_all add: p_def)
    have p_last: "p \<notin> set (butlast as)"
      using dist append_butlast_last_id [OF ne] unfolding p(1)
      by (metis distinct.simps(2) distinct_append not_distinct_conv_prefix append.assoc)
    have "path ?nx ?pv s t"
    proof (rule path_frame [of nx pv])
      show "path nx pv s t" using paths(2) by simp
      show "?nx a = nx a" if "a \<in> set (butlast (s # t))" for a
        using that dist p unfolding st_set(3) by auto
      show "?pv a = pv a" if "a \<in> set t" for a
        using that st_set dist as by auto
    qed
    moreover have "?nx r = Some s" "?pv s = Some r" using dist p st_set(1) as by auto
    ultimately have "path ?nx ?pv r (bs @ [r])" unfolding st by simp
    moreover have "path ?nx ?pv n as'"
    proof (rule path_frame [of nx pv])
      show "path nx pv n as'" using paths(1) as by simp
      show "?nx a = nx a" if "a \<in> set (butlast (n # as'))" for a
        using that dist p_last in_set_butlastD [OF that] unfolding as [symmetric] by auto
      show "?pv a = pv a" if "a \<in> set as'" for a
        using that st_set dist as by auto
    qed
    moreover have "?nx (last (n # as')) = Some n" "?pv n = Some p" "last (n # as') = p"
      using p as by auto
    ultimately show ?thesis
      using dist unfolding as by (auto simp: circle_Cons path_append)
  qed
  with triv c show "circle ?nx ?pv (r # bs)" "as \<noteq> [] \<Longrightarrow> circle ?nx ?pv as"
    by (cases "as = []"; auto)+
qed

end
