(* ===== verification/LinkedList.thy ===== *)
theory LinkedList
  imports Links Errs
begin

text \<open>
  \<open>list.go\<close>: the doubly linked \<open>List[T]\<close> and its \<open>Element[T]\<close>.  Pointers matter here (an element
  belongs to a list, two lists may exchange elements by mistake), so the model has an explicit
  store of elements.  A node is the sentinel \<open>&l.root\<close> of a list or an element the program
  allocated; a pointer is an optional node, \<open>None\<close> being nil.  The contract: each list is a
  sequence of its own elements, and every operation is the sequence operation.
\<close>

section \<open>The store\<close>

datatype node = Root nat | Elem nat

record 'a Element =
  e_next :: "node option"
  e_prev :: "node option"
  e_list :: "nat option"
  e_Value :: 'a

text \<open>
  \<open>ls_elem\<close> holds the sentinels and the elements, \<open>ls_len\<close> the field \<open>len\<close> of each list;
  \<open>ls_fresh\<close> is the next address the allocator hands out.
\<close>

record 'a list_store =
  ls_elem :: "node \<Rightarrow> 'a Element option"
  ls_len :: "nat \<Rightarrow> int"
  ls_fresh :: nat

definition load :: "'a list_store \<Rightarrow> node option \<Rightarrow> go_panic + 'a Element" where
  "load st p =
     (case p of None \<Rightarrow> Inl NilDeref
      | Some a \<Rightarrow> (case ls_elem st a of None \<Rightarrow> Inl NilDeref | Some e \<Rightarrow> Inr e))"

text \<open>The assignments \<open>p.next = v\<close>, \<open>p.prev = v\<close> and \<open>p.list = v\<close>.\<close>

definition put :: "'a list_store \<Rightarrow> node \<Rightarrow> 'a Element \<Rightarrow> 'a list_store" where
  "put st a e = st\<lparr>ls_elem := (ls_elem st)(a := Some e)\<rparr>"

definition set_next :: "'a list_store \<Rightarrow> node option \<Rightarrow> node option \<Rightarrow> go_panic + 'a list_store" where
  "set_next st p v = andThen (load st p) (\<lambda>e. Inr (put st (the p) (e\<lparr>e_next := v\<rparr>)))"

definition set_prev :: "'a list_store \<Rightarrow> node option \<Rightarrow> node option \<Rightarrow> go_panic + 'a list_store" where
  "set_prev st p v = andThen (load st p) (\<lambda>e. Inr (put st (the p) (e\<lparr>e_prev := v\<rparr>)))"

definition set_list :: "'a list_store \<Rightarrow> node option \<Rightarrow> nat option \<Rightarrow> go_panic + 'a list_store" where
  "set_list st p v = andThen (load st p) (\<lambda>e. Inr (put st (the p) (e\<lparr>e_list := v\<rparr>)))"

definition add_len :: "'a list_store \<Rightarrow> nat \<Rightarrow> int \<Rightarrow> 'a list_store" where
  "add_len st l d = st\<lparr>ls_len := (ls_len st)(l := ls_len st l + d)\<rparr>"

section \<open>Elements\<close>

definition Element_Next :: "'a list_store \<Rightarrow> node option \<Rightarrow> go_panic + node option" where
  "Element_Next st e =
     andThen (load st e) (\<lambda>x.
       let p = e_next x
       in case e_list x of
            Some l \<Rightarrow> if p \<noteq> Some (Root l) then Inr p else Inr None
          | None \<Rightarrow> Inr None)"

definition Element_Prev :: "'a list_store \<Rightarrow> node option \<Rightarrow> go_panic + node option" where
  "Element_Prev st e =
     andThen (load st e) (\<lambda>x.
       let p = e_prev x
       in case e_list x of
            Some l \<Rightarrow> if p \<noteq> Some (Root l) then Inr p else Inr None
          | None \<Rightarrow> Inr None)"

section \<open>Lists\<close>

definition List_Init :: "'a list_store \<Rightarrow> nat \<Rightarrow> go_panic + 'a list_store" where
  "List_Init st l =
     andThen (set_next st (Some (Root l)) (Some (Root l))) (\<lambda>st1.
     andThen (set_prev st1 (Some (Root l)) (Some (Root l))) (\<lambda>st2.
       Inr (st2\<lparr>ls_len := (ls_len st2)(l := 0)\<rparr>)))"

text \<open>\<open>new(List[T]).Init()\<close>; \<open>z\<close> is the zero value of the item type.\<close>

definition NewList :: "'a \<Rightarrow> 'a list_store \<Rightarrow> go_panic + (nat \<times> 'a list_store)" where
  "NewList z st =
     (let l = ls_fresh st;
          st1 = put st (Root l) \<lparr>e_next = None, e_prev = None, e_list = None, e_Value = z\<rparr>
      in andThen (List_Init (st1\<lparr>ls_fresh := l + 1\<rparr>) l) (\<lambda>st2. Inr (l, st2)))"

definition List_Len :: "'a list_store \<Rightarrow> nat \<Rightarrow> int" where
  "List_Len st l = ls_len st l"

definition List_Front :: "'a list_store \<Rightarrow> nat \<Rightarrow> go_panic + node option" where
  "List_Front st l =
     (if ls_len st l = 0 then Inr None
      else andThen (load st (Some (Root l))) (\<lambda>r. Inr (e_next r)))"

definition List_Back :: "'a list_store \<Rightarrow> nat \<Rightarrow> go_panic + node option" where
  "List_Back st l =
     (if ls_len st l = 0 then Inr None
      else andThen (load st (Some (Root l))) (\<lambda>r. Inr (e_prev r)))"

definition List_lazyInit :: "'a list_store \<Rightarrow> nat \<Rightarrow> go_panic + 'a list_store" where
  "List_lazyInit st l =
     andThen (load st (Some (Root l))) (\<lambda>r. if e_next r = None then List_Init st l else Inr st)"

definition List_insert ::
  "'a list_store \<Rightarrow> nat \<Rightarrow> node option \<Rightarrow> node option \<Rightarrow> go_panic + (node option \<times> 'a list_store)" where
  "List_insert st l e at =
     andThen (set_prev st e at) (\<lambda>st1.
     andThen (load st1 at) (\<lambda>a.
     andThen (set_next st1 e (e_next a)) (\<lambda>st2.
     andThen (load st2 e) (\<lambda>x2.
     andThen (set_next st2 (e_prev x2) e) (\<lambda>st3.
     andThen (load st3 e) (\<lambda>x3.
     andThen (set_prev st3 (e_next x3) e) (\<lambda>st4.
     andThen (set_list st4 e (Some l)) (\<lambda>st5.
       Inr (e, add_len st5 l 1)))))))))"

definition List_insertValue ::
  "'a list_store \<Rightarrow> nat \<Rightarrow> 'a \<Rightarrow> node option \<Rightarrow> go_panic + (node option \<times> 'a list_store)" where
  "List_insertValue st l v at =
     (let e = Elem (ls_fresh st);
          st1 = put st e \<lparr>e_next = None, e_prev = None, e_list = None, e_Value = v\<rparr>
      in List_insert (st1\<lparr>ls_fresh := ls_fresh st + 1\<rparr>) l (Some e) at)"

definition List_remove :: "'a list_store \<Rightarrow> nat \<Rightarrow> node option \<Rightarrow> go_panic + 'a list_store" where
  "List_remove st l e =
     andThen (load st e) (\<lambda>x.
     andThen (set_next st (e_prev x) (e_next x)) (\<lambda>st1.
     andThen (load st1 e) (\<lambda>x1.
     andThen (set_prev st1 (e_next x1) (e_prev x1)) (\<lambda>st2.
     andThen (set_next st2 e None) (\<lambda>st3.
     andThen (set_prev st3 e None) (\<lambda>st4.
     andThen (set_list st4 e None) (\<lambda>st5.
       Inr (add_len st5 l (- 1)))))))))"

definition List_move :: "'a list_store \<Rightarrow> node option \<Rightarrow> node option \<Rightarrow> go_panic + 'a list_store" where
  "List_move st e at =
     (if e = at then Inr st
      else
        andThen (load st e) (\<lambda>x.
        andThen (set_next st (e_prev x) (e_next x)) (\<lambda>st1.
        andThen (load st1 e) (\<lambda>x1.
        andThen (set_prev st1 (e_next x1) (e_prev x1)) (\<lambda>st2.
        andThen (set_prev st2 e at) (\<lambda>st3.
        andThen (load st3 at) (\<lambda>a.
        andThen (set_next st3 e (e_next a)) (\<lambda>st4.
        andThen (load st4 e) (\<lambda>x4.
        andThen (set_next st4 (e_prev x4) e) (\<lambda>st5.
        andThen (load st5 e) (\<lambda>x5.
          set_prev st5 (e_next x5) e)))))))))))"

definition List_Remove :: "'a list_store \<Rightarrow> nat \<Rightarrow> node option \<Rightarrow> go_panic + ('a \<times> 'a list_store)" where
  "List_Remove st l e =
     andThen (load st e) (\<lambda>x.
     andThen (if e_list x = Some l then List_remove st l e else Inr st) (\<lambda>st1.
     andThen (load st1 e) (\<lambda>x1. Inr (e_Value x1, st1))))"

definition List_PushFront :: "'a list_store \<Rightarrow> nat \<Rightarrow> 'a \<Rightarrow> go_panic + (node option \<times> 'a list_store)" where
  "List_PushFront st l v =
     andThen (List_lazyInit st l) (\<lambda>st1. List_insertValue st1 l v (Some (Root l)))"

definition List_PushBack :: "'a list_store \<Rightarrow> nat \<Rightarrow> 'a \<Rightarrow> go_panic + (node option \<times> 'a list_store)" where
  "List_PushBack st l v =
     andThen (List_lazyInit st l) (\<lambda>st1.
     andThen (load st1 (Some (Root l))) (\<lambda>r. List_insertValue st1 l v (e_prev r)))"

definition List_InsertBefore ::
  "'a list_store \<Rightarrow> nat \<Rightarrow> 'a \<Rightarrow> node option \<Rightarrow> go_panic + (node option \<times> 'a list_store)" where
  "List_InsertBefore st l v mark =
     andThen (load st mark) (\<lambda>m.
       if e_list m \<noteq> Some l then Inr (None, st) else List_insertValue st l v (e_prev m))"

definition List_InsertAfter ::
  "'a list_store \<Rightarrow> nat \<Rightarrow> 'a \<Rightarrow> node option \<Rightarrow> go_panic + (node option \<times> 'a list_store)" where
  "List_InsertAfter st l v mark =
     andThen (load st mark) (\<lambda>m.
       if e_list m \<noteq> Some l then Inr (None, st) else List_insertValue st l v mark)"

definition List_MoveToFront :: "'a list_store \<Rightarrow> nat \<Rightarrow> node option \<Rightarrow> go_panic + 'a list_store" where
  "List_MoveToFront st l e =
     andThen (load st e) (\<lambda>x.
     andThen (load st (Some (Root l))) (\<lambda>r.
       if e_list x \<noteq> Some l \<or> e_next r = e then Inr st else List_move st e (Some (Root l))))"

definition List_MoveToBack :: "'a list_store \<Rightarrow> nat \<Rightarrow> node option \<Rightarrow> go_panic + 'a list_store" where
  "List_MoveToBack st l e =
     andThen (load st e) (\<lambda>x.
     andThen (load st (Some (Root l))) (\<lambda>r.
       if e_list x \<noteq> Some l \<or> e_prev r = e then Inr st else List_move st e (e_prev r)))"

definition List_MoveBefore ::
  "'a list_store \<Rightarrow> nat \<Rightarrow> node option \<Rightarrow> node option \<Rightarrow> go_panic + 'a list_store" where
  "List_MoveBefore st l e mark =
     andThen (load st e) (\<lambda>x.
       if e_list x \<noteq> Some l \<or> e = mark then Inr st
       else andThen (load st mark) (\<lambda>m.
              if e_list m \<noteq> Some l then Inr st else List_move st e (e_prev m)))"

definition List_MoveAfter ::
  "'a list_store \<Rightarrow> nat \<Rightarrow> node option \<Rightarrow> node option \<Rightarrow> go_panic + 'a list_store" where
  "List_MoveAfter st l e mark =
     andThen (load st e) (\<lambda>x.
       if e_list x \<noteq> Some l \<or> e = mark then Inr st
       else andThen (load st mark) (\<lambda>m.
              if e_list m \<noteq> Some l then Inr st else List_move st e mark))"

text \<open>
  The loops of \<open>PushBackList\<close> and \<open>PushFrontList\<close>: \<open>i\<close> elements of the other list from \<open>e\<close> on.
  The post statement \<open>e.Next()\<close> runs after every insertion, the last one too.
\<close>

function List_PushBackList_loop ::
  "'a list_store \<Rightarrow> nat \<Rightarrow> int \<Rightarrow> node option \<Rightarrow> go_panic + 'a list_store" where
  "List_PushBackList_loop st l i e =
     (if i > 0 then
        andThen (load st e) (\<lambda>x.
        andThen (load st (Some (Root l))) (\<lambda>r.
        andThen (List_insertValue st l (e_Value x) (e_prev r)) (\<lambda>(_, st1).
        andThen (Element_Next st1 e) (\<lambda>e'. List_PushBackList_loop st1 l (i - 1) e'))))
      else Inr st)"
  by pat_completeness auto
termination
  by (relation "measure (\<lambda>(st, l, i, e). nat i)") auto

function List_PushFrontList_loop ::
  "'a list_store \<Rightarrow> nat \<Rightarrow> int \<Rightarrow> node option \<Rightarrow> go_panic + 'a list_store" where
  "List_PushFrontList_loop st l i e =
     (if i > 0 then
        andThen (load st e) (\<lambda>x.
        andThen (List_insertValue st l (e_Value x) (Some (Root l))) (\<lambda>(_, st1).
        andThen (Element_Prev st1 e) (\<lambda>e'. List_PushFrontList_loop st1 l (i - 1) e')))
      else Inr st)"
  by pat_completeness auto
termination
  by (relation "measure (\<lambda>(st, l, i, e). nat i)") auto

declare List_PushBackList_loop.simps [simp del] List_PushFrontList_loop.simps [simp del]

definition List_PushBackList :: "'a list_store \<Rightarrow> nat \<Rightarrow> nat \<Rightarrow> go_panic + 'a list_store" where
  "List_PushBackList st l other =
     andThen (List_lazyInit st l) (\<lambda>st1.
     andThen (List_Front st1 other) (\<lambda>e. List_PushBackList_loop st1 l (List_Len st1 other) e))"

definition List_PushFrontList :: "'a list_store \<Rightarrow> nat \<Rightarrow> nat \<Rightarrow> go_panic + 'a list_store" where
  "List_PushFrontList st l other =
     andThen (List_lazyInit st l) (\<lambda>st1.
     andThen (List_Back st1 other) (\<lambda>e. List_PushFrontList_loop st1 l (List_Len st1 other) e))"

section \<open>Views of the store\<close>

definition nx :: "'a list_store \<Rightarrow> node \<Rightarrow> node option" where
  "nx st a = (case ls_elem st a of None \<Rightarrow> None | Some e \<Rightarrow> e_next e)"

definition pv :: "'a list_store \<Rightarrow> node \<Rightarrow> node option" where
  "pv st a = (case ls_elem st a of None \<Rightarrow> None | Some e \<Rightarrow> e_prev e)"

definition owner :: "'a list_store \<Rightarrow> node \<Rightarrow> nat option" where
  "owner st a = (case ls_elem st a of None \<Rightarrow> None | Some e \<Rightarrow> e_list e)"

definition val :: "'a list_store \<Rightarrow> node \<Rightarrow> 'a option" where
  "val st a = (case ls_elem st a of None \<Rightarrow> None | Some e \<Rightarrow> Some (e_Value e))"

definition allocated :: "'a list_store \<Rightarrow> node \<Rightarrow> bool" where
  "allocated st a \<longleftrightarrow> ls_elem st a \<noteq> None"

text \<open>One assignment to an allocated node.\<close>

definition assign :: "'a list_store \<Rightarrow> node \<Rightarrow> ('a Element \<Rightarrow> 'a Element) \<Rightarrow> 'a list_store" where
  "assign st a f = put st a (f (the (ls_elem st a)))"

named_theorems store_simps \<open>loads and stores of allocated nodes\<close>

lemma load_allocated [store_simps]: "allocated st a \<Longrightarrow> load st (Some a) = Inr (the (ls_elem st a))"
  by (auto simp: load_def allocated_def)

lemma set_allocated [store_simps]:
  "allocated st a \<Longrightarrow> set_next st (Some a) v = Inr (assign st a (\<lambda>e. e\<lparr>e_next := v\<rparr>))"
  "allocated st a \<Longrightarrow> set_prev st (Some a) v = Inr (assign st a (\<lambda>e. e\<lparr>e_prev := v\<rparr>))"
  "allocated st a \<Longrightarrow> set_list st (Some a) k = Inr (assign st a (\<lambda>e. e\<lparr>e_list := k\<rparr>))"
  by (simp_all add: set_next_def set_prev_def set_list_def load_allocated assign_def)

lemma fields_allocated [store_simps]:
  "allocated st a \<Longrightarrow> e_next (the (ls_elem st a)) = nx st a"
  "allocated st a \<Longrightarrow> e_prev (the (ls_elem st a)) = pv st a"
  "allocated st a \<Longrightarrow> e_list (the (ls_elem st a)) = owner st a"
  "allocated st a \<Longrightarrow> Some (e_Value (the (ls_elem st a))) = val st a"
  by (auto simp: allocated_def nx_def pv_def owner_def val_def)

lemma allocated_assign [store_simps]:
  "allocated st a \<Longrightarrow> allocated (assign st a f) = allocated st"
  by (auto simp: fun_eq_iff allocated_def assign_def put_def)

lemma assign_next [store_simps]:
  assumes "allocated st a"
  shows "nx (assign st a (\<lambda>e. e\<lparr>e_next := v\<rparr>)) = (nx st)(a := v)"
    "pv (assign st a (\<lambda>e. e\<lparr>e_next := v\<rparr>)) = pv st"
    "owner (assign st a (\<lambda>e. e\<lparr>e_next := v\<rparr>)) = owner st"
    "val (assign st a (\<lambda>e. e\<lparr>e_next := v\<rparr>)) = val st"
  using assms
  by (auto simp: fun_eq_iff allocated_def assign_def put_def nx_def pv_def owner_def val_def)

lemma assign_prev [store_simps]:
  assumes "allocated st a"
  shows "nx (assign st a (\<lambda>e. e\<lparr>e_prev := v\<rparr>)) = nx st"
    "pv (assign st a (\<lambda>e. e\<lparr>e_prev := v\<rparr>)) = (pv st)(a := v)"
    "owner (assign st a (\<lambda>e. e\<lparr>e_prev := v\<rparr>)) = owner st"
    "val (assign st a (\<lambda>e. e\<lparr>e_prev := v\<rparr>)) = val st"
  using assms
  by (auto simp: fun_eq_iff allocated_def assign_def put_def nx_def pv_def owner_def val_def)

lemma assign_list [store_simps]:
  assumes "allocated st a"
  shows "nx (assign st a (\<lambda>e. e\<lparr>e_list := v\<rparr>)) = nx st"
    "pv (assign st a (\<lambda>e. e\<lparr>e_list := v\<rparr>)) = pv st"
    "owner (assign st a (\<lambda>e. e\<lparr>e_list := v\<rparr>)) = (owner st)(a := v)"
    "val (assign st a (\<lambda>e. e\<lparr>e_list := v\<rparr>)) = val st"
  using assms
  by (auto simp: fun_eq_iff allocated_def assign_def put_def nx_def pv_def owner_def val_def)

lemma assign_rest [store_simps]:
  "ls_len (assign st a f) = ls_len st" "ls_fresh (assign st a f) = ls_fresh st"
  by (simp_all add: assign_def put_def)

lemma add_len_views [store_simps]:
  "nx (add_len st l d) = nx st" "pv (add_len st l d) = pv st" "owner (add_len st l d) = owner st"
  "val (add_len st l d) = val st" "allocated (add_len st l d) = allocated st"
  "ls_fresh (add_len st l d) = ls_fresh st"
  "ls_len (add_len st l d) = (ls_len st)(l := ls_len st l + d)"
  by (auto simp: fun_eq_iff add_len_def nx_def pv_def owner_def val_def allocated_def)

lemma pointed_allocated: "nx st a = Some b \<Longrightarrow> allocated st a" "pv st a = Some b \<Longrightarrow> allocated st a"
  by (auto simp: nx_def pv_def allocated_def split: option.splits)

section \<open>What the pointer manipulations do\<close>

lemma insert_views:
  assumes "allocated st e" "allocated st n" "nx st at = Some n" "e \<noteq> at" "e \<noteq> n"
  shows "\<exists>st'. List_insert st l (Some e) (Some at) = Inr (Some e, st')
    \<and> nx st' = (nx st)(e := Some n, at := Some e) \<and> pv st' = (pv st)(e := Some at, n := Some e)
    \<and> owner st' = (owner st)(e := Some l) \<and> val st' = val st \<and> allocated st' = allocated st
    \<and> ls_len st' = (ls_len st)(l := ls_len st l + 1) \<and> ls_fresh st' = ls_fresh st"
  using assms pointed_allocated(1) [OF assms(3)]
  by (simp add: List_insert_def store_simps)

lemma remove_views:
  assumes "nx st e = Some n" "pv st e = Some p" "allocated st n" "allocated st p" "e \<noteq> n" "e \<noteq> p"
  shows "\<exists>st'. List_remove st l (Some e) = Inr st'
    \<and> nx st' = (nx st)(p := Some n, e := None) \<and> pv st' = (pv st)(n := Some p, e := None)
    \<and> owner st' = (owner st)(e := None) \<and> val st' = val st \<and> allocated st' = allocated st
    \<and> ls_len st' = (ls_len st)(l := ls_len st l - 1) \<and> ls_fresh st' = ls_fresh st"
  using assms pointed_allocated(1) [OF assms(1)]
  by (simp add: List_remove_def store_simps)

lemma move_views:
  assumes "nx st e = Some n" "pv st e = Some p" "allocated st n" "allocated st p" "e \<noteq> n" "e \<noteq> p"
    and "e \<noteq> at" "allocated st at" "((nx st)(p := Some n)) at = Some b" "allocated st b" "b \<noteq> e"
  shows "\<exists>st'. List_move st (Some e) (Some at) = Inr st'
    \<and> nx st' = (nx st)(p := Some n, e := Some b, at := Some e)
    \<and> pv st' = (pv st)(n := Some p, e := Some at, b := Some e)
    \<and> owner st' = owner st \<and> val st' = val st \<and> allocated st' = allocated st
    \<and> ls_len st' = ls_len st \<and> ls_fresh st' = ls_fresh st"
  using assms pointed_allocated(1) [OF assms(1)]
  by (simp add: List_move_def store_simps split: if_splits)

section \<open>Stores of lists\<close>

text \<open>
  \<open>lists_ok st m\<close>: the store holds the lists in the domain of \<open>m\<close>, the list \<open>l\<close> consisting of the
  elements \<open>m l\<close> in this order.  Each is a circle through its sentinel, an element knows the one
  list it is in, and addresses from \<open>ls_fresh\<close> on are free.  Any other list the program has is a
  zero value not yet initialised: its length is 0 and the \<open>next\<close> pointer of its sentinel nil.
\<close>

definition nodes_of :: "nat \<Rightarrow> nat list \<Rightarrow> node list" where
  "nodes_of l ps = Root l # map Elem ps"

definition lists_ok :: "'a list_store \<Rightarrow> (nat \<Rightarrow> nat list option) \<Rightarrow> bool" where
  "lists_ok st m \<longleftrightarrow>
     (\<forall>l ps. m l = Some ps \<longrightarrow> circle (nx st) (pv st) (nodes_of l ps) \<and> ls_len st l = int (length ps))
     \<and> (\<forall>p l. owner st (Elem p) = Some l \<longleftrightarrow> (\<exists>ps. m l = Some ps \<and> p \<in> set ps))
     \<and> (\<forall>k. ls_fresh st \<le> k \<longrightarrow> \<not> allocated st (Elem k) \<and> \<not> allocated st (Root k))
     \<and> (\<forall>l. m l = None \<longrightarrow> ls_len st l = 0 \<and> nx st (Root l) = None)"

lemma lists_okD:
  assumes "lists_ok st m"
  shows "m l = Some ps \<Longrightarrow> circle (nx st) (pv st) (nodes_of l ps)"
    "m l = Some ps \<Longrightarrow> ls_len st l = int (length ps)"
    "owner st (Elem p) = Some l \<longleftrightarrow> (\<exists>ps. m l = Some ps \<and> p \<in> set ps)"
    "ls_fresh st \<le> k \<Longrightarrow> \<not> allocated st (Elem k) \<and> \<not> allocated st (Root k)"
    "m l = None \<Longrightarrow> ls_len st l = 0"
    "m l = None \<Longrightarrow> nx st (Root l) = None"
  using assms by (auto simp: lists_ok_def)

lemma nodes_ends:
  "last (nodes_of l ps) \<in> insert (Root l) (Elem ` set ps)"
  "hd (map Elem ps @ [Root l]) \<in> insert (Root l) (Elem ` set ps)"
proof -
  have "last (nodes_of l ps) \<in> set (nodes_of l ps)" by (rule last_in_set) (simp add: nodes_of_def)
  then show "last (nodes_of l ps) \<in> insert (Root l) (Elem ` set ps)"
    by (simp add: nodes_of_def del: last.simps)
  show "hd (map Elem ps @ [Root l]) \<in> insert (Root l) (Elem ` set ps)" by (cases ps) auto
qed

lemma set_nodes_of: "set (nodes_of l ps) = insert (Root l) (Elem ` set ps)"
  by (simp add: nodes_of_def)

lemma list_allocated:
  assumes "lists_ok st m" "m l = Some ps" "a \<in> set (nodes_of l ps)"
  shows "allocated st a"
  using circle_points [OF lists_okD(1) [OF assms(1,2)] assms(3)] pointed_allocated(1) by metis

text \<open>Nodes of different lists are different.\<close>

lemma lists_disjoint:
  assumes "lists_ok st m" "m l = Some ps" "m k = Some qs" "l \<noteq> k"
  shows "set (nodes_of l ps) \<inter> set (nodes_of k qs) = {}"
proof -
  have "p \<notin> set qs" if "p \<in> set ps" for p
    using lists_okD(3) [OF assms(1), of p l] lists_okD(3) [OF assms(1), of p k] assms that by auto
  with assms(4) show ?thesis by (auto simp: nodes_of_def)
qed

text \<open>
  Frame rule: an operation that touches the \<open>next\<close> and \<open>prev\<close> fields of the nodes in \<open>A\<close> only
  leaves every list without a node in \<open>A\<close> alone.
\<close>

lemma lists_frame:
  assumes ok: "lists_ok st m" "m l = Some ps" "m k = Some qs" "l \<noteq> k"
    and A: "\<And>a. a \<in> A \<Longrightarrow> a \<in> set (nodes_of l ps) \<or> (\<forall>n. owner st a \<noteq> Some n) \<and> (\<forall>n. a \<noteq> Root n)"
    and same: "\<And>a. a \<notin> A \<Longrightarrow> nx st' a = nx st a \<and> pv st' a = pv st a"
  shows "circle (nx st') (pv st') (nodes_of k qs)"
proof (rule circle_frame [OF lists_okD(1) [OF ok(1,3)]])
  have "a \<notin> A" if "a \<in> set (nodes_of k qs)" for a
  proof
    assume "a \<in> A"
    then consider "a \<in> set (nodes_of l ps)" | "\<forall>n. owner st a \<noteq> Some n" "\<forall>n. a \<noteq> Root n" using A by blast
    then show False
    proof cases
      case 1
      then show False using lists_disjoint [OF ok] that by blast
    next
      case 2
      then obtain p where "a = Elem p" "p \<in> set qs"
        using \<open>a \<in> set (nodes_of k qs)\<close> by (auto simp: nodes_of_def)
      with 2(1) lists_okD(3) [OF ok(1), of p k] ok(3) show False by simp
    qed
  qed
  then show "nx st' a = nx st a" "pv st' a = pv st a" if "a \<in> set (nodes_of k qs)" for a
    using that same by blast+
qed

text \<open>The three pointer manipulations on a store of lists.\<close>

lemma insert_ok:
  assumes ok: "lists_ok st m" and l: "m l = Some (ps @ qs)"
    and e: "allocated st (Elem e)" "owner st (Elem e) = None"
  shows "\<exists>st'. List_insert st l (Some (Elem e)) (Some (last (nodes_of l ps))) = Inr (Some (Elem e), st')
    \<and> lists_ok st' (m(l \<mapsto> ps @ e # qs)) \<and> val st' = val st \<and> allocated st' = allocated st"
proof -
  define at where "at = last (nodes_of l ps)"
  define n where "n = hd (map Elem qs @ [Root l])"
  have circ: "circle (nx st) (pv st) (Root l # map Elem ps @ map Elem qs)"
    using lists_okD(1) [OF ok l] by (simp add: nodes_of_def)
  have at: "nx st at = Some n"
    using circle_gap(1) [OF circ] by (simp add: at_def n_def nodes_of_def)
  have free: "e \<notin> set ps" "e \<notin> set qs" using lists_okD(3) [OF ok, of e l] e(2) l by auto
  have in_l: "at \<in> set (nodes_of l (ps @ qs))" "n \<in> set (nodes_of l (ps @ qs))"
    using last_in_set [of "nodes_of l ps"] hd_in_set [of "map Elem qs @ [Root l]"]
    by (auto simp: at_def n_def nodes_of_def)
  then have ne: "Elem e \<noteq> at" "Elem e \<noteq> n" using free by (auto simp: nodes_of_def)
  obtain st' where st': "List_insert st l (Some (Elem e)) (Some at) = Inr (Some (Elem e), st')"
    "nx st' = (nx st)(Elem e := Some n, at := Some (Elem e))"
    "pv st' = (pv st)(Elem e := Some at, n := Some (Elem e))"
    "owner st' = (owner st)(Elem e := Some l)" "val st' = val st" "allocated st' = allocated st"
    "ls_len st' = (ls_len st)(l := ls_len st l + 1)" "ls_fresh st' = ls_fresh st"
    using insert_views [OF e(1) list_allocated [OF ok l in_l(2)] at ne] by blast
  have "circle (nx st') (pv st') (Root l # map Elem ps @ Elem e # map Elem qs)"
    by (rule circle_insert [OF circ])
      (use free ne in \<open>auto simp: st' at_def n_def nodes_of_def\<close>)
  then have mine: "circle (nx st') (pv st') (nodes_of l (ps @ e # qs))" by (simp add: nodes_of_def)
  have other: "circle (nx st') (pv st') (nodes_of k rs)" if "m k = Some rs" "k \<noteq> l" for k rs
    by (rule lists_frame [OF ok l that(1) that(2) [symmetric], of "{Elem e, at, n}"])
      (use in_l e(2) in \<open>auto simp: st'\<close>)
  have zero: "nx st' (Root k) = None" if "m k = None" "k \<noteq> l" for k
    using in_l lists_okD(6) [OF ok that(1)] that(2) by (auto simp: st' nodes_of_def)
  have "owner st' (Elem p) = Some k \<longleftrightarrow> (\<exists>rs. (m(l \<mapsto> ps @ e # qs)) k = Some rs \<and> p \<in> set rs)" for p k
    using lists_okD(3) [OF ok, of p k] lists_okD(3) [OF ok, of e k] e(2) l by (auto simp: st')
  then have "lists_ok st' (m(l \<mapsto> ps @ e # qs))"
    using mine other zero lists_okD(2,4,5) [OF ok] l by (auto simp: lists_ok_def st')
  with st' show ?thesis by (auto simp: at_def)
qed

lemma remove_ok:
  assumes ok: "lists_ok st m" and l: "m l = Some (ps @ e # qs)"
  shows "\<exists>st'. List_remove st l (Some (Elem e)) = Inr st' \<and> lists_ok st' (m(l \<mapsto> ps @ qs))
    \<and> val st' = val st \<and> allocated st' = allocated st \<and> owner st' (Elem e) = None"
proof -
  define at where "at = last (nodes_of l ps)"
  define n where "n = hd (map Elem qs @ [Root l])"
  have circ: "circle (nx st) (pv st) (Root l # map Elem ps @ Elem e # map Elem qs)"
    using lists_okD(1) [OF ok l] by (simp add: nodes_of_def)
  then have d: "e \<notin> set ps" "e \<notin> set qs" by (auto simp: circle_Cons)
  have ptrs: "nx st (Elem e) = Some n" "pv st (Elem e) = Some at"
    using circle_gap(1) [of _ _ "Root l" "map Elem ps @ [Elem e]" "map Elem qs"]
      circle_gap(2) [of _ _ "Root l" "map Elem ps" "Elem e # map Elem qs"] circ
    by (simp_all add: at_def n_def nodes_of_def)
  have in_l: "at \<in> set (nodes_of l (ps @ e # qs))" "n \<in> set (nodes_of l (ps @ e # qs))"
    and ne: "Elem e \<noteq> n" "Elem e \<noteq> at"
    using last_in_set [of "nodes_of l ps"] hd_in_set [of "map Elem qs @ [Root l]"] d
    by (auto simp: at_def n_def nodes_of_def)
  obtain st' where st': "List_remove st l (Some (Elem e)) = Inr st'"
    "nx st' = (nx st)(at := Some n, Elem e := None)" "pv st' = (pv st)(n := Some at, Elem e := None)"
    "owner st' = (owner st)(Elem e := None)" "val st' = val st" "allocated st' = allocated st"
    "ls_len st' = (ls_len st)(l := ls_len st l - 1)" "ls_fresh st' = ls_fresh st"
    using remove_views [OF ptrs list_allocated [OF ok l in_l(2)] list_allocated [OF ok l in_l(1)] ne] by blast
  have "circle (nx st') (pv st') (Root l # map Elem ps @ map Elem qs)"
    by (rule circle_remove [OF circ])
      (use d in \<open>auto simp: st' at_def n_def nodes_of_def\<close>)
  then have mine: "circle (nx st') (pv st') (nodes_of l (ps @ qs))" by (simp add: nodes_of_def)
  have in_e: "Elem e \<in> set (nodes_of l (ps @ e # qs))" by (simp add: nodes_of_def)
  have other: "circle (nx st') (pv st') (nodes_of k rs)" if "m k = Some rs" "k \<noteq> l" for k rs
    by (rule lists_frame [OF ok l that(1) that(2) [symmetric], of "{Elem e, at, n}"])
      (use in_l in_e in \<open>auto simp: st'\<close>)
  have zero: "nx st' (Root k) = None" if "m k = None" "k \<noteq> l" for k
    using in_l lists_okD(6) [OF ok that(1)] that(2) by (auto simp: st' nodes_of_def)
  have "owner st' (Elem p) = Some k \<longleftrightarrow> (\<exists>rs. (m(l \<mapsto> ps @ qs)) k = Some rs \<and> p \<in> set rs)" for p k
    using lists_okD(3) [OF ok, of p k] lists_okD(3) [OF ok, of e k] lists_okD(3) [OF ok, of e l] l d
    by (auto simp: st')
  then have "lists_ok st' (m(l \<mapsto> ps @ qs))"
    using mine other zero lists_okD(2,4,5) [OF ok] l by (auto simp: lists_ok_def st')
  with st' show ?thesis by auto
qed

lemma move_ok:
  assumes ok: "lists_ok st m" and l: "m l = Some xs" and e: "e \<in> set xs" and r: "remove1 e xs = ps @ qs"
  shows "\<exists>st'. List_move st (Some (Elem e)) (Some (last (nodes_of l ps))) = Inr st'
    \<and> lists_ok st' (m(l \<mapsto> ps @ e # qs)) \<and> val st' = val st \<and> allocated st' = allocated st"
proof -
  obtain as bs where xs: "xs = as @ e # bs" "e \<notin> set as" using split_list_first [OF e] by blast
  then have rest: "as @ bs = ps @ qs" using r by (simp add: remove1_append)
  define at where "at = last (nodes_of l as)"
  define n where "n = hd (map Elem bs @ [Root l])"
  define to where "to = last (nodes_of l ps)"
  define b where "b = hd (map Elem qs @ [Root l])"
  define nx1 where "nx1 = (nx st)(at := Some n)"
  define pv1 where "pv1 = (pv st)(n := Some at)"
  have circ: "circle (nx st) (pv st) (Root l # map Elem as @ Elem e # map Elem bs)"
    using lists_okD(1) [OF ok l] by (simp add: nodes_of_def xs)
  then have d: "e \<notin> set as" "e \<notin> set bs" by (auto simp: circle_Cons)
  then have d': "e \<notin> set ps" "e \<notin> set qs" using arg_cong [OF rest, of set] by auto
  have ptrs: "nx st (Elem e) = Some n" "pv st (Elem e) = Some at"
    using circle_gap(1) [of _ _ "Root l" "map Elem as @ [Elem e]" "map Elem bs"]
      circle_gap(2) [of _ _ "Root l" "map Elem as" "Elem e # map Elem bs"] circ
    by (simp_all add: at_def n_def nodes_of_def)
  have "circle nx1 pv1 (Root l # map Elem as @ map Elem bs)"
    by (rule circle_remove [OF circ]) (auto simp: nx1_def pv1_def at_def n_def nodes_of_def)
  then have circ1: "circle nx1 pv1 (Root l # map Elem ps @ map Elem qs)"
    using arg_cong [OF rest, of "map Elem"] by simp
  have gap: "nx1 to = Some b" using circle_gap(1) [OF circ1] by (simp add: to_def b_def nodes_of_def)
  have sets: "set ps \<union> set qs = set as \<union> set bs" using arg_cong [OF rest, of set] by simp
  have ends: "at \<in> insert (Root l) (Elem ` set as)" "n \<in> insert (Root l) (Elem ` set bs)"
    "to \<in> insert (Root l) (Elem ` set ps)" "b \<in> insert (Root l) (Elem ` set qs)"
    unfolding at_def n_def to_def b_def by (rule nodes_ends)+
  have in_l: "at \<in> set (nodes_of l xs)" "n \<in> set (nodes_of l xs)" "to \<in> set (nodes_of l xs)"
      "b \<in> set (nodes_of l xs)" "Elem e \<in> set (nodes_of l xs)"
    using ends sets unfolding set_nodes_of xs(1) by auto
  have ne: "Elem e \<noteq> n" "Elem e \<noteq> at" "Elem e \<noteq> to" "b \<noteq> Elem e"
    using ends d d' by auto
  obtain st' where st': "List_move st (Some (Elem e)) (Some to) = Inr st'"
    "nx st' = nx1(Elem e := Some b, to := Some (Elem e))"
    "pv st' = pv1(Elem e := Some to, b := Some (Elem e))"
    "owner st' = owner st" "val st' = val st" "allocated st' = allocated st"
    "ls_len st' = ls_len st" "ls_fresh st' = ls_fresh st"
    using move_views [OF ptrs list_allocated [OF ok l in_l(2)] list_allocated [OF ok l in_l(1)] ne(1-3)
        list_allocated [OF ok l in_l(3)] gap [unfolded nx1_def] list_allocated [OF ok l in_l(4)] ne(4)]
    unfolding nx1_def pv1_def by blast
  have "circle (nx st') (pv st') (Root l # map Elem ps @ Elem e # map Elem qs)"
    by (rule circle_insert [OF circ1])
      (use d' ne in \<open>auto simp: st' to_def b_def nodes_of_def\<close>)
  then have mine: "circle (nx st') (pv st') (nodes_of l (ps @ e # qs))" by (simp add: nodes_of_def)
  have other: "circle (nx st') (pv st') (nodes_of k rs)" if "m k = Some rs" "k \<noteq> l" for k rs
    by (rule lists_frame [OF ok l that(1) that(2) [symmetric], of "{Elem e, at, n, to, b}"])
      (use in_l in \<open>auto simp: st' nx1_def pv1_def\<close>)
  have members: "set (ps @ e # qs) = set xs" "length (ps @ e # qs) = length xs"
    using arg_cong [OF rest, of set] arg_cong [OF rest, of length] by (simp_all add: xs(1))
  have zero: "nx st' (Root k) = None" if "m k = None" "k \<noteq> l" for k
    using in_l lists_okD(6) [OF ok that(1)] that(2) by (auto simp: st' nx1_def nodes_of_def)
  have "owner st' (Elem p) = Some k \<longleftrightarrow> (\<exists>rs. (m(l \<mapsto> ps @ e # qs)) k = Some rs \<and> p \<in> set rs)" for p k
    using lists_okD(3) [OF ok, of p k] l members(1) by (auto simp: st')
  then have "lists_ok st' (m(l \<mapsto> ps @ e # qs))"
    using mine other zero lists_okD(2,4,5) [OF ok] l members(2) by (auto simp: lists_ok_def st')
  with st' show ?thesis by (auto simp: to_def)
qed

section \<open>The operations on sequences of elements\<close>

fun put_before :: "'b \<Rightarrow> 'b \<Rightarrow> 'b list \<Rightarrow> 'b list" where
  "put_before x e [] = []"
| "put_before x e (y # ys) = (if y = x then e # y # ys else y # put_before x e ys)"

fun put_after :: "'b \<Rightarrow> 'b \<Rightarrow> 'b list \<Rightarrow> 'b list" where
  "put_after x e [] = []"
| "put_after x e (y # ys) = (if y = x then y # e # ys else y # put_after x e ys)"

lemma put_split:
  "x \<notin> set as \<Longrightarrow> put_before x e (as @ x # bs) = as @ e # x # bs"
  "x \<notin> set as \<Longrightarrow> put_after x e (as @ x # bs) = as @ x # e # bs"
  by (induction as) auto

text \<open>A store without lists, and the lists made in it.\<close>

definition empty_store :: "'a list_store" where
  "empty_store = \<lparr>ls_elem = (\<lambda>_. None), ls_len = (\<lambda>_. 0), ls_fresh = 0\<rparr>"

lemma empty_store_ok: "lists_ok empty_store (\<lambda>_. None)"
  by (simp add: lists_ok_def empty_store_def owner_def allocated_def nx_def)

lemma put_views:
  "nx (put st a e) = (nx st)(a := e_next e)" "pv (put st a e) = (pv st)(a := e_prev e)"
  "owner (put st a e) = (owner st)(a := e_list e)" "val (put st a e) = (val st)(a \<mapsto> e_Value e)"
  "allocated (put st a e) b \<longleftrightarrow> b = a \<or> allocated st b" "ls_len (put st a e) = ls_len st"
  "ls_fresh (put st a e) = ls_fresh st"
  by (auto simp: fun_eq_iff put_def nx_def pv_def owner_def val_def allocated_def)

lemma fresh_views [simp]:
  "nx (st\<lparr>ls_fresh := k\<rparr>) = nx st" "pv (st\<lparr>ls_fresh := k\<rparr>) = pv st"
  "owner (st\<lparr>ls_fresh := k\<rparr>) = owner st" "val (st\<lparr>ls_fresh := k\<rparr>) = val st"
  "allocated (st\<lparr>ls_fresh := k\<rparr>) = allocated st"
  by (auto simp: fun_eq_iff nx_def pv_def owner_def val_def allocated_def)

lemma alloc_ok:
  fixes v :: 'a and st :: "'a list_store"
  assumes ok: "lists_ok st m"
  defines "st1 \<equiv> (put st (Elem (ls_fresh st)) \<lparr>e_next = None, e_prev = None, e_list = None, e_Value = v\<rparr>)
      \<lparr>ls_fresh := ls_fresh st + 1\<rparr>"
  shows "lists_ok st1 m" "allocated st1 (Elem (ls_fresh st))" "owner st1 (Elem (ls_fresh st)) = None"
    "val st1 = (val st)(Elem (ls_fresh st) \<mapsto> v)" "\<And>a. allocated st a \<Longrightarrow> allocated st1 a"
proof -
  have free: "\<not> allocated st (Elem (ls_fresh st))" using lists_okD(4) [OF ok] by simp
  have "circle (nx st1) (pv st1) (nodes_of l ps)" if l: "m l = Some ps" for l ps
  proof (rule circle_frame [OF lists_okD(1) [OF ok l]])
    fix a assume "a \<in> set (nodes_of l ps)"
    with free list_allocated [OF ok l] have "a \<noteq> Elem (ls_fresh st)" by metis
    then show "nx st1 a = nx st a" "pv st1 a = pv st a" by (simp_all add: st1_def put_views)
  qed
  moreover have none: "owner st (Elem (ls_fresh st)) = None"
    using free by (auto simp: owner_def allocated_def)
  moreover have "ls_fresh st \<notin> set ps" if "m l = Some ps" for l ps
    using that none lists_okD(3) [OF ok, of "ls_fresh st" l] by auto
  ultimately show "lists_ok st1 m"
    using lists_okD(2,3,4,5,6) [OF ok] unfolding lists_ok_def
    by (auto simp: st1_def put_views)
qed (simp_all add: st1_def put_views)

lemma insertValue_ok:
  assumes ok: "lists_ok st m" and l: "m l = Some (ps @ qs)"
  shows "\<exists>st'. List_insertValue st l v (Some (last (nodes_of l ps))) = Inr (Some (Elem (ls_fresh st)), st')
    \<and> lists_ok st' (m(l \<mapsto> ps @ ls_fresh st # qs)) \<and> val st' = (val st)(Elem (ls_fresh st) \<mapsto> v)
    \<and> (\<forall>a. allocated st a \<longrightarrow> allocated st' a)"
  using insert_ok [OF alloc_ok(1) [OF ok, of v] l alloc_ok(2,3) [OF ok]]
    alloc_ok(4,5) [OF ok, where v = v]
  by (auto simp: List_insertValue_def)

text \<open>The neighbours of the sentinel and of an element.\<close>

lemma root_ends:
  assumes "lists_ok st m" "m l = Some ps"
  shows "nx st (Root l) = Some (hd (map Elem ps @ [Root l]))" "pv st (Root l) = Some (last (nodes_of l ps))"
  using circle_gap(1) [of "nx st" "pv st" "Root l" "[]" "map Elem ps"]
    circle_gap(2) [of "nx st" "pv st" "Root l" "map Elem ps" "[]"] lists_okD(1) [OF assms]
  by (simp_all add: nodes_of_def)

lemma elem_neighbours:
  assumes "lists_ok st m" "m l = Some (as @ x # bs)"
  shows "nx st (Elem x) = Some (hd (map Elem bs @ [Root l]))" "pv st (Elem x) = Some (last (nodes_of l as))"
  using circle_gap(1) [of "nx st" "pv st" "Root l" "map Elem (as @ [x])" "map Elem bs"]
    circle_gap(2) [of "nx st" "pv st" "Root l" "map Elem as" "map Elem (x # bs)"] lists_okD(1) [OF assms]
  by (simp_all add: nodes_of_def)

lemma load_root:
  assumes "lists_ok st m" "m l = Some ps"
  obtains r where "load st (Some (Root l)) = Inr r" "e_next r = nx st (Root l)" "e_prev r = pv st (Root l)"
  using list_allocated [OF assms, of "Root l"] load_allocated fields_allocated(1,2)
  by (metis set_nodes_of insertI1)

lemma load_elem:
  assumes "lists_ok st m" "m l = Some ps" "x \<in> set ps"
  obtains e where "load st (Some (Elem x)) = Inr e" "e_next e = nx st (Elem x)" "e_prev e = pv st (Elem x)"
    "e_list e = Some l" "Some (e_Value e) = val st (Elem x)"
proof -
  have a: "allocated st (Elem x)"
    using list_allocated [OF assms(1,2)] assms(3) by (simp add: set_nodes_of)
  moreover have "owner st (Elem x) = Some l" using lists_okD(3) [OF assms(1)] assms(2,3) by blast
  ultimately show ?thesis
    using that load_allocated [OF a] fields_allocated [OF a] by metis
qed

lemma lazyInit_ok:
  assumes "lists_ok st m" "m l = Some ps"
  shows "List_lazyInit st l = Inr st"
proof -
  obtain r where "load st (Some (Root l)) = Inr r" "e_next r = nx st (Root l)"
    using load_root [OF assms] by metis
  with root_ends(1) [OF assms] show ?thesis by (simp add: List_lazyInit_def)
qed

lemma PushFront_ok:
  assumes "lists_ok st m" "m l = Some ps"
  shows "\<exists>st'. List_PushFront st l v = Inr (Some (Elem (ls_fresh st)), st')
    \<and> lists_ok st' (m(l \<mapsto> ls_fresh st # ps)) \<and> val st' = (val st)(Elem (ls_fresh st) \<mapsto> v)"
  using insertValue_ok [OF assms(1), of l "[]" ps v] lazyInit_ok [OF assms] assms(2)
  by (auto simp: List_PushFront_def nodes_of_def)

lemma PushBack_ok:
  assumes "lists_ok st m" "m l = Some ps"
  shows "\<exists>st'. List_PushBack st l v = Inr (Some (Elem (ls_fresh st)), st')
    \<and> lists_ok st' (m(l \<mapsto> ps @ [ls_fresh st])) \<and> val st' = (val st)(Elem (ls_fresh st) \<mapsto> v)"
proof -
  obtain r where "load st (Some (Root l)) = Inr r" "e_prev r = Some (last (nodes_of l ps))"
    using load_root [OF assms] root_ends(2) [OF assms] by metis
  then show ?thesis
    using insertValue_ok [OF assms(1), of l ps "[]" v] lazyInit_ok [OF assms] assms(2)
    by (auto simp: List_PushBack_def)
qed

lemma InsertBefore_ok:
  assumes "lists_ok st m" "m l = Some ps" "x \<in> set ps"
  shows "\<exists>st'. List_InsertBefore st l v (Some (Elem x)) = Inr (Some (Elem (ls_fresh st)), st')
    \<and> lists_ok st' (m(l \<mapsto> put_before x (ls_fresh st) ps)) \<and> val st' = (val st)(Elem (ls_fresh st) \<mapsto> v)"
proof -
  obtain as bs where ps: "ps = as @ x # bs" "x \<notin> set as" using split_list_first [OF assms(3)] by blast
  obtain e where "load st (Some (Elem x)) = Inr e" "e_list e = Some l" "e_prev e = Some (last (nodes_of l as))"
    using load_elem [OF assms] elem_neighbours(2) [OF assms(1) assms(2) [unfolded ps(1)]] by metis
  then show ?thesis
    using insertValue_ok [OF assms(1), of l as "x # bs" v] assms(2) ps
    by (auto simp: List_InsertBefore_def put_split)
qed

lemma InsertAfter_ok:
  assumes "lists_ok st m" "m l = Some ps" "x \<in> set ps"
  shows "\<exists>st'. List_InsertAfter st l v (Some (Elem x)) = Inr (Some (Elem (ls_fresh st)), st')
    \<and> lists_ok st' (m(l \<mapsto> put_after x (ls_fresh st) ps)) \<and> val st' = (val st)(Elem (ls_fresh st) \<mapsto> v)"
proof -
  obtain as bs where ps: "ps = as @ x # bs" "x \<notin> set as" using split_list_first [OF assms(3)] by blast
  obtain e where "load st (Some (Elem x)) = Inr e" "e_list e = Some l" using load_elem [OF assms] by metis
  moreover have "last (nodes_of l (as @ [x])) = Elem x" by (simp add: nodes_of_def)
  ultimately show ?thesis
    using insertValue_ok [OF assms(1), of l "as @ [x]" bs v] assms(2) ps
    by (auto simp: List_InsertAfter_def put_split)
qed

text \<open>
  The four insertions into a list \<open>l\<close> with elements \<open>ps\<close>, among any number of lists.  Each
  allocates one element holding \<open>v\<close> and returns it; the sequence gets it in front, at the back,
  before or after the mark; the other lists and all other values are as before.
\<close>

theorem List_inserts:
  assumes "lists_ok st m" "m l = Some ps" "x \<in> set ps"
  shows "(\<exists>st'. List_PushFront st l v = Inr (Some (Elem (ls_fresh st)), st')
      \<and> lists_ok st' (m(l \<mapsto> ls_fresh st # ps)) \<and> val st' = (val st)(Elem (ls_fresh st) \<mapsto> v))
    \<and> (\<exists>st'. List_PushBack st l v = Inr (Some (Elem (ls_fresh st)), st')
      \<and> lists_ok st' (m(l \<mapsto> ps @ [ls_fresh st])) \<and> val st' = (val st)(Elem (ls_fresh st) \<mapsto> v))
    \<and> (\<exists>st'. List_InsertBefore st l v (Some (Elem x)) = Inr (Some (Elem (ls_fresh st)), st')
      \<and> lists_ok st' (m(l \<mapsto> put_before x (ls_fresh st) ps)) \<and> val st' = (val st)(Elem (ls_fresh st) \<mapsto> v))
    \<and> (\<exists>st'. List_InsertAfter st l v (Some (Elem x)) = Inr (Some (Elem (ls_fresh st)), st')
      \<and> lists_ok st' (m(l \<mapsto> put_after x (ls_fresh st) ps)) \<and> val st' = (val st)(Elem (ls_fresh st) \<mapsto> v))"
  using PushFront_ok [OF assms(1,2)] PushBack_ok [OF assms(1,2)] InsertBefore_ok [OF assms] InsertAfter_ok [OF assms]
  by blast

text \<open>\<open>Init\<close> of a list without elements, the one that \<open>NewList\<close> allocates or a zero \<open>List\<close> value.\<close>

lemma len_views [simp]:
  "nx (st\<lparr>ls_len := f\<rparr>) = nx st" "pv (st\<lparr>ls_len := f\<rparr>) = pv st"
  "owner (st\<lparr>ls_len := f\<rparr>) = owner st" "val (st\<lparr>ls_len := f\<rparr>) = val st"
  "allocated (st\<lparr>ls_len := f\<rparr>) = allocated st"
  by (auto simp: fun_eq_iff nx_def pv_def owner_def val_def allocated_def)

lemma val_load: "val st a = Some v \<Longrightarrow> e_Value (the (ls_elem st a)) = v"
  by (auto simp: val_def split: option.splits)

lemma init_ok:
  assumes ok: "lists_ok st m" and l: "m l = None" "allocated st (Root l)"
  shows "\<exists>st'. List_Init st l = Inr st' \<and> lists_ok st' (m(l \<mapsto> [])) \<and> val st' = val st
    \<and> allocated st' = allocated st \<and> ls_fresh st' = ls_fresh st"
proof -
  define st' where "st' = (assign (assign st (Root l) (\<lambda>e. e\<lparr>e_next := Some (Root l)\<rparr>)) (Root l)
      (\<lambda>e. e\<lparr>e_prev := Some (Root l)\<rparr>))\<lparr>ls_len := (ls_len st)(l := 0)\<rparr>"
  have run: "List_Init st l = Inr st'"
    using l(2) by (simp add: List_Init_def st'_def store_simps)
  have views: "nx st' = (nx st)(Root l := Some (Root l))" "pv st' = (pv st)(Root l := Some (Root l))"
    "owner st' = owner st" "val st' = val st" "allocated st' = allocated st"
    "ls_len st' = (ls_len st)(l := 0)" "ls_fresh st' = ls_fresh st"
    using l(2) unfolding st'_def by (simp_all add: store_simps)
  have "circle (nx st') (pv st') (nodes_of k ps)" if "m k = Some ps" for k ps
    by (rule circle_frame [OF lists_okD(1) [OF ok that]])
      (use that l(1) in \<open>auto simp: views nodes_of_def\<close>)
  moreover have "circle (nx st') (pv st') (nodes_of l [])"
    by (simp add: nodes_of_def circle_Cons views)
  ultimately have "lists_ok st' (m(l \<mapsto> []))"
    using lists_okD(2,3,4,5,6) [OF ok] l(1) by (auto simp: lists_ok_def views)
  with run views show ?thesis by blast
qed

lemma NewList_ok:
  assumes ok: "lists_ok st m"
  shows "\<exists>st'. NewList z st = Inr (ls_fresh st, st') \<and> lists_ok st' (m(ls_fresh st \<mapsto> []))
    \<and> ls_fresh st' = ls_fresh st + 1 \<and> (\<forall>a. a \<noteq> Root (ls_fresh st) \<longrightarrow> val st' a = val st a)"
proof -
  let ?l = "ls_fresh st"
  define st1 where "st1 = (put st (Root ?l) \<lparr>e_next = None, e_prev = None, e_list = None, e_Value = z\<rparr>)
    \<lparr>ls_fresh := ?l + 1\<rparr>"
  have free: "\<not> allocated st (Root ?l)" using lists_okD(4) [OF ok] by simp
  have none: "m ?l = None"
  proof (rule ccontr)
    assume "m ?l \<noteq> None"
    then obtain ps where "m ?l = Some ps" by blast
    with list_allocated [OF ok this, of "Root ?l"] free show False by (simp add: set_nodes_of)
  qed
  have "circle (nx st1) (pv st1) (nodes_of k ps)" if "m k = Some ps" for k ps
    by (rule circle_frame [OF lists_okD(1) [OF ok that]])
      (use that none in \<open>auto simp: st1_def put_views nodes_of_def\<close>)
  then have ok1: "lists_ok st1 m"
    using lists_okD(2,3,4,5,6) [OF ok] unfolding lists_ok_def by (auto simp: st1_def put_views)
  have "allocated st1 (Root ?l)" by (simp add: st1_def put_views)
  from init_ok [OF ok1 none this] show ?thesis
    by (auto simp: NewList_def st1_def put_views)
qed

text \<open>
  \<open>Remove\<close> returns the value of the element.  An element of \<open>l\<close> is taken out of the sequence
  and belongs to no list afterwards; an element of another list, or of none, leaves every list
  untouched.  The other lists keep their elements in both cases.
\<close>

theorem List_Remove_correct:
  assumes "lists_ok st m" "m l = Some ps" "allocated st (Elem x)" "val st (Elem x) = Some v"
  shows "(x \<in> set ps \<longrightarrow> (\<exists>st'. List_Remove st l (Some (Elem x)) = Inr (v, st')
        \<and> lists_ok st' (m(l \<mapsto> remove1 x ps)) \<and> val st' = val st \<and> owner st' (Elem x) = None))
    \<and> (x \<notin> set ps \<longrightarrow> List_Remove st l (Some (Elem x)) = Inr (v, st))"
proof -
  note ok = assms(1)
  have load: "load st (Some (Elem x)) = Inr (the (ls_elem st (Elem x)))"
    "e_list (the (ls_elem st (Elem x))) = owner st (Elem x)" "e_Value (the (ls_elem st (Elem x))) = v"
    using assms(3,4) by (simp_all add: store_simps val_load)
  show ?thesis
  proof (cases "x \<in> set ps")
    case True
    then obtain as bs where ps: "ps = as @ x # bs" "x \<notin> set as" using split_list_first by metis
    obtain st' where st': "List_remove st l (Some (Elem x)) = Inr st'" "lists_ok st' (m(l \<mapsto> as @ bs))"
      "val st' = val st" "allocated st' = allocated st" "owner st' (Elem x) = None"
      using remove_ok [OF ok assms(2) [unfolded ps(1)]] by blast
    have "load st' (Some (Elem x)) = Inr (the (ls_elem st' (Elem x)))" "e_Value (the (ls_elem st' (Elem x))) = v"
      using st'(3,4) assms(3,4) by (simp_all add: store_simps val_load)
    moreover have "owner st (Elem x) = Some l" using lists_okD(3) [OF ok] assms(2) True by blast
    ultimately show ?thesis
      using True st' load by (simp add: List_Remove_def ps remove1_append)
  next
    case False
    then have "owner st (Elem x) \<noteq> Some l" using lists_okD(3) [OF ok, of x l] assms(2) by auto
    with False load show ?thesis by (simp add: List_Remove_def)
  qed
qed

text \<open>The four moves, each by the place that \<open>at\<close> is in the sequence without \<open>x\<close>.\<close>

lemma list_distinct: "lists_ok st m \<Longrightarrow> m l = Some ps \<Longrightarrow> distinct ps"
  using lists_okD(1) [of st m l ps] by (auto simp: circle_def nodes_of_def distinct_map)

lemma MoveToFront_ok:
  assumes "lists_ok st m" "m l = Some ps" "x \<in> set ps"
  shows "\<exists>st'. List_MoveToFront st l (Some (Elem x)) = Inr st'
    \<and> lists_ok st' (m(l \<mapsto> x # remove1 x ps)) \<and> val st' = val st"
proof -
  obtain e where e: "load st (Some (Elem x)) = Inr e" "e_list e = Some l" using load_elem [OF assms] by metis
  obtain r where r: "load st (Some (Root l)) = Inr r" "e_next r = Some (hd (map Elem ps @ [Root l]))"
    using load_root [OF assms(1,2)] root_ends(1) [OF assms(1,2)] by metis
  show ?thesis
  proof (cases "e_next r = Some (Elem x)")
    case True
    then obtain qs where "ps = x # qs" using r(2) by (cases ps) auto
    with True e r assms show ?thesis by (auto simp: List_MoveToFront_def fun_upd_idem)
  next
    case False
    with e r move_ok [OF assms, of "[]" "remove1 x ps"] show ?thesis
      by (auto simp: List_MoveToFront_def nodes_of_def)
  qed
qed

lemma MoveToBack_ok:
  assumes "lists_ok st m" "m l = Some ps" "x \<in> set ps"
  shows "\<exists>st'. List_MoveToBack st l (Some (Elem x)) = Inr st'
    \<and> lists_ok st' (m(l \<mapsto> remove1 x ps @ [x])) \<and> val st' = val st"
proof -
  obtain as bs where ps: "ps = as @ x # bs" "x \<notin> set as" using split_list_first [OF assms(3)] by blast
  obtain e where e: "load st (Some (Elem x)) = Inr e" "e_list e = Some l" using load_elem [OF assms] by metis
  obtain r where r: "load st (Some (Root l)) = Inr r" "e_prev r = Some (last (nodes_of l ps))"
    using load_root [OF assms(1,2)] root_ends(2) [OF assms(1,2)] by metis
  have d: "x \<notin> set bs" using list_distinct [OF assms(1,2)] ps by simp
  show ?thesis
  proof (cases "bs = []")
    case True
    then show ?thesis
      using e r ps assms by (auto simp: List_MoveToBack_def nodes_of_def remove1_append fun_upd_idem)
  next
    case False
    then have "last (nodes_of l ps) = last (nodes_of l (remove1 x ps))" "last (nodes_of l ps) \<noteq> Elem x"
      using ps d last_in_set [of bs] by (auto simp: nodes_of_def remove1_append last_map)
    with e r move_ok [OF assms, of "remove1 x ps" "[]"] show ?thesis
      by (auto simp: List_MoveToBack_def)
  qed
qed

lemma MoveAfter_ok:
  assumes "lists_ok st m" "m l = Some ps" "x \<in> set ps" "y \<in> set ps" "x \<noteq> y"
  shows "\<exists>st'. List_MoveAfter st l (Some (Elem x)) (Some (Elem y)) = Inr st'
    \<and> lists_ok st' (m(l \<mapsto> put_after y x (remove1 x ps))) \<and> val st' = val st"
proof -
  obtain e where e: "load st (Some (Elem x)) = Inr e" "e_list e = Some l"
    using load_elem [OF assms(1-3)] by metis
  obtain k where k: "load st (Some (Elem y)) = Inr k" "e_list k = Some l"
    using load_elem [OF assms(1,2,4)] by metis
  have "y \<in> set (remove1 x ps)" using assms(4,5) by simp
  then obtain as bs where r: "remove1 x ps = as @ y # bs" "y \<notin> set as" using split_list_first by metis
  have "last (nodes_of l (as @ [y])) = Elem y" by (simp add: nodes_of_def)
  then show ?thesis
    using move_ok [OF assms(1-3), of "as @ [y]" bs] e k r assms(5)
    by (auto simp: List_MoveAfter_def put_split)
qed

text \<open>What is in front of \<open>y\<close>: \<open>x\<close> itself, or what is in front of it without \<open>x\<close> as well.\<close>

lemma before_mark:
  assumes "distinct ps" "x \<in> set ps" "y \<in> set ps" "x \<noteq> y"
  obtains as bs cs ds where "ps = as @ y # bs" "remove1 x ps = cs @ y # ds" "y \<notin> set cs"
    "last (nodes_of l as) = Elem x \<and> ps = cs @ x # y # ds
      \<or> last (nodes_of l as) \<noteq> Elem x \<and> last (nodes_of l as) = last (nodes_of l cs)"
proof -
  obtain as bs where ps: "ps = as @ y # bs" "y \<notin> set as" using split_list_first [OF assms(3)] by blast
  show thesis
  proof (cases "x \<in> set as")
    case False
    then have "remove1 x ps = as @ y # remove1 x bs" "last (nodes_of l as) \<noteq> Elem x"
      using assms(4) ps last_in_set [of as] by (auto simp: remove1_append nodes_of_def last_map)
    with that ps show thesis by blast
  next
    case True
    then obtain us vs where as: "as = us @ x # vs" "x \<notin> set us" using split_list_first by metis
    have vs: "last vs \<noteq> x" if "vs \<noteq> []"
      using assms(1) ps as last_in_set [OF that] by auto
    have "remove1 x ps = (us @ vs) @ y # bs" "y \<notin> set (us @ vs)"
      using ps as by (auto simp: remove1_append)
    with that [OF ps(1) this] vs ps as show thesis
      by (cases "vs = []") (auto simp: nodes_of_def last_map)
  qed
qed

lemma MoveBefore_ok:
  assumes "lists_ok st m" "m l = Some ps" "x \<in> set ps" "y \<in> set ps" "x \<noteq> y"
  shows "\<exists>st'. List_MoveBefore st l (Some (Elem x)) (Some (Elem y)) = Inr st'
    \<and> lists_ok st' (m(l \<mapsto> put_before y x (remove1 x ps))) \<and> val st' = val st"
proof -
  obtain e where e: "load st (Some (Elem x)) = Inr e" "e_list e = Some l"
    using load_elem [OF assms(1-3)] by metis
  obtain as bs cs ds where ps: "ps = as @ y # bs" and r: "remove1 x ps = cs @ y # ds" "y \<notin> set cs"
    and c: "last (nodes_of l as) = Elem x \<and> ps = cs @ x # y # ds
      \<or> last (nodes_of l as) \<noteq> Elem x \<and> last (nodes_of l as) = last (nodes_of l cs)"
    using before_mark [OF list_distinct [OF assms(1,2)] assms(3-5)] by metis
  obtain k where k: "load st (Some (Elem y)) = Inr k" "e_list k = Some l"
    "e_prev k = Some (last (nodes_of l as))"
    using load_elem [OF assms(1,2,4)] elem_neighbours(2) [OF assms(1) assms(2) [unfolded ps]] by metis
  from c show ?thesis
  proof
    assume "last (nodes_of l as) = Elem x \<and> ps = cs @ x # y # ds"
    with e k r assms show ?thesis
      by (auto simp: List_MoveBefore_def List_move_def put_split fun_upd_idem)
  next
    assume "last (nodes_of l as) \<noteq> Elem x \<and> last (nodes_of l as) = last (nodes_of l cs)"
    with move_ok [OF assms(1-3), of cs "y # ds"] e k r assms(5) show ?thesis
      by (auto simp: List_MoveBefore_def put_split)
  qed
qed

text \<open>
  The four moves of an element \<open>x\<close> of list \<open>l\<close>, relative to another element \<open>y\<close> for the last
  two: to the front, to the back, directly before \<open>y\<close>, directly after \<open>y\<close>.  No value, no length
  and no other list changes, whatever the positions of \<open>x\<close> and \<open>y\<close> are.
\<close>

theorem List_moves:
  assumes "lists_ok st m" "m l = Some ps" "x \<in> set ps" "y \<in> set ps" "x \<noteq> y"
  shows "(\<exists>st'. List_MoveToFront st l (Some (Elem x)) = Inr st'
      \<and> lists_ok st' (m(l \<mapsto> x # remove1 x ps)) \<and> val st' = val st)
    \<and> (\<exists>st'. List_MoveToBack st l (Some (Elem x)) = Inr st'
      \<and> lists_ok st' (m(l \<mapsto> remove1 x ps @ [x])) \<and> val st' = val st)
    \<and> (\<exists>st'. List_MoveBefore st l (Some (Elem x)) (Some (Elem y)) = Inr st'
      \<and> lists_ok st' (m(l \<mapsto> put_before y x (remove1 x ps))) \<and> val st' = val st)
    \<and> (\<exists>st'. List_MoveAfter st l (Some (Elem x)) (Some (Elem y)) = Inr st'
      \<and> lists_ok st' (m(l \<mapsto> put_after y x (remove1 x ps))) \<and> val st' = val st)"
  using MoveToFront_ok [OF assms(1-3)] MoveToBack_ok [OF assms(1-3)] MoveBefore_ok [OF assms]
    MoveAfter_ok [OF assms] by blast

section \<open>Traversal and copying\<close>

abbreviation first_elem :: "nat list \<Rightarrow> node option" where
  "first_elem ps \<equiv> (if ps = [] then None else Some (Elem (hd ps)))"

lemma Element_Next_ok:
  assumes "lists_ok st m" "m l = Some (as @ x # bs)"
  shows "Element_Next st (Some (Elem x)) = Inr (first_elem bs)"
proof -
  obtain e where "load st (Some (Elem x)) = Inr e" "e_list e = Some l"
    "e_next e = Some (hd (map Elem bs @ [Root l]))"
    using load_elem [OF assms, of x] elem_neighbours(1) [OF assms] by (metis in_set_conv_decomp)
  then show ?thesis by (cases bs) (simp_all add: Element_Next_def)
qed

lemma Element_Prev_ok:
  assumes "lists_ok st m" "m l = Some (as @ x # bs)"
  shows "Element_Prev st (Some (Elem x)) = Inr (first_elem (rev as))"
proof -
  obtain e where "load st (Some (Elem x)) = Inr e" "e_list e = Some l"
    "e_prev e = Some (last (nodes_of l as))"
    using load_elem [OF assms, of x] elem_neighbours(2) [OF assms] by (metis in_set_conv_decomp)
  then show ?thesis by (cases as rule: rev_cases) (simp_all add: Element_Prev_def nodes_of_def)
qed

lemma ends_ok:
  assumes "lists_ok st m" "m l = Some ps"
  shows "List_Front st l = Inr (first_elem ps)" "List_Back st l = Inr (first_elem (rev ps))"
proof -
  obtain r where r: "load st (Some (Root l)) = Inr r" "e_next r = Some (hd (map Elem ps @ [Root l]))"
    "e_prev r = Some (last (nodes_of l ps))"
    using load_root [OF assms] root_ends [OF assms] by metis
  then show "List_Front st l = Inr (first_elem ps)"
    using lists_okD(2) [OF assms] by (cases ps) (simp_all add: List_Front_def)
  show "List_Back st l = Inr (first_elem (rev ps))"
    using r lists_okD(2) [OF assms]
    by (cases ps rule: rev_cases) (simp_all add: List_Back_def nodes_of_def)
qed

text \<open>
  \<open>Len\<close>, \<open>Front\<close>, \<open>Back\<close>, \<open>Next\<close> and \<open>Prev\<close> read the sequence: its length, its two ends (nil
  for an empty list), and from the \<open>i\<close>-th element the one after and the one before it, nil beyond
  the ends and never the sentinel.
\<close>

theorem List_traversal:
  assumes "lists_ok st m" "m l = Some ps" "i < length ps"
  shows "List_Len st l = int (length ps)
    \<and> List_Front st l = Inr (Some (Elem (ps ! 0)))
    \<and> List_Back st l = Inr (Some (Elem (ps ! (length ps - 1))))
    \<and> Element_Next st (Some (Elem (ps ! i)))
        = Inr (if i + 1 < length ps then Some (Elem (ps ! (i + 1))) else None)
    \<and> Element_Prev st (Some (Elem (ps ! i))) = Inr (if i = 0 then None else Some (Elem (ps ! (i - 1))))"
proof -
  have split: "m l = Some (take i ps @ ps ! i # drop (i + 1) ps)"
    using assms(2,3) by (simp add: id_take_nth_drop [symmetric])
  have "List_Len st l = int (length ps)" using lists_okD(2) [OF assms(1,2)] by (simp add: List_Len_def)
  moreover have "List_Front st l = Inr (Some (Elem (ps ! 0)))"
    "List_Back st l = Inr (Some (Elem (ps ! (length ps - 1))))"
    using ends_ok [OF assms(1,2)] hd_conv_nth [of ps] last_conv_nth [of ps] assms(3)
    by (simp_all add: hd_rev length_greater_0_conv [symmetric] del: length_greater_0_conv)
  moreover have "Element_Next st (Some (Elem (ps ! i)))
      = Inr (if i + 1 < length ps then Some (Elem (ps ! (i + 1))) else None)"
    using Element_Next_ok [OF assms(1) split] by (auto simp: hd_drop_conv_nth)
  moreover have "Element_Prev st (Some (Elem (ps ! i))) = Inr (if i = 0 then None else Some (Elem (ps ! (i - 1))))"
    using Element_Prev_ok [OF assms(1) split] assms(3) by (auto simp: hd_rev last_conv_nth min_def)
  ultimately show ?thesis by blast
qed

text \<open>The values of a sequence of elements.\<close>

definition vals :: "'a list_store \<Rightarrow> nat list \<Rightarrow> 'a option list" where
  "vals st ps = map (\<lambda>p. val st (Elem p)) ps"

lemma list_elem_allocated: "lists_ok st m \<Longrightarrow> m l = Some ps \<Longrightarrow> x \<in> set ps \<Longrightarrow> allocated st (Elem x)"
  using list_allocated [of st m l ps] by (simp add: set_nodes_of)

lemma fresh_free: "lists_ok st m \<Longrightarrow> allocated st a \<Longrightarrow> a \<noteq> Elem (ls_fresh st)"
  using lists_okD(4) [of st m "ls_fresh st"] by auto

text \<open>The only difference between two stores, as far as values go, are the new elements.\<close>

definition only_new :: "'a list_store \<Rightarrow> 'a list_store \<Rightarrow> nat list \<Rightarrow> bool" where
  "only_new st st' new \<longleftrightarrow>
     (\<forall>a. a \<notin> Elem ` set new \<longrightarrow> val st' a = val st a) \<and> (\<forall>n \<in> set new. val st (Elem n) = None)"

lemma allocated_val: "allocated st a \<longleftrightarrow> val st a \<noteq> None"
  by (simp add: allocated_def val_def split: option.split)

lemma only_new_old: "only_new st st' new \<Longrightarrow> allocated st a \<Longrightarrow> allocated st' a \<and> val st' a = val st a"
proof -
  assume new: "only_new st st' new" and a: "allocated st a"
  then have "a \<notin> Elem ` set new" by (auto simp: only_new_def allocated_val)
  with new have "val st' a = val st a" by (simp add: only_new_def)
  with a show ?thesis by (simp add: allocated_val)
qed

lemma only_new_trans:
  assumes "only_new st st1 new1" "only_new st1 st2 new2"
  shows "only_new st st2 (new1 @ new2)"
proof -
  have "val st (Elem n) = None" if "n \<in> set new2" for n
    using that assms only_new_old [OF assms(1), of "Elem n"]
    by (cases "val st (Elem n)") (auto simp: only_new_def allocated_val)
  with assms show ?thesis by (auto simp: only_new_def image_Un)
qed

lemma only_new_swap: "only_new st st' (as @ bs) \<Longrightarrow> only_new st st' (bs @ as)"
  by (auto simp: only_new_def)

lemma copy_step:
  assumes ok: "lists_ok st m" and l: "m l = Some (ps @ qs)" and k: "m k = Some rs" "x \<in> set rs"
  obtains e st1 where "load st (Some (Elem x)) = Inr e" "val st (Elem x) = Some (e_Value e)"
    "List_insertValue st l (e_Value e) (Some (last (nodes_of l ps))) = Inr (Some (Elem (ls_fresh st)), st1)"
    "lists_ok st1 (m(l \<mapsto> ps @ ls_fresh st # qs))" "val st1 (Elem (ls_fresh st)) = val st (Elem x)"
    "only_new st st1 [ls_fresh st]"
proof -
  obtain e where e: "load st (Some (Elem x)) = Inr e" "Some (e_Value e) = val st (Elem x)"
    using load_elem [OF ok k] by metis
  obtain st1 where st1: "List_insertValue st l (e_Value e) (Some (last (nodes_of l ps))) = Inr (Some (Elem (ls_fresh st)), st1)"
    "lists_ok st1 (m(l \<mapsto> ps @ ls_fresh st # qs))" "val st1 = (val st)(Elem (ls_fresh st) \<mapsto> e_Value e)"
    "\<And>a. allocated st a \<Longrightarrow> allocated st1 a"
    using insertValue_ok [OF ok l] by blast
  show thesis
    by (rule that [OF e(1) e(2) [symmetric] st1(1,2)])
      (use e st1 lists_okD(4) [OF ok, of "ls_fresh st"] in \<open>auto simp: only_new_def allocated_val\<close>)
qed

lemma PushBackList_loop_ok:
  assumes "lists_ok st m" "m l = Some ps" "m k = Some (as @ rs @ bs)"
    and "rs \<noteq> [] \<Longrightarrow> e = Some (Elem (hd rs))"
  shows "\<exists>st' new. List_PushBackList_loop st l (int (length rs)) e = Inr st'
    \<and> lists_ok st' (m(l \<mapsto> ps @ new)) \<and> vals st' new = vals st rs
    \<and> only_new st st' new"
  using assms
proof (induction rs arbitrary: st m ps as bs e)
  case Nil
  then show ?case
    by (intro exI [of _ st] exI [of _ "[]"])
      (simp add: List_PushBackList_loop.simps vals_def fun_upd_idem only_new_def)
next
  case (Cons x rs)
  note ok = Cons.prems(1) and l = Cons.prems(2) and k = Cons.prems(3)
  have split: "m l = Some (ps @ [])" and x: "x \<in> set (as @ (x # rs) @ bs)" using l by simp_all
  obtain y st1 where y: "load st (Some (Elem x)) = Inr y"
    "val st (Elem x) = Some (e_Value y)"
    "List_insertValue st l (e_Value y) (Some (last (nodes_of l ps))) = Inr (Some (Elem (ls_fresh st)), st1)"
    and st1: "lists_ok st1 (m(l \<mapsto> ps @ [ls_fresh st]))" "val st1 (Elem (ls_fresh st)) = val st (Elem x)"
    "only_new st st1 [ls_fresh st]"
    by (rule copy_step [OF ok split k x]) (rule that)
  obtain r where r: "load st (Some (Root l)) = Inr r" "e_prev r = Some (last (nodes_of l ps))"
    using load_root [OF ok l] root_ends(2) [OF ok l] by metis
  let ?m = "m(l \<mapsto> ps @ [ls_fresh st])"
  have l1: "?m l = Some (ps @ [ls_fresh st])" by simp
  obtain bs' where k1: "?m k = Some ((as @ [x]) @ rs @ bs')"
    using k l by (cases "k = l") auto
  have next_e: "Element_Next st1 (Some (Elem x)) = Inr (first_elem (rs @ bs'))"
    using Element_Next_ok [OF st1(1), of k as x "rs @ bs'"] k1 by simp
  have hd_e: "rs \<noteq> [] \<Longrightarrow> first_elem (rs @ bs') = Some (Elem (hd rs))" by simp
  obtain st' new where st': "List_PushBackList_loop st1 l (int (length rs)) (first_elem (rs @ bs')) = Inr st'"
    "lists_ok st' (?m(l \<mapsto> (ps @ [ls_fresh st]) @ new))" "vals st' new = vals st1 rs"
    "only_new st1 st' new"
    using Cons.IH [OF st1(1) l1 k1 hd_e] by blast
  have fresh: "allocated st1 (Elem (ls_fresh st))"
    using list_elem_allocated [OF st1(1), of l] by simp
  have "vals st1 rs = vals st rs"
    using list_elem_allocated [OF ok k] only_new_old [OF st1(3)] by (auto simp: vals_def)
  then have "vals st' (ls_fresh st # new) = vals st (x # rs)"
    using st'(3) only_new_old [OF st'(4) fresh] st1(2) by (simp add: vals_def)
  moreover have "List_PushBackList_loop st l (int (length (x # rs))) e = Inr st'"
    using Cons.prems(4) y r next_e st'(1) by (subst List_PushBackList_loop.simps) simp
  ultimately show ?case
    using st'(2) only_new_trans [OF st1(3) st'(4)]
    by (intro exI [of _ st'] exI [of _ "ls_fresh st # new"]) (simp del: fun_upd_apply)
qed


lemma PushFrontList_loop_ok:
  assumes "lists_ok st m" "m l = Some ps" "m k = Some (as @ rs @ bs)"
    and "rs \<noteq> [] \<Longrightarrow> e = Some (Elem (last rs))"
  shows "\<exists>st' new. List_PushFrontList_loop st l (int (length rs)) e = Inr st'
    \<and> lists_ok st' (m(l \<mapsto> new @ ps)) \<and> vals st' new = vals st rs
    \<and> only_new st st' new"
  using assms
proof (induction rs arbitrary: st m ps as bs e rule: rev_induct)
  case Nil
  then show ?case
    by (intro exI [of _ st] exI [of _ "[]"])
      (simp add: List_PushFrontList_loop.simps vals_def fun_upd_idem only_new_def)
next
  case (snoc x rs)
  note ok = snoc.prems(1) and l = snoc.prems(2) and k = snoc.prems(3)
  have split: "m l = Some ([] @ ps)" and x: "x \<in> set (as @ (rs @ [x]) @ bs)" using l by simp_all
  have root: "last (nodes_of l []) = Root l" by (simp add: nodes_of_def)
  obtain y st1 where y: "load st (Some (Elem x)) = Inr y"
    "val st (Elem x) = Some (e_Value y)"
    "List_insertValue st l (e_Value y) (Some (last (nodes_of l []))) = Inr (Some (Elem (ls_fresh st)), st1)"
    and st1: "lists_ok st1 (m(l \<mapsto> [] @ ls_fresh st # ps))" "val st1 (Elem (ls_fresh st)) = val st (Elem x)"
    "only_new st st1 [ls_fresh st]"
    by (rule copy_step [OF ok split k x]) (rule that)
  let ?m = "m(l \<mapsto> [] @ ls_fresh st # ps)"
  have l1: "?m l = Some ([] @ ls_fresh st # ps)" by simp
  obtain as' where k1: "?m k = Some (as' @ rs @ x # bs)"
    using k l by (cases "k = l") (auto intro: that [of "ls_fresh st # as"])
  have prev_e: "Element_Prev st1 (Some (Elem x)) = Inr (first_elem (rev (as' @ rs)))"
    using Element_Prev_ok [OF st1(1), of k "as' @ rs" x bs] k1 by simp
  have hd_e: "rs \<noteq> [] \<Longrightarrow> first_elem (rev (as' @ rs)) = Some (Elem (last rs))"
    by (simp add: hd_append hd_rev)
  obtain st' new where st': "List_PushFrontList_loop st1 l (int (length rs)) (first_elem (rev (as' @ rs))) = Inr st'"
    "lists_ok st' (?m(l \<mapsto> new @ [] @ ls_fresh st # ps))" "vals st' new = vals st1 rs"
    "only_new st1 st' new"
    using snoc.IH [OF st1(1) l1 k1 hd_e] by blast
  have fresh: "allocated st1 (Elem (ls_fresh st))"
    using list_elem_allocated [OF st1(1), of l] by simp
  have "vals st1 rs = vals st rs"
    using list_elem_allocated [OF ok k] only_new_old [OF st1(3)] by (auto simp: vals_def)
  then have "vals st' (new @ [ls_fresh st]) = vals st (rs @ [x])"
    using st'(3) only_new_old [OF st'(4) fresh] st1(2) by (simp add: vals_def)
  moreover have "List_PushFrontList_loop st l (int (length (rs @ [x]))) e = Inr st'"
    using snoc.prems(4) y prev_e st'(1) root by (subst List_PushFrontList_loop.simps) simp
  ultimately show ?case
    using st'(2) only_new_swap [OF only_new_trans [OF st1(3) st'(4)]]
    by (intro exI [of _ st'] exI [of _ "new @ [ls_fresh st]"]) (simp del: fun_upd_apply)
qed

lemma PushList_ok:
  assumes "lists_ok st m" "m l = Some ps" "m k = Some qs"
  shows "\<exists>st' new. List_PushBackList st l k = Inr st' \<and> lists_ok st' (m(l \<mapsto> ps @ new))
      \<and> vals st' new = vals st qs \<and> only_new st st' new"
    "\<exists>st' new. List_PushFrontList st l k = Inr st' \<and> lists_ok st' (m(l \<mapsto> new @ ps))
      \<and> vals st' new = vals st qs \<and> only_new st st' new"
proof -
  have k: "m k = Some ([] @ qs @ [])" using assms(3) by simp
  have front: "qs \<noteq> [] \<Longrightarrow> first_elem qs = Some (Elem (hd qs))"
    and at_back: "qs \<noteq> [] \<Longrightarrow> first_elem (rev qs) = Some (Elem (last qs))" by (simp_all add: hd_rev)
  have "List_PushBackList st l k = List_PushBackList_loop st l (int (length qs)) (first_elem qs)"
    "List_PushFrontList st l k = List_PushFrontList_loop st l (int (length qs)) (first_elem (rev qs))"
    using lazyInit_ok [OF assms(1,2)] ends_ok [OF assms(1,3)] lists_okD(2) [OF assms(1,3)]
    by (simp_all add: List_PushBackList_def List_PushFrontList_def List_Len_def)
  with PushFrontList_loop_ok [OF assms(1,2) k at_back] PushBackList_loop_ok [OF assms(1,2) k front]
  show "\<exists>st' new. List_PushBackList st l k = Inr st' \<and> lists_ok st' (m(l \<mapsto> ps @ new))
      \<and> vals st' new = vals st qs \<and> only_new st st' new"
    "\<exists>st' new. List_PushFrontList st l k = Inr st' \<and> lists_ok st' (m(l \<mapsto> new @ ps))
      \<and> vals st' new = vals st qs \<and> only_new st st' new" by metis+
qed

text \<open>
  C20: \<open>PushBackList\<close> and \<open>PushFrontList\<close> copy the list \<open>k\<close>, in its order, behind or in front of the
  elements of \<open>l\<close>: the new elements carry its values, every old element keeps its place and its
  value.  The two lists may be the same one, as the code promises.
\<close>

theorem List_PushList_copies:
  assumes "lists_ok st m" "m l = Some ps" "m k = Some qs"
  shows "(\<exists>st' new. List_PushBackList st l k = Inr st' \<and> lists_ok st' (m(l \<mapsto> ps @ new))
      \<and> vals st' new = vals st qs \<and> (\<forall>a. allocated st a \<longrightarrow> val st' a = val st a))
    \<and> (\<exists>st' new. List_PushFrontList st l k = Inr st' \<and> lists_ok st' (m(l \<mapsto> new @ ps))
      \<and> vals st' new = vals st qs \<and> (\<forall>a. allocated st a \<longrightarrow> val st' a = val st a))"
  using PushList_ok [OF assms] by (blast dest: only_new_old)


section \<open>Concrete runs\<close>

text \<open>The list \<open>7, 8\<close>, as \<open>NewList\<close> and two calls of \<open>PushBack\<close> build it.\<close>

definition sample_store :: "nat list_store" where
  "sample_store = \<lparr>ls_elem =
     [Root 0 \<mapsto> \<lparr>e_next = Some (Elem 1), e_prev = Some (Elem 2), e_list = None, e_Value = 0\<rparr>,
      Elem 1 \<mapsto> \<lparr>e_next = Some (Elem 2), e_prev = Some (Root 0), e_list = Some 0, e_Value = 7\<rparr>,
      Elem 2 \<mapsto> \<lparr>e_next = Some (Root 0), e_prev = Some (Elem 1), e_list = Some 0, e_Value = 8\<rparr>],
     ls_len = (\<lambda>_. 0)(0 := 2), ls_fresh = 3\<rparr>"

lemma sample_store_built:
  "andThen (NewList 0 empty_store) (\<lambda>(l, st). andThen (List_PushBack st l 7) (\<lambda>(_, st).
     andThen (List_PushBack st l 8) (\<lambda>(_, st). Inr st))) = Inr sample_store"
  by (simp add: NewList_def List_Init_def empty_store_def set_next_def set_prev_def set_list_def load_def put_def
      List_PushBack_def List_lazyInit_def List_insertValue_def List_insert_def add_len_def sample_store_def Let_def andThen_def fun_upd_twist numeral_3_eq_3 numeral_2_eq_2)

lemma sample_store_ok: "lists_ok sample_store [0 \<mapsto> [1, 2]]"
  by (auto simp: lists_ok_def sample_store_def nodes_of_def circle_Cons nx_def pv_def owner_def allocated_def
      split: if_splits)

lemma sample_elems: "allocated sample_store (Elem 1)" "val sample_store (Elem 1) = Some 7"
  by (simp_all add: sample_store_def allocated_def val_def)

lemma List_inserts_witness:
  "\<exists>st'. List_InsertBefore sample_store 0 9 (Some (Elem 2)) = Inr (Some (Elem 3), st')
    \<and> lists_ok st' [0 \<mapsto> [1, 3, 2]] \<and> val st' = (val sample_store)(Elem 3 \<mapsto> 9)"
  using List_inserts [OF sample_store_ok, of 0 "[1, 2]" 2 9] by (simp add: sample_store_def)

lemma List_Remove_correct_witness:
  "\<exists>st'. List_Remove sample_store 0 (Some (Elem 1)) = Inr (7, st') \<and> lists_ok st' [0 \<mapsto> [2]]
    \<and> owner st' (Elem 1) = None"
  using List_Remove_correct [OF sample_store_ok _ sample_elems, of 0 "[1, 2]"] by auto

lemma List_moves_witness:
  "\<exists>st'. List_MoveAfter sample_store 0 (Some (Elem 1)) (Some (Elem 2)) = Inr st'
    \<and> lists_ok st' [0 \<mapsto> [2, 1]] \<and> val st' = val sample_store"
  using List_moves [OF sample_store_ok, of 0 "[1, 2]" 1 2] by simp

lemma List_traversal_witness:
  "List_Len sample_store 0 = 2 \<and> Element_Next sample_store (Some (Elem 2)) = Inr None
    \<and> Element_Prev sample_store (Some (Elem 2)) = Inr (Some (Elem 1))"
  using List_traversal [OF sample_store_ok, of 0 "[1, 2]" 1] by simp

lemma List_PushList_copies_witness:
  "\<exists>st' new. List_PushBackList sample_store 0 0 = Inr st' \<and> lists_ok st' [0 \<mapsto> [1, 2] @ new]
    \<and> vals st' new = [Some 7, Some 8]"
proof -
  have "vals sample_store [1, 2] = [Some 7, Some 8]" by (simp add: vals_def val_def sample_store_def)
  then show ?thesis
    using List_PushList_copies [OF sample_store_ok, of 0 "[1, 2]" 0 "[1, 2]"] by auto
qed

end
