(* ===== verification/ListRetire.thy ===== *)
theory ListRetire
  imports LinkedList
begin

text \<open>
  Elements that \<open>Init\<close> left behind.  Clearing a list does not tell its elements: their \<open>list\<close> field
  still names it.  \<open>forget D st\<close> is the store with the \<open>list\<close> fields of the elements in \<open>D\<close> set to nil,
  as \<open>Remove\<close> would have done.  No operation of \<open>list.go\<close> that is given none of these elements can
  tell the two stores apart.
\<close>

definition forget_elem :: "nat set \<Rightarrow> node option \<Rightarrow> 'a Element \<Rightarrow> 'a Element" where
  "forget_elem D p e = (if p \<in> Some ` Elem ` D then e\<lparr>e_list := None\<rparr> else e)"

definition forget :: "nat set \<Rightarrow> 'a list_store \<Rightarrow> 'a list_store" where
  "forget D st = st\<lparr>ls_elem := (\<lambda>a. map_option (forget_elem D (Some a)) (ls_elem st a))\<rparr>"

lemma forget_elem_fields [simp]:
  "e_next (forget_elem D p e) = e_next e" "e_prev (forget_elem D p e) = e_prev e"
  "e_Value (forget_elem D p e) = e_Value e"
  "(\<And>d. d \<in> D \<Longrightarrow> p \<noteq> Some (Elem d)) \<Longrightarrow> forget_elem D p e = e"
  by (auto simp: forget_elem_def)

lemma forget_elem_Root [simp]: "forget_elem D (Some (Root l)) e = e"
  by (auto simp: forget_elem_def)

lemma forget_views [simp]:
  "nx (forget D st) = nx st" "pv (forget D st) = pv st" "val (forget D st) = val st"
  "allocated (forget D st) = allocated st" "ls_len (forget D st) = ls_len st"
  "ls_fresh (forget D st) = ls_fresh st"
  "owner (forget D st) a = (if a \<in> Elem ` D then None else owner st a)"
  by (auto simp: forget_def fun_eq_iff nx_def pv_def val_def owner_def allocated_def forget_elem_def
      split: option.splits)

lemma forget_empty [simp]: "forget {} st = st"
proof -
  have "map_option (forget_elem {} (Some a)) (ls_elem st a) = ls_elem st a" for a
    by (cases "ls_elem st a") (simp_all add: forget_elem_def)
  then show ?thesis by (simp add: forget_def)
qed

lemma andThen_cong: "(\<And>x. m = Inr x \<Longrightarrow> f x = g x) \<Longrightarrow> andThen m f = andThen m g"
  by (cases m) simp_all

section \<open>The operations commute with forgetting\<close>

text \<open>A step on the forgotten store is the step on the store, followed by forgetting.\<close>

abbreviation forgets :: "nat set \<Rightarrow> go_panic + 'a list_store \<Rightarrow> go_panic + 'a list_store" where
  "forgets D \<equiv> map_sum id (forget D)"

abbreviation forgets2 :: "nat set \<Rightarrow> go_panic + ('b \<times> 'a list_store) \<Rightarrow> go_panic + ('b \<times> 'a list_store)" where
  "forgets2 D \<equiv> map_sum id (apsnd (forget D))"

named_theorems forgetting \<open>the operations commute with forgetting\<close>

lemma andThen_map [forgetting]: "andThen (map_sum id g m) f = andThen m (\<lambda>x. f (g x))"
  by (cases m) simp_all

lemma map_andThen [forgetting]: "map_sum id g (andThen m h) = andThen m (\<lambda>x. map_sum id g (h x))"
  by (cases m) simp_all

lemma load_forget [forgetting]: "load (forget D st) p = map_sum id (forget_elem D p) (load st p)"
  by (auto simp: load_def forget_def split: option.splits)

lemma put_forget: "put (forget D st) a (forget_elem D (Some a) e) = forget D (put st a e)"
  by (auto simp: put_def forget_def fun_eq_iff)

lemma put_forget_free:
  "(\<And>d. d \<in> D \<Longrightarrow> a \<noteq> Elem d) \<Longrightarrow> put (forget D st) a e = forget D (put st a e)"
  using put_forget [of D st a e] by simp

lemma set_forget [forgetting]:
  "set_next (forget D st) p v = forgets D (set_next st p v)"
  "set_prev (forget D st) p v = forgets D (set_prev st p v)"
proof -
  have e: "put (forget D st) a ((forget_elem D (Some a) e)\<lparr>e_next := v\<rparr>) = forget D (put st a (e\<lparr>e_next := v\<rparr>))"
    "put (forget D st) a ((forget_elem D (Some a) e)\<lparr>e_prev := v\<rparr>) = forget D (put st a (e\<lparr>e_prev := v\<rparr>))" for a e
    unfolding put_forget [symmetric] by (cases e; simp add: forget_elem_def)+
  show "set_next (forget D st) p v = forgets D (set_next st p v)"
    by (cases p) (simp_all add: set_next_def forgetting e, simp add: load_def)
  show "set_prev (forget D st) p v = forgets D (set_prev st p v)"
    by (cases p) (simp_all add: set_prev_def forgetting e, simp add: load_def)
qed

lemma set_list_forget [forgetting]:
  "(\<And>d. d \<in> D \<Longrightarrow> p \<noteq> Some (Elem d)) \<Longrightarrow> set_list (forget D st) p v = forgets D (set_list st p v)"
  by (cases p) (simp_all add: set_list_def forgetting put_forget_free, simp add: load_def)

lemma field_forget [forgetting]:
  "add_len (forget D st) l d = forget D (add_len st l d)"
  "(forget D st)\<lparr>ls_fresh := k\<rparr> = forget D (st\<lparr>ls_fresh := k\<rparr>)"
  "(forget D st)\<lparr>ls_len := f\<rparr> = forget D (st\<lparr>ls_len := f\<rparr>)"
  by (simp_all add: add_len_def forget_def)

lemma insert_forget [forgetting]:
  assumes "\<And>d. d \<in> D \<Longrightarrow> e \<noteq> Some (Elem d)"
  shows "List_insert (forget D st) l e at = forgets2 D (List_insert st l e at)"
  using assms by (simp add: List_insert_def forgetting)

lemma insertValue_forget [forgetting]:
  assumes "ls_fresh st \<notin> D"
  shows "List_insertValue (forget D st) l v at = forgets2 D (List_insertValue st l v at)"
proof -
  have "Elem (ls_fresh st) \<noteq> Elem d" if "d \<in> D" for d using that assms by auto
  then show ?thesis by (simp add: List_insertValue_def Let_def put_forget_free forgetting)
qed

lemma remove_forget [forgetting]:
  assumes "\<And>d. d \<in> D \<Longrightarrow> e \<noteq> Some (Elem d)"
  shows "List_remove (forget D st) l e = forgets D (List_remove st l e)"
  using assms by (simp add: List_remove_def forgetting)

lemma move_forget [forgetting]: "List_move (forget D st) e at = forgets D (List_move st e at)"
  by (simp add: List_move_def forgetting)

lemma Init_forget [forgetting]: "List_Init (forget D st) l = forgets D (List_Init st l)"
  by (simp add: List_Init_def forgetting)

lemma lazyInit_forget [forgetting]: "List_lazyInit (forget D st) l = forgets D (List_lazyInit st l)"
  by (auto simp: List_lazyInit_def forgetting if_distrib [of "forgets D"] intro!: arg_cong2 [where f = andThen])

lemma zero_forget: "put (forget D st) (Root l) e = forget D (put st (Root l) e)"
  by (rule put_forget_free) simp

lemma NewList_forget [forgetting]: "NewList z (forget D st) = forgets2 D (NewList z st)"
  by (simp add: NewList_def Let_def zero_forget forgetting)

lemma Remove_forget [forgetting]:
  assumes "x \<notin> D"
  shows "List_Remove (forget D st) l (Some (Elem x)) = forgets2 D (List_Remove st l (Some (Elem x)))"
proof -
  have "Some (Elem x) \<noteq> Some (Elem d)" if "d \<in> D" for d using that assms by auto
  then show ?thesis
    by (auto simp: List_Remove_def forgetting intro!: andThen_cong)
qed

lemma push_forget [forgetting]:
  assumes "\<And>st1. List_lazyInit st l = Inr st1 \<Longrightarrow> ls_fresh st1 \<notin> D"
  shows "List_PushFront (forget D st) l v = forgets2 D (List_PushFront st l v)"
    "List_PushBack (forget D st) l v = forgets2 D (List_PushBack st l v)"
  using assms
  by (auto simp: List_PushFront_def List_PushBack_def forgetting intro!: andThen_cong)

lemma mark_forget [forgetting]:
  assumes "ls_fresh st \<notin> D" "y \<notin> D"
  shows "List_InsertBefore (forget D st) l v (Some (Elem y)) = forgets2 D (List_InsertBefore st l v (Some (Elem y)))"
    "List_InsertAfter (forget D st) l v (Some (Elem y)) = forgets2 D (List_InsertAfter st l v (Some (Elem y)))"
proof -
  have "Some (Elem y) \<noteq> Some (Elem d)" if "d \<in> D" for d using that assms by auto
  with assms(1) show "List_InsertBefore (forget D st) l v (Some (Elem y)) = forgets2 D (List_InsertBefore st l v (Some (Elem y)))"
    "List_InsertAfter (forget D st) l v (Some (Elem y)) = forgets2 D (List_InsertAfter st l v (Some (Elem y)))"
    by (auto simp: List_InsertBefore_def List_InsertAfter_def forgetting intro!: andThen_cong)
qed

lemma moves_forget [forgetting]:
  assumes "x \<notin> D"
  shows "List_MoveToFront (forget D st) l (Some (Elem x)) = forgets D (List_MoveToFront st l (Some (Elem x)))"
    "List_MoveToBack (forget D st) l (Some (Elem x)) = forgets D (List_MoveToBack st l (Some (Elem x)))"
    "y \<notin> D \<Longrightarrow> List_MoveBefore (forget D st) l (Some (Elem x)) (Some (Elem y)) =
      forgets D (List_MoveBefore st l (Some (Elem x)) (Some (Elem y)))"
    "y \<notin> D \<Longrightarrow> List_MoveAfter (forget D st) l (Some (Elem x)) (Some (Elem y)) =
      forgets D (List_MoveAfter st l (Some (Elem x)) (Some (Elem y)))"
proof -
  have x: "Some (Elem x) \<noteq> Some (Elem d)" if "d \<in> D" for d using that assms by auto
  then show "List_MoveToFront (forget D st) l (Some (Elem x)) = forgets D (List_MoveToFront st l (Some (Elem x)))"
    "List_MoveToBack (forget D st) l (Some (Elem x)) = forgets D (List_MoveToBack st l (Some (Elem x)))"
    by (auto simp: List_MoveToFront_def List_MoveToBack_def forgetting intro!: andThen_cong)
  assume "y \<notin> D"
  then have "Some (Elem y) \<noteq> Some (Elem d)" if "d \<in> D" for d using that by auto
  with x show "List_MoveBefore (forget D st) l (Some (Elem x)) (Some (Elem y)) =
      forgets D (List_MoveBefore st l (Some (Elem x)) (Some (Elem y)))"
    "List_MoveAfter (forget D st) l (Some (Elem x)) (Some (Elem y)) =
      forgets D (List_MoveAfter st l (Some (Elem x)) (Some (Elem y)))"
    by (auto simp: List_MoveBefore_def List_MoveAfter_def forgetting intro!: andThen_cong)
qed

section \<open>Copying\<close>

text \<open>
  The loops that copy a list follow its \<open>Next\<close> or \<open>Prev\<close> pointers, which look at the \<open>list\<close> field.
  Where the loop on the forgotten store returns, it met no retired element but perhaps at its
  very end, where the pointer is not used any more.
\<close>

lemma insertValue_fresh: "List_insertValue st l v at = Inr (e, st') \<Longrightarrow> ls_fresh st' = ls_fresh st + 1"
  by (auto simp: List_insertValue_def List_insert_def set_next_def set_prev_def set_list_def put_def add_len_def
      andThen_eq_Inr Let_def)

lemma Element_Next_forget:
  assumes "Element_Next (forget D st) e = Inr e0"
  shows "\<exists>e'. Element_Next st e = Inr e' \<and> (e0 = None \<or> e0 = e')"
  using assms
  by (cases "load st e") (auto simp: Element_Next_def forgetting forget_elem_def Let_def split: option.splits if_splits)

lemma Element_Prev_forget:
  assumes "Element_Prev (forget D st) e = Inr e0"
  shows "\<exists>e'. Element_Prev st e = Inr e' \<and> (e0 = None \<or> e0 = e')"
  using assms
  by (cases "load st e") (auto simp: Element_Prev_def forgetting forget_elem_def Let_def split: option.splits if_splits)

lemma loops_at_nil:
  "List_PushBackList_loop st l i None = Inr st' \<Longrightarrow> i \<le> 0 \<and> st' = st"
  "List_PushFrontList_loop st l i None = Inr st' \<Longrightarrow> i \<le> 0 \<and> st' = st"
  by (simp_all add: List_PushBackList_loop.simps [of st l i None] List_PushFrontList_loop.simps [of st l i None]
      load_def split: if_splits)

lemma loops_done:
  "i \<le> 0 \<Longrightarrow> List_PushBackList_loop st l i e = Inr st" "i \<le> 0 \<Longrightarrow> List_PushFrontList_loop st l i e = Inr st"
  by (simp_all add: List_PushBackList_loop.simps [of st l i e] List_PushFrontList_loop.simps [of st l i e])

lemma fresh_not_retired: "\<forall>d\<in>D. d < ls_fresh st \<Longrightarrow> ls_fresh st \<notin> D"
  by auto

lemma PushBackList_loop_forget:
  "List_PushBackList_loop (forget D st) l i e = Inr st0 \<Longrightarrow> \<forall>d\<in>D. d < ls_fresh st \<Longrightarrow>
    \<exists>st'. List_PushBackList_loop st l i e = Inr st' \<and> st0 = forget D st'"
proof (induction "nat i" arbitrary: st i e)
  case 0
  then show ?case by (simp add: loops_done)
next
  case (Suc k)
  then have i: "0 < i" "k = nat (i - 1)" by simp_all
  note run = Suc.prems(1) [unfolded List_PushBackList_loop.simps [of "forget D st" l i e]]
  obtain x r where x: "load st e = Inr x" "load st (Some (Root l)) = Inr r"
    using run i(1) by (cases "load st e"; cases "load st (Some (Root l))") (simp_all add: forgetting)
  obtain y st1 where st1: "List_insertValue st l (e_Value x) (e_prev r) = Inr (y, st1)"
    using run i(1) x fresh_not_retired [OF Suc.prems(2)]
    by (cases "List_insertValue st l (e_Value x) (e_prev r)") (auto simp: forgetting)
  obtain e0 where e0: "Element_Next (forget D st1) e = Inr e0"
    "List_PushBackList_loop (forget D st1) l (i - 1) e0 = Inr st0"
    using run i(1) x st1 fresh_not_retired [OF Suc.prems(2)]
    by (cases "Element_Next (forget D st1) e") (simp_all add: forgetting)
  obtain e' where e': "Element_Next st1 e = Inr e'" "e0 = None \<or> e0 = e'"
    using Element_Next_forget [OF e0(1)] by blast
  have step: "List_PushBackList_loop st l i e = List_PushBackList_loop st1 l (i - 1) e'"
    using i(1) x st1 e'(1) by (subst List_PushBackList_loop.simps) simp
  have old: "\<forall>d\<in>D. d < ls_fresh st1" using Suc.prems(2) insertValue_fresh [OF st1] by auto
  show ?case
  proof (cases "e0 = e'")
    case True
    with Suc.hyps(1) [OF i(2), of st1 e'] e0(2) old step show ?thesis by simp
  next
    case False
    with e' e0(2) loops_at_nil(1) [of "forget D st1" l "i - 1" st0] have "i - 1 \<le> 0" "st0 = forget D st1" by auto
    with step loops_done(1) [of "i - 1" st1 l e'] show ?thesis by simp
  qed
qed

lemma PushFrontList_loop_forget:
  "List_PushFrontList_loop (forget D st) l i e = Inr st0 \<Longrightarrow> \<forall>d\<in>D. d < ls_fresh st \<Longrightarrow>
    \<exists>st'. List_PushFrontList_loop st l i e = Inr st' \<and> st0 = forget D st'"
proof (induction "nat i" arbitrary: st i e)
  case 0
  then show ?case by (simp add: loops_done)
next
  case (Suc k)
  then have i: "0 < i" "k = nat (i - 1)" by simp_all
  note run = Suc.prems(1) [unfolded List_PushFrontList_loop.simps [of "forget D st" l i e]]
  obtain x where x: "load st e = Inr x"
    using run i(1) by (cases "load st e") (simp_all add: forgetting)
  obtain y st1 where st1: "List_insertValue st l (e_Value x) (Some (Root l)) = Inr (y, st1)"
    using run i(1) x fresh_not_retired [OF Suc.prems(2)]
    by (cases "List_insertValue st l (e_Value x) (Some (Root l))") (auto simp: forgetting)
  obtain e0 where e0: "Element_Prev (forget D st1) e = Inr e0"
    "List_PushFrontList_loop (forget D st1) l (i - 1) e0 = Inr st0"
    using run i(1) x st1 fresh_not_retired [OF Suc.prems(2)]
    by (cases "Element_Prev (forget D st1) e") (simp_all add: forgetting)
  obtain e' where e': "Element_Prev st1 e = Inr e'" "e0 = None \<or> e0 = e'"
    using Element_Prev_forget [OF e0(1)] by blast
  have step: "List_PushFrontList_loop st l i e = List_PushFrontList_loop st1 l (i - 1) e'"
    using i(1) x st1 e'(1) by (subst List_PushFrontList_loop.simps) simp
  have old: "\<forall>d\<in>D. d < ls_fresh st1" using Suc.prems(2) insertValue_fresh [OF st1] by auto
  show ?case
  proof (cases "e0 = e'")
    case True
    with Suc.hyps(1) [OF i(2), of st1 e'] e0(2) old step show ?thesis by simp
  next
    case False
    with e' e0(2) loops_at_nil(2) [of "forget D st1" l "i - 1" st0] have "i - 1 \<le> 0" "st0 = forget D st1" by auto
    with step loops_done(2) [of "i - 1" st1 l e'] show ?thesis by simp
  qed
qed

lemma lazyInit_fresh: "List_lazyInit st l = Inr st' \<Longrightarrow> ls_fresh st' = ls_fresh st"
  by (auto simp: List_lazyInit_def List_Init_def set_next_def set_prev_def put_def andThen_eq_Inr split: if_splits)

lemma ends_forget [forgetting]:
  "List_Front (forget D st) l = List_Front st l" "List_Back (forget D st) l = List_Back st l"
  by (auto simp: List_Front_def List_Back_def forgetting)

lemma PushBackList_forget:
  assumes "\<forall>d\<in>D. d < ls_fresh st" "List_PushBackList (forget D st) l k = Inr st0"
  shows "\<exists>st'. List_PushBackList st l k = Inr st' \<and> st0 = forget D st'"
proof -
  from assms(2) obtain st1 e where 1: "List_lazyInit st l = Inr st1" "List_Front st1 k = Inr e"
    "List_PushBackList_loop (forget D st1) l (List_Len st1 k) e = Inr st0"
    by (auto simp: List_PushBackList_def forgetting List_Len_def andThen_eq_Inr)
  with PushBackList_loop_forget [OF 1(3)] lazyInit_fresh [OF 1(1)] assms(1)
  show ?thesis by (simp add: List_PushBackList_def)
qed

lemma PushFrontList_forget:
  assumes "\<forall>d\<in>D. d < ls_fresh st" "List_PushFrontList (forget D st) l k = Inr st0"
  shows "\<exists>st'. List_PushFrontList st l k = Inr st' \<and> st0 = forget D st'"
proof -
  from assms(2) obtain st1 e where 1: "List_lazyInit st l = Inr st1" "List_Back st1 k = Inr e"
    "List_PushFrontList_loop (forget D st1) l (List_Len st1 k) e = Inr st0"
    by (auto simp: List_PushFrontList_def forgetting List_Len_def andThen_eq_Inr)
  with PushFrontList_loop_forget [OF 1(3)] lazyInit_fresh [OF 1(1)] assms(1)
  show ?thesis by (simp add: List_PushFrontList_def)
qed

end
