(* ===== verification/ListSteps.thy ===== *)
theory ListSteps
  imports ListRetire
begin

text \<open>
  \<open>list.go\<close> as a whole: what any sequence of list operations does to the store.  The abstract
  specification is a step relation on named sequences and values of elements, which leaves the
  choice of new elements open; the store refines it, and no operation on pointers the program
  holds ever dereferences nil.  The program may make lists with \<open>NewList\<close> or use zero values, and
  may clear a list with \<open>Init\<close>; the elements a list had at that moment are then retired: \<open>Init\<close> does
  not tell them, and using them later breaks the list (\<open>Init_Remove_breaks\<close>).
\<close>

section \<open>The operations as data\<close>

datatype 'a list_op =
    LNew | LZero | LInit nat
  | LPushFront nat 'a | LPushBack nat 'a
  | LInsertBefore nat 'a nat | LInsertAfter nat 'a nat
  | LRemove nat nat
  | LMoveToFront nat nat | LMoveToBack nat nat
  | LMoveBefore nat nat nat | LMoveAfter nat nat nat
  | LPushBackList nat nat | LPushFrontList nat nat

datatype 'a list_res = RList nat | RElem "node option" | RVal 'a | RDone

definition with_elem :: "go_panic + (node option \<times> 'a list_store) \<Rightarrow> go_panic + ('a list_res \<times> 'a list_store)" where
  "with_elem m = andThen m (\<lambda>(e, st). Inr (RElem e, st))"

definition with_done :: "go_panic + 'a list_store \<Rightarrow> go_panic + ('a list_res \<times> 'a list_store)" where
  "with_done m = andThen m (\<lambda>st. Inr (RDone, st))"

text \<open>A zero value of \<open>List\<close>.\<close>

definition zero_List :: "'a \<Rightarrow> 'a list_store \<Rightarrow> nat \<times> 'a list_store" where
  "zero_List z st =
     (let l = ls_fresh st;
          st1 = put st (Root l) \<lparr>e_next = None, e_prev = None, e_list = None, e_Value = z\<rparr>
      in (l, st1\<lparr>ls_fresh := l + 1, ls_len := (ls_len st1)(l := 0)\<rparr>))"

text \<open>One call; \<open>z\<close> is the zero value of the item type.\<close>

fun List_step :: "'a \<Rightarrow> 'a list_op \<Rightarrow> 'a list_store \<Rightarrow> go_panic + ('a list_res \<times> 'a list_store)" where
  "List_step z LNew st = andThen (NewList z st) (\<lambda>(l, st'). Inr (RList l, st'))"
| "List_step z LZero st = (let (l, st') = zero_List z st in Inr (RList l, st'))"
| "List_step z (LInit l) st = with_done (List_Init st l)"
| "List_step z (LPushFront l v) st = with_elem (List_PushFront st l v)"
| "List_step z (LPushBack l v) st = with_elem (List_PushBack st l v)"
| "List_step z (LInsertBefore l v y) st = with_elem (List_InsertBefore st l v (Some (Elem y)))"
| "List_step z (LInsertAfter l v y) st = with_elem (List_InsertAfter st l v (Some (Elem y)))"
| "List_step z (LRemove l x) st = andThen (List_Remove st l (Some (Elem x))) (\<lambda>(v, st'). Inr (RVal v, st'))"
| "List_step z (LMoveToFront l x) st = with_done (List_MoveToFront st l (Some (Elem x)))"
| "List_step z (LMoveToBack l x) st = with_done (List_MoveToBack st l (Some (Elem x)))"
| "List_step z (LMoveBefore l x y) st = with_done (List_MoveBefore st l (Some (Elem x)) (Some (Elem y)))"
| "List_step z (LMoveAfter l x y) st = with_done (List_MoveAfter st l (Some (Elem x)) (Some (Elem y)))"
| "List_step z (LPushBackList l k) st = with_done (List_PushBackList st l k)"
| "List_step z (LPushFrontList l k) st = with_done (List_PushFrontList st l k)"

text \<open>The lists and the elements that a call mentions; it may mention those the program has.\<close>

fun op_lists :: "'a list_op \<Rightarrow> nat set" where
  "op_lists LNew = {}"
| "op_lists LZero = {}"
| "op_lists (LInit l) = {l}"
| "op_lists (LPushFront l v) = {l}"
| "op_lists (LPushBack l v) = {l}"
| "op_lists (LInsertBefore l v y) = {l}"
| "op_lists (LInsertAfter l v y) = {l}"
| "op_lists (LRemove l x) = {l}"
| "op_lists (LMoveToFront l x) = {l}"
| "op_lists (LMoveToBack l x) = {l}"
| "op_lists (LMoveBefore l x y) = {l}"
| "op_lists (LMoveAfter l x y) = {l}"
| "op_lists (LPushBackList l k) = {l, k}"
| "op_lists (LPushFrontList l k) = {l, k}"

fun op_elems :: "'a list_op \<Rightarrow> nat set" where
  "op_elems (LInsertBefore l v y) = {y}"
| "op_elems (LInsertAfter l v y) = {y}"
| "op_elems (LRemove l x) = {x}"
| "op_elems (LMoveToFront l x) = {x}"
| "op_elems (LMoveToBack l x) = {x}"
| "op_elems (LMoveBefore l x y) = {x, y}"
| "op_elems (LMoveAfter l x y) = {x, y}"
| "op_elems _ = {}"

text \<open>
  \<open>D\<close> are the retired elements: \<open>Init\<close> retires those whose list it clears.  A call may not mention
  them.
\<close>

definition valid_op :: "'a list_store \<Rightarrow> nat set \<Rightarrow> 'a list_op \<Rightarrow> bool" where
  "valid_op st D op \<longleftrightarrow> (\<forall>l \<in> op_lists op. allocated st (Root l))
     \<and> (\<forall>x \<in> op_elems op. allocated st (Elem x) \<and> x \<notin> D)"

fun retired :: "'a list_op \<Rightarrow> 'a list_store \<Rightarrow> nat set \<Rightarrow> nat set" where
  "retired (LInit l) st D = D \<union> {x. owner st (Elem x) = Some l}"
| "retired _ st D = D"

text \<open>The calls a program can make, one after the other, with their results and the store they lead to.\<close>

inductive List_trace :: "'a \<Rightarrow> ('a list_op \<times> 'a list_res) list \<Rightarrow> 'a list_store \<Rightarrow> nat set \<Rightarrow> bool" for z where
  start: "List_trace z [] empty_store {}"
| call: "List_trace z tr st D \<Longrightarrow> valid_op st D op \<Longrightarrow> List_step z op st = Inr (res, st') \<Longrightarrow>
    List_trace z (tr @ [(op, res)]) st' (retired op st D)"

section \<open>The specification\<close>

text \<open>
  \<open>seq_step op (m, vs) res (m', vs')\<close>: \<open>m\<close> gives the elements of every list, \<open>vs\<close> the value of
  every element ever made, in a list or not.  New lists and elements may be any unused ones.  An
  element of another list, or of none, makes an operation do nothing.  A zero list is an empty one.
\<close>

type_synonym 'a seqs = "(nat \<Rightarrow> nat list option) \<times> (nat \<Rightarrow> 'a option)"

inductive seq_step :: "'a list_op \<Rightarrow> 'a seqs \<Rightarrow> 'a list_res \<Rightarrow> 'a seqs \<Rightarrow> bool" where
  new: "m l = None \<Longrightarrow> op = LNew \<or> op = LZero \<Longrightarrow> seq_step op (m, vs) (RList l) (m(l \<mapsto> []), vs)"
| clear: "m l = Some ps \<Longrightarrow> seq_step (LInit l) (m, vs) RDone (m(l \<mapsto> []), vs)"
| push_front: "m l = Some ps \<Longrightarrow> vs e = None \<Longrightarrow>
    seq_step (LPushFront l v) (m, vs) (RElem (Some (Elem e))) (m(l \<mapsto> e # ps), vs(e \<mapsto> v))"
| push_back: "m l = Some ps \<Longrightarrow> vs e = None \<Longrightarrow>
    seq_step (LPushBack l v) (m, vs) (RElem (Some (Elem e))) (m(l \<mapsto> ps @ [e]), vs(e \<mapsto> v))"
| insert_before: "m l = Some ps \<Longrightarrow> y \<in> set ps \<Longrightarrow> vs e = None \<Longrightarrow>
    seq_step (LInsertBefore l v y) (m, vs) (RElem (Some (Elem e))) (m(l \<mapsto> put_before y e ps), vs(e \<mapsto> v))"
| insert_after: "m l = Some ps \<Longrightarrow> y \<in> set ps \<Longrightarrow> vs e = None \<Longrightarrow>
    seq_step (LInsertAfter l v y) (m, vs) (RElem (Some (Elem e))) (m(l \<mapsto> put_after y e ps), vs(e \<mapsto> v))"
| foreign_mark: "m l = Some ps \<Longrightarrow> y \<notin> set ps \<Longrightarrow> op = LInsertBefore l v y \<or> op = LInsertAfter l v y \<Longrightarrow>
    seq_step op (m, vs) (RElem None) (m, vs)"
| remove: "m l = Some ps \<Longrightarrow> vs x = Some v \<Longrightarrow>
    seq_step (LRemove l x) (m, vs) (RVal v) (m(l \<mapsto> remove1 x ps), vs)"
| to_front: "m l = Some ps \<Longrightarrow> x \<in> set ps \<Longrightarrow>
    seq_step (LMoveToFront l x) (m, vs) RDone (m(l \<mapsto> x # remove1 x ps), vs)"
| to_back: "m l = Some ps \<Longrightarrow> x \<in> set ps \<Longrightarrow>
    seq_step (LMoveToBack l x) (m, vs) RDone (m(l \<mapsto> remove1 x ps @ [x]), vs)"
| move_before: "m l = Some ps \<Longrightarrow> x \<in> set ps \<Longrightarrow> y \<in> set ps \<Longrightarrow> x \<noteq> y \<Longrightarrow>
    seq_step (LMoveBefore l x y) (m, vs) RDone (m(l \<mapsto> put_before y x (remove1 x ps)), vs)"
| move_after: "m l = Some ps \<Longrightarrow> x \<in> set ps \<Longrightarrow> y \<in> set ps \<Longrightarrow> x \<noteq> y \<Longrightarrow>
    seq_step (LMoveAfter l x y) (m, vs) RDone (m(l \<mapsto> put_after y x (remove1 x ps)), vs)"
| move_none: "m l = Some ps \<Longrightarrow>
    op \<in> {LMoveToFront l x, LMoveToBack l x} \<and> x \<notin> set ps
      \<or> op \<in> {LMoveBefore l x y, LMoveAfter l x y} \<and> (x \<notin> set ps \<or> y \<notin> set ps \<or> x = y) \<Longrightarrow>
    seq_step op (m, vs) RDone (m, vs)"
| push_list: "m l = Some ps \<Longrightarrow> m k = Some qs \<Longrightarrow> distinct new \<Longrightarrow> \<forall>n \<in> set new. vs n = None \<Longrightarrow>
    map vs' new = map vs qs \<Longrightarrow> (\<forall>e. e \<notin> set new \<longrightarrow> vs' e = vs e) \<Longrightarrow>
    op = LPushBackList l k \<and> rs = ps @ new \<or> op = LPushFrontList l k \<and> rs = new @ ps \<Longrightarrow>
    seq_step op (m, vs) RDone (m(l \<mapsto> rs), vs')"

inductive seq_trace :: "('a list_op \<times> 'a list_res) list \<Rightarrow> 'a seqs \<Rightarrow> bool" where
  start: "seq_trace [] (\<lambda>_. None, \<lambda>_. None)"
| call: "seq_trace tr a \<Longrightarrow> seq_step op a res a' \<Longrightarrow> seq_trace (tr @ [(op, res)]) a'"

text \<open>
  The abstraction: a list that the program has and that is not initialised yet stands for the empty
  sequence.
\<close>

definition all_lists :: "'a list_store \<Rightarrow> (nat \<Rightarrow> nat list option) \<Rightarrow> nat \<Rightarrow> nat list option" where
  "all_lists st m l = (if m l = None \<and> allocated st (Root l) then Some [] else m l)"

definition rep_of :: "'a list_store \<Rightarrow> (nat \<Rightarrow> nat list option) \<Rightarrow> 'a seqs \<Rightarrow> bool" where
  "rep_of st m a \<longleftrightarrow> lists_ok st m \<and> fst a = all_lists st m \<and> (\<forall>p. val st (Elem p) = snd a p)"

lemma rep_ok: "rep_of st m (mm, vs) \<Longrightarrow> lists_ok st m"
  by (simp add: rep_of_def)

lemma rep_lookup: "rep_of st m (mm, vs) \<Longrightarrow> m l = Some ps \<Longrightarrow> mm l = Some ps"
  by (simp add: rep_of_def all_lists_def)

lemma all_lists_upd:
  assumes "\<And>k. allocated st' (Root k) \<longleftrightarrow> allocated st (Root k)" "m l = Some ps"
  shows "all_lists st' (m(l \<mapsto> qs)) = (all_lists st m)(l \<mapsto> qs)"
  using assms by (auto simp: all_lists_def fun_eq_iff)

lemma rep_same:
  assumes "rep_of st m (mm, vs)" "m l = Some ps" "lists_ok st' (m(l \<mapsto> qs))" "val st' = val st"
  shows "rep_of st' (m(l \<mapsto> qs)) (mm(l \<mapsto> qs), vs)"
  using assms all_lists_upd [of st' st m l ps qs] by (auto simp: rep_of_def allocated_val)

lemma rep_insert:
  assumes "rep_of st m (mm, vs)" "m l = Some ps" "lists_ok st' (m(l \<mapsto> qs))" "val st' = (val st)(Elem e \<mapsto> v)"
  shows "rep_of st' (m(l \<mapsto> qs)) (mm(l \<mapsto> qs), vs(e \<mapsto> v))"
  using assms all_lists_upd [of st' st m l ps qs] by (auto simp: rep_of_def allocated_val)

lemma rep_fresh: "rep_of st m (mm, vs) \<Longrightarrow> vs (ls_fresh st) = None"
  using lists_okD(4) [of st m "ls_fresh st"] by (auto simp: rep_of_def allocated_val)

lemma load_foreign:
  assumes "lists_ok st m" "m l = None \<or> m l = Some ps \<and> x \<notin> set ps" "allocated st (Elem x)"
  shows "\<exists>e. load st (Some (Elem x)) = Inr e \<and> e_list e \<noteq> Some l"
  using load_allocated [OF assms(3)] fields_allocated(3) [OF assms(3)] lists_okD(3) [OF assms(1), of x l] assms(2)
  by auto

text \<open>The simulation, for one group of operations after the other.\<close>

definition simulated :: "'a \<Rightarrow> 'a list_op \<Rightarrow> 'a list_store \<Rightarrow> 'a seqs \<Rightarrow> bool" where
  "simulated z op st a \<longleftrightarrow>
     (\<exists>res st' m' a'. List_step z op st = Inr (res, st') \<and> seq_step op a res a' \<and> rep_of st' m' a')"

lemma simulatedI:
  "List_step z op st = Inr (res, st') \<Longrightarrow> seq_step op a res a' \<Longrightarrow> rep_of st' m' a' \<Longrightarrow> simulated z op st a"
  unfolding simulated_def by blast

lemma sim_unchanged:
  assumes "rep_of st m (mm, vs)" "List_step z op st = Inr (res, st)" "seq_step op (mm, vs) res (mm, vs)"
  shows "simulated z op st (mm, vs)"
  by (rule simulatedI [OF assms(2,3,1)])

lemma sim_new_elem:
  assumes "rep_of st m (mm, vs)" "m l = Some ps" "e = ls_fresh st"
    and "\<exists>st'. m' = Inr (Some (Elem e), st') \<and> lists_ok st' (m(l \<mapsto> qs)) \<and> val st' = (val st)(Elem e \<mapsto> v)"
    and "List_step z op st = with_elem m'" "seq_step op (mm, vs) (RElem (Some (Elem e))) (mm(l \<mapsto> qs), vs(e \<mapsto> v))"
  shows "simulated z op st (mm, vs)"
proof -
  obtain st' where st': "m' = Inr (Some (Elem e), st')" "lists_ok st' (m(l \<mapsto> qs))"
    "val st' = (val st)(Elem e \<mapsto> v)" using assms(4) by blast
  show ?thesis
    by (rule simulatedI [OF _ assms(6) rep_insert [OF assms(1,2) st'(2,3)]]) (simp add: assms(5) st'(1) with_elem_def)
qed

lemma sim_rearranged:
  assumes "rep_of st m (mm, vs)" "m l = Some ps"
    and "\<exists>st'. List_step z op st = Inr (res, st') \<and> lists_ok st' (m(l \<mapsto> qs)) \<and> val st' = val st"
    and "seq_step op (mm, vs) res (mm(l \<mapsto> qs), vs)"
  shows "simulated z op st (mm, vs)"
proof -
  obtain st' where st': "List_step z op st = Inr (res, st')" "lists_ok st' (m(l \<mapsto> qs))" "val st' = val st"
    using assms(3) by blast
  from simulatedI [OF st'(1) assms(4) rep_same [OF assms(1,2) st'(2,3)]] show ?thesis .
qed

text \<open>New lists, zero values, and the initialisation of a zero value by \<open>lazyInit\<close>.\<close>

lemma unused_address:
  assumes "rep_of st m (mm, vs)"
  shows "m (ls_fresh st) = None" "mm (ls_fresh st) = None"
proof -
  have free: "\<not> allocated st (Root (ls_fresh st))" using lists_okD(4) [OF rep_ok [OF assms]] by simp
  then show "m (ls_fresh st) = None"
    using list_allocated [OF rep_ok [OF assms], of "ls_fresh st" _ "Root (ls_fresh st)"]
    by (cases "m (ls_fresh st)") (auto simp: set_nodes_of)
  with free assms show "mm (ls_fresh st) = None" by (simp add: rep_of_def all_lists_def)
qed

lemma sim_new:
  assumes "rep_of st m (mm, vs)"
  shows "simulated z LNew st (mm, vs)"
proof -
  let ?l = "ls_fresh st"
  obtain st' where st': "NewList z st = Inr (?l, st')" "lists_ok st' (m(?l \<mapsto> []))"
    "\<And>a. a \<noteq> Root ?l \<Longrightarrow> val st' a = val st a"
    using NewList_ok [OF rep_ok [OF assms]] by blast
  have "all_lists st' (m(?l \<mapsto> [])) = (all_lists st m)(?l \<mapsto> [])"
    using st'(3) by (auto simp: all_lists_def fun_eq_iff allocated_val)
  with assms st'(2,3) have "rep_of st' (m(?l \<mapsto> [])) (mm(?l \<mapsto> []), vs)" by (simp add: rep_of_def)
  with st'(1) unused_address(2) [OF assms] show ?thesis
    by (intro simulatedI [where res = "RList ?l"]) (auto intro: seq_step.new)
qed

lemma sim_zero:
  assumes "rep_of st m (mm, vs)"
  shows "simulated z LZero st (mm, vs)"
proof -
  let ?l = "ls_fresh st"
  define st1 where "st1 = put st (Root ?l) \<lparr>e_next = None, e_prev = None, e_list = None, e_Value = z\<rparr>"
  define st' where "st' = st1\<lparr>ls_fresh := ?l + 1, ls_len := (ls_len st1)(?l := 0)\<rparr>"
  note ok = rep_ok [OF assms] and none = unused_address [OF assms]
  have views: "nx st' = (nx st)(Root ?l := None)" "pv st' = (pv st)(Root ?l := None)"
    "owner st' = (owner st)(Root ?l := None)" "val st' = (val st)(Root ?l \<mapsto> z)" "ls_fresh st' = ?l + 1"
    "ls_len st' = (ls_len st)(?l := 0)" "\<And>a. allocated st' a \<longleftrightarrow> a = Root ?l \<or> allocated st a"
    by (simp_all add: st'_def st1_def put_views)
  have "circle (nx st') (pv st') (nodes_of k ps)" if "m k = Some ps" for k ps
    by (rule circle_frame [OF lists_okD(1) [OF ok that]])
      (use that none(1) in \<open>auto simp: views nodes_of_def\<close>)
  then have "lists_ok st' m"
    using lists_okD(2-6) [OF ok] none(1) unfolding lists_ok_def by (auto simp: views)
  moreover have "all_lists st' m = (all_lists st m)(?l \<mapsto> [])"
    using none(1) by (auto simp: all_lists_def fun_eq_iff views)
  ultimately have "rep_of st' m (mm(?l \<mapsto> []), vs)" using assms by (simp add: rep_of_def views)
  then show ?thesis
    using none(2)
    by (intro simulatedI [where res = "RList ?l"])
      (auto simp: zero_List_def Let_def st'_def st1_def intro: seq_step.new)
qed

lemma zero_init:
  assumes rep: "rep_of st m (mm, vs)" and l: "m l = None" "allocated st (Root l)"
  shows "\<exists>st1. List_lazyInit st l = Inr st1 \<and> rep_of st1 (m(l \<mapsto> [])) (mm, vs)
    \<and> allocated st1 = allocated st"
proof -
  note ok = rep_ok [OF rep]
  obtain st1 where st1: "List_Init st l = Inr st1" "lists_ok st1 (m(l \<mapsto> []))" "val st1 = val st"
    "allocated st1 = allocated st"
    using init_ok [OF ok l] by blast
  have "e_next (the (ls_elem st (Root l))) = None"
    using lists_okD(6) [OF ok l(1)] l(2) by (simp add: store_simps)
  with l(2) st1(1) have "List_lazyInit st l = Inr st1" by (simp add: List_lazyInit_def store_simps)
  moreover have "all_lists st1 (m(l \<mapsto> [])) = all_lists st m"
    using l st1(4) by (auto simp: all_lists_def fun_eq_iff)
  with rep st1(2,3) have "rep_of st1 (m(l \<mapsto> [])) (mm, vs)" by (simp add: rep_of_def)
  ultimately show ?thesis using st1(4) by blast
qed

text \<open>A list the program has, and its sequence: initialised, or a zero value.\<close>

definition held_list :: "'a list_store \<Rightarrow> (nat \<Rightarrow> nat list option) \<Rightarrow> nat \<Rightarrow> nat list \<Rightarrow> bool" where
  "held_list st m l ps \<longleftrightarrow> m l = Some ps \<or> m l = None \<and> ps = [] \<and> allocated st (Root l)"

lemma held_some: "held_list st m l ps \<Longrightarrow> x \<in> set ps \<Longrightarrow> m l = Some ps"
  by (auto simp: held_list_def)

lemma held_lookup: "rep_of st m (mm, vs) \<Longrightarrow> held_list st m l ps \<Longrightarrow> mm l = Some ps"
  by (auto simp: held_list_def rep_of_def all_lists_def)

lemma held_exists:
  assumes "rep_of st m (mm, vs)" "allocated st (Root l)"
  shows "\<exists>ps. held_list st m l ps"
  using assms by (cases "m l") (auto simp: held_list_def)

lemma held_root:
  assumes "rep_of st m (mm, vs)" "held_list st m l ps"
  shows "\<exists>r. load st (Some (Root l)) = Inr r"
  using assms(2) load_root [OF rep_ok [OF assms(1)], of l] load_allocated [of st "Root l"]
  by (auto simp: held_list_def)

lemma held_foreign:
  assumes "rep_of st m (mm, vs)" "held_list st m l ps" "allocated st (Elem x)" "x \<notin> set ps"
  shows "\<exists>e. load st (Some (Elem x)) = Inr e \<and> e_list e \<noteq> Some l"
  using assms(2,4) by (intro load_foreign [OF rep_ok [OF assms(1)] _ assms(3)]) (auto simp: held_list_def)

lemma sim_push_init:
  assumes "rep_of st m (mm, vs)" "m l = Some ps"
  shows "simulated z (LPushFront l v) st (mm, vs)" "simulated z (LPushBack l v) st (mm, vs)"
  by (rule sim_new_elem [OF assms refl PushFront_ok [OF rep_ok [OF assms(1)] assms(2)]],
      simp, rule seq_step.push_front, rule rep_lookup [OF assms], rule rep_fresh [OF assms(1)])
    (rule sim_new_elem [OF assms refl PushBack_ok [OF rep_ok [OF assms(1)] assms(2)]],
      simp, rule seq_step.push_back, rule rep_lookup [OF assms], rule rep_fresh [OF assms(1)])

lemma sim_insert:
  assumes rep: "rep_of st m (mm, vs)" "held_list st m l ps" and y: "allocated st (Elem y)"
  shows "simulated z (LInsertBefore l v y) st (mm, vs) \<and> simulated z (LInsertAfter l v y) st (mm, vs)"
proof (cases "y \<in> set ps")
  case True
  note ok = rep_ok [OF rep(1)] and fresh = rep_fresh [OF rep(1)] and l = held_some [OF rep(2) True]
    and mm = held_lookup [OF rep]
  have "simulated z (LInsertBefore l v y) st (mm, vs)"
    by (rule sim_new_elem [OF rep(1) l refl InsertBefore_ok [OF ok l True]], simp)
      (rule seq_step.insert_before, rule mm, rule True, rule fresh)
  moreover have "simulated z (LInsertAfter l v y) st (mm, vs)"
    by (rule sim_new_elem [OF rep(1) l refl InsertAfter_ok [OF ok l True]], simp)
      (rule seq_step.insert_after, rule mm, rule True, rule fresh)
  ultimately show ?thesis ..
next
  case False
  then obtain e where e: "load st (Some (Elem y)) = Inr e" "e_list e \<noteq> Some l"
    using held_foreign [OF rep y] by blast
  have "seq_step op (mm, vs) (RElem None) (mm, vs)" if "op = LInsertBefore l v y \<or> op = LInsertAfter l v y" for op
    by (rule seq_step.foreign_mark [where m = mm, OF held_lookup [OF rep] False that])
  with e show ?thesis
    by (auto intro!: sim_unchanged [OF rep(1), where res = "RElem None"]
      simp: with_elem_def List_InsertBefore_def List_InsertAfter_def)
qed

lemma sim_remove:
  assumes "rep_of st m (mm, vs)" "held_list st m l ps" "allocated st (Elem x)"
  shows "simulated z (LRemove l x) st (mm, vs)"
proof -
  obtain v where v: "val st (Elem x) = Some v" "vs x = Some v"
    using assms(1,3) by (auto simp: rep_of_def allocated_val)
  have step: "seq_step (LRemove l x) (mm, vs) (RVal v) (mm(l \<mapsto> remove1 x ps), vs)"
    by (rule seq_step.remove) (rule held_lookup [OF assms(1,2)], rule v(2))
  show ?thesis
  proof (cases "x \<in> set ps")
    case True
    note l = held_some [OF assms(2) True]
    have "\<exists>st'. List_Remove st l (Some (Elem x)) = Inr (v, st') \<and> lists_ok st' (m(l \<mapsto> remove1 x ps)) \<and> val st' = val st"
      using List_Remove_correct [OF rep_ok [OF assms(1)] l assms(3) v(1)] True by auto
    then show ?thesis by (intro sim_rearranged [OF assms(1) l _ step]) auto
  next
    case False
    then obtain e where "load st (Some (Elem x)) = Inr e" "e_list e \<noteq> Some l"
      using held_foreign [OF assms] by blast
    moreover have "e_Value (the (ls_elem st (Elem x))) = v" by (rule val_load [OF v(1)])
    ultimately have "List_Remove st l (Some (Elem x)) = Inr (v, st)"
      using assms(3) by (simp add: List_Remove_def store_simps)
    moreover have "mm(l \<mapsto> remove1 x ps) = mm"
      using False held_lookup [OF assms(1,2)] by (simp add: remove1_idem fun_upd_idem)
    ultimately show ?thesis using step by (intro sim_unchanged [OF assms(1), where res = "RVal v"]) simp_all
  qed
qed

lemma sim_ends:
  assumes "rep_of st m (mm, vs)" "held_list st m l ps" "allocated st (Elem x)"
  shows "simulated z (LMoveToFront l x) st (mm, vs) \<and> simulated z (LMoveToBack l x) st (mm, vs)"
proof (cases "x \<in> set ps")
  case True
  note ok = rep_ok [OF assms(1)] and l = held_some [OF assms(2) True] and mm = held_lookup [OF assms(1,2)]
  show ?thesis
    using MoveToFront_ok [OF ok l True] MoveToBack_ok [OF ok l True]
      seq_step.to_front [where m = mm and vs = vs, OF mm True] seq_step.to_back [where m = mm and vs = vs, OF mm True]
    by (auto simp: with_done_def intro: sim_rearranged [OF assms(1) l])
next
  case False
  then obtain e where e: "load st (Some (Elem x)) = Inr e" "e_list e \<noteq> Some l"
    using held_foreign [OF assms] by blast
  obtain r where r: "load st (Some (Root l)) = Inr r" using held_root [OF assms(1,2)] by blast
  have "seq_step op (mm, vs) RDone (mm, vs)" if "op \<in> {LMoveToFront l x, LMoveToBack l x}" for op
    by (rule seq_step.move_none [where m = mm, OF held_lookup [OF assms(1,2)]]) (use that False in blast)
  with e r show ?thesis
    by (auto intro!: sim_unchanged [OF assms(1), where res = RDone]
      simp: with_done_def List_MoveToFront_def List_MoveToBack_def)
qed

lemma sim_beside:
  assumes "rep_of st m (mm, vs)" "held_list st m l ps" "allocated st (Elem x)" "allocated st (Elem y)"
  shows "simulated z (LMoveBefore l x y) st (mm, vs) \<and> simulated z (LMoveAfter l x y) st (mm, vs)"
proof (cases "x \<in> set ps \<and> y \<in> set ps \<and> x \<noteq> y")
  case True
  then have xy: "x \<in> set ps" "y \<in> set ps" "x \<noteq> y" by auto
  note ok = rep_ok [OF assms(1)] and l = held_some [OF assms(2) xy(1)] and mm = held_lookup [OF assms(1,2)]
  show ?thesis
    using MoveBefore_ok [OF ok l xy] MoveAfter_ok [OF ok l xy]
      seq_step.move_before [where m = mm and vs = vs, OF mm xy] seq_step.move_after [where m = mm and vs = vs, OF mm xy]
    by (auto simp: with_done_def intro: sim_rearranged [OF assms(1) l])
next
  case False
  obtain e where e: "load st (Some (Elem x)) = Inr e" "x \<in> set ps \<or> e_list e \<noteq> Some l"
    using held_foreign [OF assms(1-3)] load_allocated [OF assms(3)] by (cases "x \<in> set ps") auto
  obtain k where k: "load st (Some (Elem y)) = Inr k" "y \<in> set ps \<or> e_list k \<noteq> Some l"
    using held_foreign [OF assms(1,2,4)] load_allocated [OF assms(4)] by (cases "y \<in> set ps") auto
  have "seq_step op (mm, vs) RDone (mm, vs)" if "op \<in> {LMoveBefore l x y, LMoveAfter l x y}" for op
    by (rule seq_step.move_none [where m = mm, OF held_lookup [OF assms(1,2)]]) (use that False in blast)
  moreover have "List_MoveBefore st l (Some (Elem x)) (Some (Elem y)) = Inr st"
    "List_MoveAfter st l (Some (Elem x)) (Some (Elem y)) = Inr st"
    using e k False
    by (cases "e_list e = Some l"; cases "e_list k = Some l"; cases "x = y";
        simp add: List_MoveBefore_def List_MoveAfter_def)+
  ultimately show ?thesis
    by (intro conjI sim_unchanged [OF assms(1), where res = RDone]) (simp_all add: with_done_def)
qed

lemma rep_copies:
  assumes "rep_of st m (mm, vs)" "m l = Some ps" "lists_ok st' (m(l \<mapsto> rs))" "only_new st st' new"
  shows "rep_of st' (m(l \<mapsto> rs)) (mm(l \<mapsto> rs), \<lambda>p. val st' (Elem p))"
proof -
  have "Root k \<notin> Elem ` set new" for k by auto
  then have "allocated st' (Root k) \<longleftrightarrow> allocated st (Root k)" for k
    using assms(4) by (simp add: only_new_def allocated_val)
  from all_lists_upd [where st' = st' and st = st and m = m and l = l, OF this assms(2)] assms(1,3) show ?thesis by (simp add: rep_of_def)
qed

lemma sim_copies:
  assumes "rep_of st m (mm, vs)" "m l = Some ps" "mm k = Some qs"
    and op: "op = LPushBackList l k \<and> rs new = ps @ new \<or> op = LPushFrontList l k \<and> rs new = new @ ps"
    and run: "List_step z op st = Inr (RDone, st')" "lists_ok st' (m(l \<mapsto> rs new))" "vals st' new = vals st qs"
      "only_new st st' new"
  shows "simulated z op st (mm, vs)"
proof (rule simulatedI [OF run(1) _ rep_copies [OF assms(1,2) run(2,4)]])
  have vs: "vs p = val st (Elem p)" for p using assms(1) by (simp add: rep_of_def)
  have "distinct (rs new)" by (rule list_distinct [OF run(2), of l]) simp
  then have "distinct new" using op by auto
  moreover have "\<forall>n \<in> set new. vs n = None" using run(4) by (simp add: only_new_def vs)
  moreover have "map (\<lambda>p. val st' (Elem p)) new = map vs qs"
    using run(3) by (simp add: vals_def vs)
  moreover have "\<forall>e. e \<notin> set new \<longrightarrow> val st' (Elem e) = vs e" using run(4) by (auto simp: only_new_def vs)
  ultimately show "seq_step op (mm, vs) RDone (mm(l \<mapsto> rs new), \<lambda>p. val st' (Elem p))"
    by (rule seq_step.push_list [where m = mm, OF rep_lookup [OF assms(1,2)] assms(3)]) (rule op)
qed

lemma sim_push_list_init:
  assumes "rep_of st m (mm, vs)" "m l = Some ps" "held_list st m k qs"
  shows "simulated z (LPushBackList l k) st (mm, vs)" "simulated z (LPushFrontList l k) st (mm, vs)"
proof -
  note ok = rep_ok [OF assms(1)] and k = held_lookup [OF assms(1,3)]
  have P: "(\<exists>st1 new1. List_PushBackList st l k = Inr st1 \<and> lists_ok st1 (m(l \<mapsto> ps @ new1))
      \<and> vals st1 new1 = vals st qs \<and> only_new st st1 new1)
    \<and> (\<exists>st1 new1. List_PushFrontList st l k = Inr st1 \<and> lists_ok st1 (m(l \<mapsto> new1 @ ps))
      \<and> vals st1 new1 = vals st qs \<and> only_new st st1 new1)"
  proof (cases "m k")
    case None
    then have len: "qs = []" "ls_len st k = 0" using assms(3) lists_okD(5) [OF ok] by (auto simp: held_list_def)
    have upd: "m(l \<mapsto> ps) = m" using assms(2) by (simp add: fun_upd_idem)
    have "List_PushBackList st l k = Inr st" "List_PushFrontList st l k = Inr st"
      using lazyInit_ok [OF ok assms(2)] len(2)
      by (simp_all add: List_PushBackList_def List_PushFrontList_def List_Front_def List_Back_def List_Len_def
          loops_done)
    then show ?thesis using ok len(1) upd
      by (intro conjI exI [of _ st] exI [of _ "[]"]) (simp_all add: vals_def only_new_def)
  next
    case (Some qs')
    then have "m k = Some qs" using assms(3) by (simp add: held_list_def)
    from PushList_ok [OF ok assms(2) this] show ?thesis by blast
  qed
  obtain st1 new1 where "List_PushBackList st l k = Inr st1" "lists_ok st1 (m(l \<mapsto> ps @ new1))"
    "vals st1 new1 = vals st qs" "only_new st st1 new1" using P by blast
  then show "simulated z (LPushBackList l k) st (mm, vs)"
    by (intro sim_copies [OF assms(1,2) k, where rs = "\<lambda>new. ps @ new"]) (simp_all add: with_done_def)
  obtain st2 new2 where "List_PushFrontList st l k = Inr st2" "lists_ok st2 (m(l \<mapsto> new2 @ ps))"
    "vals st2 new2 = vals st qs" "only_new st st2 new2" using P by blast
  then show "simulated z (LPushFrontList l k) st (mm, vs)"
    by (intro sim_copies [OF assms(1,2) k, where rs = "\<lambda>new. new @ ps"]) (simp_all add: with_done_def)
qed

text \<open>What starts with \<open>lazyInit\<close> does on a zero list what it does on the list \<open>Init\<close> makes of it.\<close>

lemma sim_lazily:
  assumes rep: "rep_of st m (mm, vs)" and l: "allocated st (Root l)"
    and op: "op \<in> {LPushFront l v, LPushBack l v} \<or> op \<in> {LPushBackList l k, LPushFrontList l k} \<and> allocated st (Root k)"
  shows "simulated z op st (mm, vs)"
proof -
  have init: "simulated z op st1 (mm, vs)"
    if st1: "rep_of st1 m1 (mm, vs)" "m1 l = Some ps" "allocated st1 = allocated st" for st1 m1 ps
    using op sim_push_init [OF st1(1,2), of z v] sim_push_list_init [OF st1(1,2), of k _ z]
      held_exists [OF st1(1), of k] st1(3) by auto
  show ?thesis
  proof (cases "m l")
    case None
    obtain st1 where st1: "List_lazyInit st l = Inr st1" "rep_of st1 (m(l \<mapsto> [])) (mm, vs)"
      "allocated st1 = allocated st"
      using zero_init [OF rep None l] by blast
    have "List_lazyInit st1 l = Inr st1" by (rule lazyInit_ok [OF rep_ok [OF st1(2)]]) simp
    with op st1(1) have "List_step z op st = List_step z op st1"
      by (auto simp: List_PushFront_def List_PushBack_def List_PushBackList_def List_PushFrontList_def)
    with init [OF st1(2) _ st1(3)] show ?thesis by (simp add: simulated_def)
  qed (use init rep in blast)
qed

text \<open>All operations but \<open>Init\<close>, without retired elements.\<close>

lemma step_simulated:
  assumes rep: "rep_of st m (mm, vs)" and valid: "valid_op st {} op" and op: "\<And>l. op \<noteq> LInit l"
  shows "simulated z op st (mm, vs)"
proof -
  have alloc: "allocated st (Root l)" if "l \<in> op_lists op" for l using valid that by (simp add: valid_op_def)
  have l': "\<exists>ps. held_list st m l ps" if "l \<in> op_lists op" for l
    using held_exists [OF rep alloc [OF that]] .
  have x: "allocated st (Elem x)" if "x \<in> op_elems op" for x using valid that by (simp add: valid_op_def)
  show ?thesis
  proof (cases op)
    case LNew
    with sim_new [OF rep] show ?thesis by simp
  next
    case LZero
    with sim_zero [OF rep] show ?thesis by simp
  next
    case (LInit l)
    with op show ?thesis by blast
  next
    case (LPushFront l v)
    with alloc sim_lazily [OF rep, of l op] show ?thesis by auto
  next
    case (LPushBack l v)
    with alloc sim_lazily [OF rep, of l op] show ?thesis by auto
  next
    case (LPushBackList l k)
    with alloc sim_lazily [OF rep, of l op _ k] show ?thesis by auto
  next
    case (LPushFrontList l k)
    with alloc sim_lazily [OF rep, of l op _ k] show ?thesis by auto
  next
    case (LInsertBefore l v y)
    with l' [of l] x [of y] sim_insert [OF rep, of l _ y z v] show ?thesis by auto
  next
    case (LInsertAfter l v y)
    with l' [of l] x [of y] sim_insert [OF rep, of l _ y z v] show ?thesis by auto
  next
    case (LRemove l y)
    with l' [of l] x [of y] sim_remove [OF rep, of l _ y z] show ?thesis by auto
  next
    case (LMoveToFront l y)
    with l' [of l] x [of y] sim_ends [OF rep, of l _ y z] show ?thesis by auto
  next
    case (LMoveToBack l y)
    with l' [of l] x [of y] sim_ends [OF rep, of l _ y z] show ?thesis by auto
  next
    case (LMoveBefore l y k)
    with l' [of l] x [of y] x [of k] sim_beside [OF rep, of l _ y k z] show ?thesis by auto
  next
    case (LMoveAfter l y k)
    with l' [of l] x [of y] x [of k] sim_beside [OF rep, of l _ y k z] show ?thesis by auto
  qed
qed

section \<open>Retired elements\<close>

text \<open>The store represents the sequences once the retired elements are forgotten.\<close>

definition lists_rep :: "'a list_store \<Rightarrow> nat set \<Rightarrow> 'a seqs \<Rightarrow> bool" where
  "lists_rep st D a \<longleftrightarrow> (\<exists>m. rep_of (forget D st) m a) \<and> (\<forall>d \<in> D. allocated st (Elem d))"

lemma retired_below:
  assumes "lists_rep st D a"
  shows "\<forall>d \<in> D. d < ls_fresh st"
proof
  fix d assume d: "d \<in> D"
  obtain m where "lists_ok (forget D st) m" using assms by (auto simp: lists_rep_def rep_of_def)
  from lists_okD(4) [OF this, of d] assms d show "d < ls_fresh st"
    by (cases "ls_fresh st \<le> d") (auto simp: lists_rep_def)
qed

lemma step_commutes:
  assumes "ls_fresh st \<notin> D" "valid_op st D op"
    and "case op of LZero \<Rightarrow> False | LInit _ \<Rightarrow> False | LPushBackList _ _ \<Rightarrow> False | LPushFrontList _ _ \<Rightarrow> False | _ \<Rightarrow> True"
  shows "List_step z op (forget D st) = forgets2 D (List_step z op st)"
proof -
  have lazy: "ls_fresh st1 \<notin> D" if "List_lazyInit st l = Inr st1" for st1 l
    using assms(1) lazyInit_fresh [OF that] by simp
  show ?thesis
    using assms(2,3)
    by (cases op) (auto simp: valid_op_def with_elem_def with_done_def assms(1) lazy forgetting intro!: andThen_cong)
qed

lemma step_forget:
  assumes "\<forall>d \<in> D. d < ls_fresh st" "valid_op st D op" "List_step z op (forget D st) = Inr (res, st0)"
    and "\<And>l. op \<noteq> LInit l"
  shows "\<exists>st'. List_step z op st = Inr (res, st') \<and> st0 = forget D st'"
proof -
  note fresh = fresh_not_retired [OF assms(1)]
  have whole: "\<exists>st'. List_step z op st = Inr (res, st') \<and> st0 = forget D st'"
    if "List_step z op (forget D st) = forgets2 D (List_step z op st)"
    using that assms(3) by (cases "List_step z op st") (auto simp: apsnd_def map_prod_def split: prod.splits)
  note commutes = step_commutes [OF fresh assms(2), of z, THEN whole]
  show ?thesis
  proof (cases op)
    case LZero
    then show ?thesis
      using assms(3) by (auto simp: zero_List_def Let_def zero_forget forgetting)
  next
    case (LInit l)
    with assms(4) show ?thesis by blast
  next
    case (LPushBackList l k)
    with assms(3) PushBackList_forget [OF assms(1), of l k] show ?thesis
      by (auto simp: with_done_def andThen_eq_Inr)
  next
    case (LPushFrontList l k)
    with assms(3) PushFrontList_forget [OF assms(1), of l k] show ?thesis
      by (auto simp: with_done_def andThen_eq_Inr)
  qed (use commutes in auto)
qed

lemma seq_step_keeps: "seq_step op a res a' \<Longrightarrow> snd a d \<noteq> None \<Longrightarrow> snd a' d \<noteq> None"
proof (induction rule: seq_step.induct)
  case (push_list m l ps k qs new vs vs' op rs)
  then show ?case by (cases "d \<in> set new") auto
qed auto

lemma step_with_retired:
  assumes rep: "lists_rep st D a" and valid: "valid_op st D op" and op: "\<And>l. op \<noteq> LInit l"
  shows "\<exists>res st' a'. List_step z op st = Inr (res, st') \<and> seq_step op a res a' \<and> lists_rep st' D a'"
proof -
  obtain mm vs where a: "a = (mm, vs)" by (cases a)
  obtain m where m: "rep_of (forget D st) m (mm, vs)" using rep a by (auto simp: lists_rep_def)
  have "valid_op (forget D st) {} op" using valid by (simp add: valid_op_def)
  from step_simulated [OF m this op, of z] obtain res st0 m' a' where
    st0: "List_step z op (forget D st) = Inr (res, st0)" "seq_step op (mm, vs) res a'" "rep_of st0 m' a'"
    unfolding simulated_def by blast
  obtain st' where st': "List_step z op st = Inr (res, st')" "st0 = forget D st'"
    using step_forget [OF retired_below [OF rep] valid st0(1) op] by blast
  have "allocated st' (Elem d)" if "d \<in> D" for d
  proof -
    have "snd a d \<noteq> None" using rep that m a by (auto simp: lists_rep_def rep_of_def allocated_val)
    with seq_step_keeps [OF st0(2), of d] a st0(3) st'(2) show ?thesis by (auto simp: rep_of_def allocated_val)
  qed
  with st0(2,3) st' a show ?thesis unfolding lists_rep_def by blast
qed

lemma step_Init:
  assumes rep: "lists_rep st D (mm, vs)" and l: "allocated st (Root l)"
  shows "\<exists>st'. List_step z (LInit l) st = Inr (RDone, st') \<and> seq_step (LInit l) (mm, vs) RDone (mm(l \<mapsto> []), vs)
    \<and> lists_rep st' (retired (LInit l) st D) (mm(l \<mapsto> []), vs)"
proof -
  let ?D = "retired (LInit l) st D"
  obtain m where m: "rep_of (forget D st) m (mm, vs)" using rep by (auto simp: lists_rep_def)
  note ok = rep_ok [OF m]
  obtain ps where "mm l = Some ps" using held_exists [OF m, of l] held_lookup [OF m] l by auto
  then have spec: "seq_step (LInit l) (mm, vs) RDone (mm(l \<mapsto> []), vs)" by (rule seq_step.clear)
  define st' where "st' = (assign (assign st (Root l) (\<lambda>e. e\<lparr>e_next := Some (Root l)\<rparr>)) (Root l)
      (\<lambda>e. e\<lparr>e_prev := Some (Root l)\<rparr>))\<lparr>ls_len := (ls_len st)(l := 0)\<rparr>"
  have run: "List_Init st l = Inr st'" using l by (simp add: List_Init_def st'_def store_simps)
  have views: "nx st' = (nx st)(Root l := Some (Root l))" "pv st' = (pv st)(Root l := Some (Root l))"
    "owner st' = owner st" "val st' = val st" "allocated st' = allocated st"
    "ls_len st' = (ls_len st)(l := 0)" "ls_fresh st' = ls_fresh st"
    using l unfolding st'_def by (simp_all add: store_simps)
  have "circle (nx st') (pv st') (nodes_of k qs)" if "m k = Some qs" "k \<noteq> l" for k qs
    by (rule circle_frame [OF lists_okD(1) [OF ok that(1), unfolded forget_views]])
      (use that(2) in \<open>auto simp: views nodes_of_def\<close>)
  moreover have "circle (nx st') (pv st') (nodes_of l [])" by (simp add: nodes_of_def circle_Cons views)
  moreover have "owner (forget ?D st') (Elem p) = Some k \<longleftrightarrow> (\<exists>qs. (m(l \<mapsto> [])) k = Some qs \<and> p \<in> set qs)" for p k
    using lists_okD(3) [OF ok, of p k] lists_okD(3) [OF ok, of p l] by (auto simp: views split: if_splits)
  ultimately have "lists_ok (forget ?D st') (m(l \<mapsto> []))"
    using lists_okD(2,4-6) [OF ok] by (auto simp: lists_ok_def views)
  moreover have "all_lists (forget ?D st') (m(l \<mapsto> [])) = (all_lists (forget D st) m)(l \<mapsto> [])"
    by (auto simp: all_lists_def fun_eq_iff views)
  ultimately have "rep_of (forget ?D st') (m(l \<mapsto> [])) (mm(l \<mapsto> []), vs)" using m by (simp add: rep_of_def views)
  moreover have "allocated st' (Elem d)" if "d \<in> ?D" for d
    using that rep by (auto simp: lists_rep_def views owner_def allocated_def split: option.splits)
  ultimately have "lists_rep st' ?D (mm(l \<mapsto> []), vs)" unfolding lists_rep_def by blast
  with run spec show ?thesis by (simp add: with_done_def)
qed

lemma retired_other: "(\<And>l. op \<noteq> LInit l) \<Longrightarrow> retired op st D = D"
  by (cases op) auto

lemma step_refines:
  assumes rep: "lists_rep st D a" and valid: "valid_op st D op"
  shows "\<exists>res st' a'. List_step z op st = Inr (res, st') \<and> seq_step op a res a' \<and> lists_rep st' (retired op st D) a'"
proof (cases "\<exists>l. op = LInit l")
  case True
  then obtain l where "op = LInit l" by blast
  moreover from this have "allocated st (Root l)" using valid by (simp add: valid_op_def)
  ultimately show ?thesis using step_Init [of st D "fst a" "snd a" l z] rep by (auto simp del: retired.simps)
next
  case False
  then show ?thesis using step_with_retired [OF rep valid, of z] retired_other [of op st D] by auto
qed

lemma rep_empty: "lists_rep empty_store {} (\<lambda>_. None, \<lambda>_. None)"
proof -
  have "all_lists (empty_store :: 'a list_store) (\<lambda>_. None) = (\<lambda>_. None)"
    by (simp add: all_lists_def empty_store_def allocated_def fun_eq_iff)
  then have "rep_of (forget {} (empty_store :: 'a list_store)) (\<lambda>_. None) (\<lambda>_. None, \<lambda>_. None)"
    using empty_store_ok by (simp add: rep_of_def) (simp add: empty_store_def val_def)
  then show ?thesis unfolding lists_rep_def by blast
qed

lemma trace_simulated:
  assumes "List_trace z tr st D"
  shows "\<exists>a. seq_trace tr a \<and> lists_rep st D a"
  using assms
proof induction
  case start
  show ?case using seq_trace.start rep_empty by blast
next
  case (call tr st D op res st')
  then obtain a where a: "seq_trace tr a" "lists_rep st D a" by blast
  from step_refines [OF a(2) call.hyps(2), of z] call.hyps(3)
  obtain a' where "seq_step op a res a'" "lists_rep st' (retired op st D) a'" by auto
  with seq_trace.call [OF a(1)] show ?case by blast
qed

text \<open>
  What retirement is for: a list with one element is cleared, and the element removed from it.  The
  length of the list is then -1.
\<close>

lemma Init_Remove_breaks:
  "andThen (NewList (0 :: nat) empty_store) (\<lambda>(l, st).
   andThen (List_PushBack st l 7) (\<lambda>(e, st).
   andThen (List_Init st l) (\<lambda>st.
   andThen (List_Remove st l e) (\<lambda>(v, st). Inr (v, List_Len st l))))) = Inr (7, -1)"
  by (simp add: NewList_def List_Init_def empty_store_def set_next_def set_prev_def set_list_def load_def put_def
      List_PushBack_def List_lazyInit_def List_insertValue_def List_insert_def List_Remove_def List_remove_def
      List_Len_def add_len_def Let_def)

text \<open>
  C18: The lists refine sequences: whatever sequence of \<open>NewList\<close>, zero values, \<open>Init\<close>, \<open>PushFront\<close>,
  \<open>PushBack\<close>, \<open>InsertBefore\<close>, \<open>InsertAfter\<close>, \<open>Remove\<close>, the four moves, \<open>PushBackList\<close> and
  \<open>PushFrontList\<close> a program calls from an empty store, on lists and elements it holds (in any list, or
  removed from one), the results are those of the sequence operations, and the store represents
  the sequences.  The one thing a program may not do is go on using an element of a list after
  clearing that list with \<open>Init\<close>: such elements are retired (the set \<open>D\<close>).
\<close>

theorem List_refines_sequences:
  assumes "List_trace z tr st D"
  shows "\<exists>a. seq_trace tr a \<and> lists_rep st D a"
  using trace_simulated [OF assms] by blast

text \<open>
  C19: Every store that such calls lead to is well formed, and every further such call on allocated
  lists and elements, retired ones excepted, returns: there is no nil dereference, and the store
  stays well formed.  Well formed is meant up to the \<open>list\<close> fields of the retired elements.
\<close>

theorem List_stores_well_formed:
  assumes "List_trace z tr st D" "valid_op st D op"
  shows "(\<exists>m. lists_ok (forget D st) m \<and> (\<forall>l. m l \<noteq> None \<longrightarrow> allocated st (Root l)))
    \<and> (\<exists>res st' m'. List_step z op st = Inr (res, st') \<and> lists_ok (forget (retired op st D) st') m')"
proof -
  obtain a where a: "lists_rep st D a" using trace_simulated [OF assms(1)] by blast
  then obtain m where m: "lists_ok (forget D st) m" by (auto simp: lists_rep_def rep_of_def)
  have "allocated st (Root l)" if "m l \<noteq> None" for l
    using that list_allocated [OF m, of l _ "Root l"] by (auto simp: set_nodes_of)
  with m step_refines [OF a assms(2), of z] show ?thesis by (fastforce simp: lists_rep_def rep_of_def)
qed

section \<open>Witnesses\<close>

text \<open>\<open>sample_store\<close> is reached by making a list and appending to it.\<close>

lemma sample_trace:
  "\<exists>r0 r1 r2. List_trace 0 [(LNew, r0), (LPushBack 0 7, r1), (LPushBack 0 8, r2)] sample_store {}"
proof -
  have "ls_fresh (empty_store :: nat list_store) = 0" by (simp add: empty_store_def)
  then obtain st1 where 1: "NewList (0 :: nat) empty_store = Inr (0, st1)" "lists_ok st1 [0 \<mapsto> []]"
    using NewList_ok [OF empty_store_ok, of "0 :: nat"] by auto
  obtain e2 st2 where 2: "List_PushBack st1 0 7 = Inr (e2, st2)" "lists_ok st2 [0 \<mapsto> [ls_fresh st1]]"
    using PushBack_ok [OF 1(2), of 0 "[]" 7] by auto
  obtain e3 where 3: "List_PushBack st2 0 8 = Inr (e3, sample_store)"
    using sample_store_built 1(1) 2(1) by (auto simp: andThen_eq_Inr)
  have a: "allocated st1 (Root 0)" by (rule list_allocated [OF 1(2), of 0]) (simp_all add: set_nodes_of)
  have b: "allocated st2 (Root 0)" by (rule list_allocated [OF 2(2), of 0]) (simp_all add: set_nodes_of)
  have "List_trace 0 ([] @ [(LNew, RList 0)]) st1 (retired LNew (empty_store :: nat list_store) {})"
    by (rule List_trace.call [OF List_trace.start]) (simp_all add: valid_op_def 1)
  then have t1: "List_trace 0 [(LNew, RList 0)] st1 {}" by simp
  have "List_trace 0 ([(LNew, RList 0)] @ [(LPushBack 0 7, RElem e2)]) st2 (retired (LPushBack 0 7) st1 {})"
    by (rule List_trace.call [OF t1]) (use a in \<open>auto simp: valid_op_def 2 with_elem_def\<close>)
  then have t2: "List_trace 0 [(LNew, RList 0), (LPushBack 0 7, RElem e2)] st2 {}" by simp
  have "List_trace 0 ([(LNew, RList 0), (LPushBack 0 7, RElem e2)] @ [(LPushBack 0 8, RElem e3)]) sample_store
      (retired (LPushBack 0 8) st2 {})"
    by (rule List_trace.call [OF t2]) (use b in \<open>auto simp: valid_op_def 3 with_elem_def\<close>)
  then show ?thesis by auto
qed

lemma List_refines_sequences_witness:
  "\<exists>r0 r1 r2 a. seq_trace [(LNew, r0), (LPushBack 0 7, r1), (LPushBack 0 8, r2)] a \<and> lists_rep sample_store {} a"
  using sample_trace List_refines_sequences [where z = "0 :: nat"] by metis

lemma List_stores_well_formed_witness:
  "\<exists>res st' m'. List_step 0 (LInit 0) sample_store = Inr (res, st') \<and> lists_ok (forget {1, 2} st') m'"
proof -
  have "valid_op sample_store {} (LInit 0)"
    by (simp add: valid_op_def sample_store_def allocated_def)
  moreover have "retired (LInit 0) sample_store {} = {1, 2}"
    by (auto simp: sample_store_def owner_def split: if_splits)
  ultimately show ?thesis
    using sample_trace List_stores_well_formed [where z = "0 :: nat"] by metis
qed

end
