(* ===== verification/CircularRing.thy ===== *)
theory CircularRing
  imports Links Errs
begin

text \<open>
  \<open>ring.go\<close>: \<open>Ring[T]\<close>, a circular doubly linked list without a sentinel; a pointer to any node
  stands for the whole ring.  The model has an explicit store of nodes, a pointer is an optional
  address (\<open>None\<close> is nil, the empty ring).  A zero node counts as a ring of one element: the
  operations initialise it on first use.
\<close>

section \<open>The store\<close>

record 'a Ring =
  r_next :: "nat option"
  r_prev :: "nat option"
  r_Value :: 'a

record 'a ring_store =
  rs_node :: "nat \<Rightarrow> 'a Ring option"
  rs_fresh :: nat

definition rload :: "'a ring_store \<Rightarrow> nat option \<Rightarrow> go_panic + 'a Ring" where
  "rload st p =
     (case p of None \<Rightarrow> Inl NilDeref
      | Some a \<Rightarrow> (case rs_node st a of None \<Rightarrow> Inl NilDeref | Some x \<Rightarrow> Inr x))"

definition rput :: "'a ring_store \<Rightarrow> nat \<Rightarrow> 'a Ring \<Rightarrow> 'a ring_store" where
  "rput st a x = st\<lparr>rs_node := (rs_node st)(a := Some x)\<rparr>"

definition rset_next :: "'a ring_store \<Rightarrow> nat option \<Rightarrow> nat option \<Rightarrow> go_panic + 'a ring_store" where
  "rset_next st p v = andThen (rload st p) (\<lambda>x. Inr (rput st (the p) (x\<lparr>r_next := v\<rparr>)))"

definition rset_prev :: "'a ring_store \<Rightarrow> nat option \<Rightarrow> nat option \<Rightarrow> go_panic + 'a ring_store" where
  "rset_prev st p v = andThen (rload st p) (\<lambda>x. Inr (rput st (the p) (x\<lparr>r_prev := v\<rparr>)))"

text \<open>\<open>&Ring[T]{...}\<close>\<close>

definition ralloc :: "'a ring_store \<Rightarrow> 'a Ring \<Rightarrow> nat option \<times> 'a ring_store" where
  "ralloc st x = (Some (rs_fresh st), (rput st (rs_fresh st) x)\<lparr>rs_fresh := rs_fresh st + 1\<rparr>)"

section \<open>The operations\<close>

definition Ring_init :: "'a ring_store \<Rightarrow> nat option \<Rightarrow> go_panic + (nat option \<times> 'a ring_store)" where
  "Ring_init st r =
     andThen (rset_next st r r) (\<lambda>st1.
     andThen (rset_prev st1 r r) (\<lambda>st2. Inr (r, st2)))"

definition Ring_Next :: "'a ring_store \<Rightarrow> nat option \<Rightarrow> go_panic + (nat option \<times> 'a ring_store)" where
  "Ring_Next st r =
     andThen (rload st r) (\<lambda>x.
       if r_next x = None then Ring_init st r else Inr (r_next x, st))"

definition Ring_Prev :: "'a ring_store \<Rightarrow> nat option \<Rightarrow> go_panic + (nat option \<times> 'a ring_store)" where
  "Ring_Prev st r =
     andThen (rload st r) (\<lambda>x.
       if r_next x = None then Ring_init st r else Inr (r_prev x, st))"

text \<open>The two loops of \<open>Move\<close>: \<open>for ; n < 0; n++\<close> and \<open>for ; n > 0; n--\<close>.\<close>

function Ring_Move_back :: "'a ring_store \<Rightarrow> nat option \<Rightarrow> int \<Rightarrow> go_panic + nat option" where
  "Ring_Move_back st r n =
     (if n < 0 then andThen (rload st r) (\<lambda>x. Ring_Move_back st (r_prev x) (n + 1)) else Inr r)"
  by pat_completeness auto
termination
  by (relation "measure (\<lambda>(st, r, n). nat (- n))") auto

function Ring_Move_forward :: "'a ring_store \<Rightarrow> nat option \<Rightarrow> int \<Rightarrow> go_panic + nat option" where
  "Ring_Move_forward st r n =
     (if n > 0 then andThen (rload st r) (\<lambda>x. Ring_Move_forward st (r_next x) (n - 1)) else Inr r)"
  by pat_completeness auto
termination
  by (relation "measure (\<lambda>(st, r, n). nat n)") auto

declare Ring_Move_back.simps [simp del] Ring_Move_forward.simps [simp del]

definition Ring_Move ::
  "'a ring_store \<Rightarrow> nat option \<Rightarrow> int \<Rightarrow> go_panic + (nat option \<times> 'a ring_store)" where
  "Ring_Move st r n =
     andThen (rload st r) (\<lambda>x.
       if r_next x = None then Ring_init st r
       else if n < 0 then andThen (Ring_Move_back st r n) (\<lambda>r'. Inr (r', st))
       else if n > 0 then andThen (Ring_Move_forward st r n) (\<lambda>r'. Inr (r', st))
       else Inr (r, st))"

text \<open>\<open>for i := 1; i < n; i++\<close> of \<open>NewRing\<close>; \<open>z\<close> is the zero value of the item type.\<close>

function NewRing_loop ::
  "'a \<Rightarrow> int \<Rightarrow> int \<Rightarrow> nat option \<Rightarrow> 'a ring_store \<Rightarrow> go_panic + (nat option \<times> 'a ring_store)" where
  "NewRing_loop z n i p st =
     (if i < n then
        let (q, st1) = ralloc st \<lparr>r_next = None, r_prev = p, r_Value = z\<rparr>
        in andThen (rset_next st1 p q) (\<lambda>st2. NewRing_loop z n (i + 1) q st2)
      else Inr (p, st))"
  by pat_completeness auto
termination
  by (relation "measure (\<lambda>(z, n, i, p, st). nat (n - i))") auto

declare NewRing_loop.simps [simp del]

definition NewRing :: "'a \<Rightarrow> 'a ring_store \<Rightarrow> int \<Rightarrow> go_panic + (nat option \<times> 'a ring_store)" where
  "NewRing z st n =
     (if n \<le> 0 then Inr (None, st)
      else
        let (r, st1) = ralloc st \<lparr>r_next = None, r_prev = None, r_Value = z\<rparr>
        in andThen (NewRing_loop z n 1 r st1) (\<lambda>(p, st2).
           andThen (rset_next st2 p r) (\<lambda>st3.
           andThen (rset_prev st3 r p) (\<lambda>st4. Inr (r, st4)))))"

definition Ring_Link ::
  "'a ring_store \<Rightarrow> nat option \<Rightarrow> nat option \<Rightarrow> go_panic + (nat option \<times> 'a ring_store)" where
  "Ring_Link st r s =
     andThen (Ring_Next st r) (\<lambda>(n, st1).
       if s \<noteq> None then
         andThen (Ring_Prev st1 s) (\<lambda>(p, st2).
         andThen (rset_next st2 r s) (\<lambda>st3.
         andThen (rset_prev st3 s r) (\<lambda>st4.
         andThen (rset_prev st4 n p) (\<lambda>st5.
         andThen (rset_next st5 p n) (\<lambda>st6. Inr (n, st6))))))
       else Inr (n, st1))"

definition Ring_Unlink ::
  "'a ring_store \<Rightarrow> nat option \<Rightarrow> int \<Rightarrow> go_panic + (nat option \<times> 'a ring_store)" where
  "Ring_Unlink st r n =
     (if n \<le> 0 then Inr (None, st)
      else andThen (Ring_Move st r (wrap64 (n + 1))) (\<lambda>(s, st1). Ring_Link st1 r s))"

text \<open>
  \<open>for p := r.Next(); p != r; p = p.next\<close>, in \<open>Len\<close> and \<open>Do\<close>, ends only where following \<open>next\<close>
  leads back to \<open>r\<close>: the loops are partial functions, \<open>None\<close> standing for a run that never ends.
  \<open>f\<close> is the callback, acting on a state \<open>s\<close> of the client.
\<close>

partial_function (option) Ring_Len_loop ::
  "'a ring_store \<Rightarrow> nat option \<Rightarrow> nat option \<Rightarrow> int \<Rightarrow> (go_panic + int) option" where
  "Ring_Len_loop st r p n =
     (if p \<noteq> r then
        (case rload st p of Inl e \<Rightarrow> Some (Inl e) | Inr x \<Rightarrow> Ring_Len_loop st r (r_next x) (n + 1))
      else Some (Inr n))"

definition Ring_Len :: "'a ring_store \<Rightarrow> nat option \<Rightarrow> (go_panic + (int \<times> 'a ring_store)) option" where
  "Ring_Len st r =
     (if r \<noteq> None then
        (case Ring_Next st r of Inl e \<Rightarrow> Some (Inl e)
         | Inr (p, st1) \<Rightarrow>
             map_option (\<lambda>x. andThen x (\<lambda>n. Inr (n, st1))) (Ring_Len_loop st1 r p 1))
      else Some (Inr (0, st)))"

partial_function (option) Ring_Do_loop ::
  "'a ring_store \<Rightarrow> ('a \<Rightarrow> 's \<Rightarrow> 's) \<Rightarrow> nat option \<Rightarrow> nat option \<Rightarrow> 's \<Rightarrow> (go_panic + 's) option" where
  "Ring_Do_loop st f r p s =
     (if p \<noteq> r then
        (case rload st p of Inl e \<Rightarrow> Some (Inl e)
         | Inr x \<Rightarrow> Ring_Do_loop st f r (r_next x) (f (r_Value x) s))
      else Some (Inr s))"

definition Ring_Do ::
  "'a ring_store \<Rightarrow> ('a \<Rightarrow> 's \<Rightarrow> 's) \<Rightarrow> nat option \<Rightarrow> 's \<Rightarrow> (go_panic + ('s \<times> 'a ring_store)) option" where
  "Ring_Do st f r s =
     (if r \<noteq> None then
        (case rload st r of Inl e \<Rightarrow> Some (Inl e)
         | Inr x \<Rightarrow>
             let s1 = f (r_Value x) s
             in (case Ring_Next st r of Inl e \<Rightarrow> Some (Inl e)
                 | Inr (p, st1) \<Rightarrow>
                     map_option (\<lambda>y. andThen y (\<lambda>s2. Inr (s2, st1))) (Ring_Do_loop st1 f r p s1)))
      else Some (Inr (s, st)))"

section \<open>Views of the store\<close>

definition rn :: "'a ring_store \<Rightarrow> nat \<Rightarrow> nat option" where
  "rn st a = (case rs_node st a of None \<Rightarrow> None | Some x \<Rightarrow> r_next x)"

definition rp :: "'a ring_store \<Rightarrow> nat \<Rightarrow> nat option" where
  "rp st a = (case rs_node st a of None \<Rightarrow> None | Some x \<Rightarrow> r_prev x)"

definition rval :: "'a ring_store \<Rightarrow> nat \<Rightarrow> 'a option" where
  "rval st a = map_option r_Value (rs_node st a)"

definition rassign :: "'a ring_store \<Rightarrow> nat \<Rightarrow> ('a Ring \<Rightarrow> 'a Ring) \<Rightarrow> 'a ring_store" where
  "rassign st a f = rput st a (f (the (rs_node st a)))"

named_theorems ring_simps \<open>loads and stores of allocated ring nodes\<close>

lemma rload_alloc [ring_simps]: "rval st a \<noteq> None \<Longrightarrow> rload st (Some a) = Inr (the (rs_node st a))"
  by (auto simp: rload_def rval_def)

lemma rset_alloc [ring_simps]:
  "rval st a \<noteq> None \<Longrightarrow> rset_next st (Some a) v = Inr (rassign st a (\<lambda>e. e\<lparr>r_next := v\<rparr>))"
  "rval st a \<noteq> None \<Longrightarrow> rset_prev st (Some a) v = Inr (rassign st a (\<lambda>e. e\<lparr>r_prev := v\<rparr>))"
  by (simp_all add: rset_next_def rset_prev_def rload_alloc rassign_def)

lemma rfields [ring_simps]:
  "rval st a \<noteq> None \<Longrightarrow> r_next (the (rs_node st a)) = rn st a"
  "rval st a \<noteq> None \<Longrightarrow> r_prev (the (rs_node st a)) = rp st a"
  "rval st a \<noteq> None \<Longrightarrow> Some (r_Value (the (rs_node st a))) = rval st a"
  by (auto simp: rn_def rp_def rval_def)

lemma rassign_views [ring_simps]:
  assumes "rval st a \<noteq> None"
  shows "rn (rassign st a (\<lambda>e. e\<lparr>r_next := v\<rparr>)) = (rn st)(a := v)"
    "rp (rassign st a (\<lambda>e. e\<lparr>r_next := v\<rparr>)) = rp st"
    "rval (rassign st a (\<lambda>e. e\<lparr>r_next := v\<rparr>)) = rval st"
    "rn (rassign st a (\<lambda>e. e\<lparr>r_prev := v\<rparr>)) = rn st"
    "rp (rassign st a (\<lambda>e. e\<lparr>r_prev := v\<rparr>)) = (rp st)(a := v)"
    "rval (rassign st a (\<lambda>e. e\<lparr>r_prev := v\<rparr>)) = rval st"
  using assms by (auto simp: fun_eq_iff rassign_def rput_def rn_def rp_def rval_def)

lemma rassign_fresh [ring_simps]: "rs_fresh (rassign st a f) = rs_fresh st"
  by (simp add: rassign_def rput_def)

lemma pointed_rval: "rn st a = Some b \<Longrightarrow> rval st a \<noteq> None" "rp st a = Some b \<Longrightarrow> rval st a \<noteq> None"
  by (auto simp: rn_def rp_def rval_def split: option.splits)

text \<open>A ring is a circle, or one zero node.\<close>

definition is_ring :: "'a ring_store \<Rightarrow> nat list \<Rightarrow> bool" where
  "is_ring st cs \<longleftrightarrow>
     circle (rn st) (rp st) cs \<or> (\<exists>r. cs = [r] \<and> rval st r \<noteq> None \<and> rn st r = None)"

text \<open>Everything outside the nodes \<open>A\<close> is as before, and so are all values.\<close>

definition keeps :: "nat set \<Rightarrow> 'a ring_store \<Rightarrow> 'a ring_store \<Rightarrow> bool" where
  "keeps A st st' \<longleftrightarrow> rval st' = rval st \<and> rs_fresh st' = rs_fresh st
     \<and> (\<forall>a. a \<notin> A \<longrightarrow> rn st' a = rn st a \<and> rp st' a = rp st a)"

lemma keeps_refl: "keeps A st st"
  by (simp add: keeps_def)

lemma keeps_trans: "keeps A st st1 \<Longrightarrow> keeps B st1 st2 \<Longrightarrow> keeps (A \<union> B) st st2"
  by (simp add: keeps_def)

lemma keeps_ring:
  assumes "keeps A st st'" "is_ring st cs" "A \<inter> set cs = {}"
  shows "is_ring st' cs"
proof -
  have "rval st' = rval st" "\<And>a. a \<in> set cs \<Longrightarrow> rn st' a = rn st a \<and> rp st' a = rp st a"
    using assms(1,3) by (auto simp: keeps_def)
  with assms(2) show ?thesis
    unfolding is_ring_def using circle_frame [of "rn st" "rp st" cs] by fastforce
qed

lemma ring_members: "is_ring st cs \<Longrightarrow> a \<in> set cs \<Longrightarrow> rval st a \<noteq> None"
proof (cases "circle (rn st) (rp st) cs")
  case True
  assume "a \<in> set cs"
  then obtain xs ys where cs: "cs = xs @ a # ys" by (auto simp: in_set_conv_decomp)
  with circle_from [of _ _ xs a ys] True have "circle (rn st) (rp st) (a # [] @ ys @ xs)" by simp
  from circle_gap(1) [OF this] show ?thesis using pointed_rval(1) by fastforce
qed (auto simp: is_ring_def)

section \<open>Walking\<close>

lemma circle_next: "circle nx pv cs \<Longrightarrow> nx (hd cs) = Some (hd (rotate1 cs))"
  by (cases cs) (use circle_gap(1) [of nx pv _ "[]"] in \<open>auto simp: circle_def\<close>)

lemma circle_prev: "circle nx pv cs \<Longrightarrow> pv (hd (rotate1 cs)) = Some (hd cs)"
  by (cases cs) (use circle_gap(2) [of nx pv _ "[]"] in \<open>auto simp: circle_def\<close>)

lemma circle_alloc: "circle (rn st) (rp st) cs \<Longrightarrow> rval st (hd cs) \<noteq> None"
  using ring_members [of st cs "hd cs"] by (auto simp: is_ring_def circle_def)

lemma Move_forward_ok:
  "circle (rn st) (rp st) cs \<Longrightarrow> Ring_Move_forward st (Some (hd cs)) (int k) = Inr (Some (hd (rotate k cs)))"
proof (induction k arbitrary: cs)
  case 0
  then show ?case by (simp add: Ring_Move_forward.simps)
next
  case (Suc k)
  have "Ring_Move_forward st (Some (hd (rotate1 cs))) (int k) = Inr (Some (hd (rotate k (rotate1 cs))))"
    by (rule Suc.IH [OF circle_rotate1 [OF Suc.prems]])
  then show ?case
    using circle_alloc [OF Suc.prems] circle_next [OF Suc.prems]
    by (subst Ring_Move_forward.simps) (simp add: ring_simps rotate1_rotate_swap)
qed

lemma Move_back_ok:
  "circle (rn st) (rp st) cs \<Longrightarrow> Ring_Move_back st (Some (hd (rotate k cs))) (- int k) = Inr (Some (hd cs))"
proof (induction k)
  case 0
  then show ?case by (simp add: Ring_Move_back.simps)
next
  case (Suc k)
  have c: "circle (rn st) (rp st) (rotate k cs)" by (rule circle_rotate [OF Suc.prems])
  have "rp st (hd (rotate1 (rotate k cs))) = Some (hd (rotate k cs))" by (rule circle_prev [OF c])
  with circle_alloc [OF circle_rotate1 [OF c]] Suc.IH [OF Suc.prems] show ?case
    by (subst Ring_Move_back.simps) (simp add: ring_simps)
qed

lemma Move_circle:
  assumes c: "circle (rn st) (rp st) (r # xs)"
  shows "Ring_Move st (Some r) n = Inr (Some ((r # xs) ! nat (n mod int (length (r # xs)))), st)"
proof -
  let ?cs = "r # xs" and ?L = "int (length (r # xs))"
  have nth: "hd (rotate k ?cs) = ?cs ! nat (int k mod ?L)" for k
    by (simp add: hd_rotate_conv_nth zmod_int [symmetric] del: of_nat_Suc)
  have start: "Ring_Move st (Some r) n =
      (if n < 0 then andThen (Ring_Move_back st (Some r) n) (\<lambda>r'. Inr (r', st))
       else if n > 0 then andThen (Ring_Move_forward st (Some r) n) (\<lambda>r'. Inr (r', st)) else Inr (Some r, st))"
    using circle_alloc [OF c] circle_next [OF c] by (simp add: Ring_Move_def ring_simps)
  show ?thesis
  proof (cases "n < 0")
    case True
    define j where "j = nat (n mod ?L)"
    define k where "k = nat (- n)"
    have "(int k + int j) mod ?L = 0"
      using True by (simp add: j_def k_def mod_simps del: length_Cons)
    then have "(k + j) mod length ?cs = 0" by (metis of_nat_0_eq_iff of_nat_add zmod_int)
    then have full: "rotate k (rotate j ?cs) = ?cs" by (metis rotate_rotate rotate_conv_mod rotate0 id_apply)
    have "Ring_Move_back st (Some r) n = Inr (Some (hd (rotate j ?cs)))"
      using Move_back_ok [OF circle_rotate [OF c, of j], of k] True unfolding full by (simp add: k_def)
    moreover have "hd (rotate j ?cs) = ?cs ! j" unfolding nth by (simp add: j_def)
    ultimately show ?thesis using True by (simp add: start j_def)
  next
    case False
    then show ?thesis
      using Move_forward_ok [OF c, of "nat n"] nth [of "nat n"] by (simp add: start)
  qed
qed

lemma init_zero:
  assumes "rval st r \<noteq> None"
  shows "\<exists>st'. Ring_init st (Some r) = Inr (Some r, st') \<and> circle (rn st') (rp st') [r] \<and> keeps {r} st st'"
  using assms by (simp add: Ring_init_def ring_simps circle_Cons keeps_def)

text \<open>\<open>Next\<close>, \<open>Prev\<close> and \<open>Move\<close> settle a zero node and leave any other ring alone.\<close>

lemma Ring_walks_aux:
  assumes "is_ring st (r # xs)"
  shows "\<exists>st'. Ring_Next st (Some r) = Inr (Some (hd (xs @ [r])), st')
    \<and> Ring_Prev st (Some r) = Inr (Some (last (r # xs)), st')
    \<and> (\<forall>n. Ring_Move st (Some r) n = Inr (Some ((r # xs) ! nat (n mod int (length (r # xs)))), st'))
    \<and> circle (rn st') (rp st') (r # xs) \<and> keeps {r} st st'"
proof (cases "circle (rn st) (rp st) (r # xs)")
  case True
  have "rn st r = Some (hd (xs @ [r]))" "rp st r = Some (last (r # xs))"
    using circle_gap [of "rn st" "rp st" r "[]" xs] circle_gap [of "rn st" "rp st" r xs "[]"] True by simp_all
  moreover have "rval st r \<noteq> None" using circle_alloc [OF True] by simp
  ultimately show ?thesis
    using True Move_circle [OF True] by (auto simp: Ring_Next_def Ring_Prev_def ring_simps keeps_refl)
next
  case False
  then have z: "xs = []" "rval st r \<noteq> None" "rn st r = None" using assms by (auto simp: is_ring_def)
  from init_zero [OF z(2)] z show ?thesis
    by (auto simp: Ring_Next_def Ring_Prev_def Ring_Move_def ring_simps)
qed


text \<open>
  C21: \<open>Next\<close>, \<open>Prev\<close> and \<open>Move\<close> on a ring whose nodes, from \<open>r\<close> on, are \<open>r # xs\<close>: the node
  after \<open>r\<close>, the one before it, and the node \<open>n mod Len\<close> places ahead for every integer \<open>n\<close>,
  backward for a negative one.  A zero node is a ring of one element, initialised on the way; no
  other node and no value changes.
\<close>


theorem Ring_walks:
  assumes "is_ring st (r # xs)"
  shows "\<exists>st'. Ring_Next st (Some r) = Inr (Some (hd (xs @ [r])), st')
    \<and> Ring_Prev st (Some r) = Inr (Some (last (r # xs)), st')
    \<and> (\<forall>n. Ring_Move st (Some r) n = Inr (Some ((r # xs) ! nat (n mod int (length (r # xs)))), st'))
    \<and> circle (rn st') (rp st') (r # xs) \<and> keeps {r} st st'"
  by (rule Ring_walks_aux [OF assms])

lemma Ring_Next_ok:
  assumes "is_ring st (r # xs)"
  obtains st' where "Ring_Next st (Some r) = Inr (Some (hd (xs @ [r])), st')"
    "circle (rn st') (rp st') (r # xs)" "keeps {r} st st'"
  using Ring_walks_aux [OF assms] by blast

lemma Ring_Prev_ok:
  assumes "is_ring st (r # xs)"
  obtains st' where "Ring_Prev st (Some r) = Inr (Some (last (r # xs)), st')"
    "circle (rn st') (rp st') (r # xs)" "keeps {r} st st'"
  using Ring_walks_aux [OF assms] by blast

lemma Ring_Move_ok:
  assumes "is_ring st (r # xs)"
  obtains st' where "Ring_Move st (Some r) n = Inr (Some ((r # xs) ! nat (n mod int (length (r # xs)))), st')"
    "circle (rn st') (rp st') (r # xs)" "keeps {r} st st'"
  using Ring_walks_aux [OF assms] by blast

text \<open>The loops of \<open>Len\<close> and \<open>Do\<close>, from the first of \<open>ys\<close> until \<open>r\<close> is met again.\<close>

lemma Len_loop_ok:
  assumes "path (rn st) (rp st) x (ys @ [r])" "r \<notin> set ys"
  shows "Ring_Len_loop st (Some r) (Some (hd (ys @ [r]))) n = Some (Inr (n + int (length ys)))"
  using assms
proof (induction ys arbitrary: x n)
  case Nil
  then show ?case by (simp add: Ring_Len_loop.simps)
next
  case (Cons y ys)
  then have y: "rn st y = Some (hd (ys @ [r]))" by (cases ys) auto
  with Cons pointed_rval(1) [OF y] show ?case
    by (subst Ring_Len_loop.simps) (auto simp: ring_simps)
qed

lemma Do_loop_ok:
  assumes "path (rn st) (rp st) x (ys @ [r])" "r \<notin> set ys"
  shows "Ring_Do_loop st f (Some r) (Some (hd (ys @ [r]))) s
    = Some (Inr (fold f (map (\<lambda>a. the (rval st a)) ys) s))"
  using assms
proof (induction ys arbitrary: x s)
  case Nil
  then show ?case by (simp add: Ring_Do_loop.simps)
next
  case (Cons y ys)
  then have y: "rn st y = Some (hd (ys @ [r]))" by (cases ys) auto
  have "r_Value (the (rs_node st y)) = the (rval st y)"
    using pointed_rval(1) [OF y] rfields(3) by (metis option.sel)
  with Cons y pointed_rval(1) [OF y] show ?case
    by (subst Ring_Do_loop.simps) (auto simp: ring_simps)
qed

text \<open>
  C22: \<open>Len\<close> and \<open>Do\<close> come to an end on every ring, the zero node and nil included: \<open>Len\<close>
  returns the number of nodes, and \<open>Do\<close> calls \<open>f\<close> once on the value of every node, from \<open>r\<close>
  on in the order of \<open>next\<close>.
\<close>

theorem Ring_Len_Do_return:
  assumes "is_ring st (r # xs)"
  shows "Ring_Len st None = Some (Inr (0, st)) \<and> Ring_Do st f None s = Some (Inr (s, st))
    \<and> (\<exists>st'. Ring_Len st (Some r) = Some (Inr (int (length (r # xs)), st'))
      \<and> Ring_Do st f (Some r) s = Some (Inr (fold f (map (\<lambda>a. the (rval st a)) (r # xs)) s, st'))
      \<and> circle (rn st') (rp st') (r # xs) \<and> keeps {r} st st')"
proof -
  obtain st' where st': "Ring_Next st (Some r) = Inr (Some (hd (xs @ [r])), st')"
    "circle (rn st') (rp st') (r # xs)" "keeps {r} st st'" using Ring_Next_ok [OF assms] .
  have p: "path (rn st') (rp st') r (xs @ [r])" "r \<notin> set xs" using st'(2) by (auto simp: circle_Cons)
  have v: "rval st' = rval st" using st'(3) by (simp add: keeps_def)
  have r: "rload st (Some r) = Inr (the (rs_node st r))" "r_Value (the (rs_node st r)) = the (rval st r)"
    using ring_members [OF assms, of r] by (auto simp: ring_simps rval_def)
  show ?thesis
    using st' r Len_loop_ok [OF p, of 1] Do_loop_ok [OF p, of f "f (the (rval st r)) s"]
    by (simp add: Ring_Len_def Ring_Do_def v)
qed


section \<open>Linking and unlinking\<close>

lemma link_views:
  assumes "rval st r \<noteq> None" "rval st s \<noteq> None" "rval st n \<noteq> None" "rval st p \<noteq> None"
  shows "\<exists>st'. andThen (rset_next st (Some r) (Some s)) (\<lambda>st3.
      andThen (rset_prev st3 (Some s) (Some r)) (\<lambda>st4.
      andThen (rset_prev st4 (Some n) (Some p)) (\<lambda>st5.
      andThen (rset_next st5 (Some p) (Some n)) (\<lambda>st6. Inr (Some n, st6))))) = Inr (Some n, st')
    \<and> rn st' = (rn st)(r := Some s, p := Some n) \<and> rp st' = (rp st)(s := Some r, n := Some p)
    \<and> keeps {r, s, n, p} st st'"
  using assms by (simp add: ring_simps keeps_def)

text \<open>
  C23: \<open>Link\<close> of two different rings makes one ring of them, the nodes of \<open>s\<close> inserted after
  \<open>r\<close>, and returns the node that followed \<open>r\<close>.  Values, and the nodes of all other rings, are
  untouched; zero nodes count as rings of one element.
\<close>

theorem Ring_Link_joins:
  assumes "is_ring st (r # xs)" "is_ring st (s # ys)" "set (r # xs) \<inter> set (s # ys) = {}"
  shows "\<exists>st'. Ring_Link st (Some r) (Some s) = Inr (Some (hd (xs @ [r])), st')
    \<and> is_ring st' (r # s # ys @ xs) \<and> keeps (set (r # xs) \<union> set (s # ys)) st st'"
proof -
  let ?n = "hd (xs @ [r])" and ?p = "last (s # ys)"
  obtain st1 where st1: "Ring_Next st (Some r) = Inr (Some ?n, st1)"
    "circle (rn st1) (rp st1) (r # xs)" "keeps {r} st st1" using Ring_Next_ok [OF assms(1)] .
  have "is_ring st1 (s # ys)" using keeps_ring [OF st1(3) assms(2)] assms(3) by auto
  then obtain st2 where st2: "Ring_Prev st1 (Some s) = Inr (Some ?p, st2)"
    "circle (rn st2) (rp st2) (s # ys)" "keeps {s} st1 st2" using Ring_Prev_ok by metis
  have c: "circle (rn st2) (rp st2) (r # xs)"
    by (rule circle_frame [OF st1(2)]) (use st2(3) assms(3) in \<open>auto simp: keeps_def\<close>)
  have mem: "?n \<in> set (r # xs)" "?p \<in> set (s # ys)"
    using hd_in_set [of "xs @ [r]"] last_in_set [of "s # ys"] by auto
  then have "rval st2 r \<noteq> None" "rval st2 s \<noteq> None" "rval st2 ?n \<noteq> None" "rval st2 ?p \<noteq> None"
    using ring_members [of st2 "r # xs"] ring_members [of st2 "s # ys"] c st2(2)
    by (auto simp: is_ring_def)
  from link_views [OF this] obtain st' where st': "Ring_Link st (Some r) (Some s) = Inr (Some ?n, st')"
    "rn st' = (rn st2)(r := Some s, ?p := Some ?n)" "rp st' = (rp st2)(s := Some r, ?n := Some ?p)"
    "keeps {r, s, ?n, ?p} st2 st'"
    using st1(1) st2(1) by (auto simp: Ring_Link_def)
  have "is_ring st' (r # s # ys @ xs)"
    using circle_join [OF c st2(2) assms(3)] unfolding is_ring_def st' by blast
  moreover have "keeps (set (r # xs) \<union> set (s # ys)) st st'"
    using st1(3) st2(3) st'(4) mem by (auto simp: keeps_def)
  ultimately show ?thesis using st'(1) by blast
qed

text \<open>What \<open>Link\<close> does inside one ring: it cuts out the nodes between \<open>r\<close> and \<open>s\<close>.\<close>

lemma Link_cut_ok:
  assumes "is_ring st (r # as @ bs)"
  defines "s \<equiv> hd (bs @ [r])" and "n \<equiv> hd (as @ bs @ [r])"
  shows "\<exists>st'. Ring_Link st (Some r) (Some s) = Inr (Some n, st')
    \<and> circle (rn st') (rp st') (r # bs) \<and> (as \<noteq> [] \<longrightarrow> circle (rn st') (rp st') as)
    \<and> keeps (set (r # as @ bs)) st st'"
proof -
  let ?p = "last (r # as)"
  obtain st1 where st1: "Ring_Next st (Some r) = Inr (Some n, st1)"
    "circle (rn st1) (rp st1) (r # as @ bs)" "keeps {r} st st1"
    using Ring_Next_ok [OF assms(1)] unfolding n_def by (metis append.assoc)
  have mem: "s \<in> set (r # as @ bs)" "n \<in> set (r # as @ bs)" "?p \<in> set (r # as @ bs)"
    using hd_in_set [of "bs @ [r]"] hd_in_set [of "as @ bs @ [r]"] last_in_set [of "r # as"]
    unfolding s_def n_def by auto
  have live: "rval st1 a \<noteq> None" if "a \<in> set (r # as @ bs)" for a
    using ring_members [of st1 "r # as @ bs" a] st1(2) that by (auto simp: is_ring_def)
  obtain t where next_s: "rn st1 s = Some t" using circle_points [OF st1(2) mem(1)] .
  have "rp st1 s = Some ?p"
    using circle_gap(2) [of "rn st1" "rp st1" r as bs] st1(2) unfolding s_def by simp
  then have "Ring_Prev st1 (Some s) = Inr (Some ?p, st1)"
    using next_s live [OF mem(1)] by (simp add: Ring_Prev_def ring_simps)
  with link_views [OF live live live live, of r s n ?p] mem st1(1)
  obtain st' where st': "Ring_Link st (Some r) (Some s) = Inr (Some n, st')"
    "rn st' = (rn st1)(r := Some s, ?p := Some n)" "rp st' = (rp st1)(s := Some r, n := Some ?p)"
    "keeps {r, s, n, ?p} st1 st'"
    by (auto simp: Ring_Link_def)
  have "circle (rn st') (rp st') (r # bs)" "as \<noteq> [] \<Longrightarrow> circle (rn st') (rp st') as"
    using circle_cut(1,2) [OF st1(2)] unfolding st' s_def n_def by blast+
  moreover have "keeps (set (r # as @ bs)) st st'"
    using st1(3) st'(4) mem by (auto simp: keeps_def)
  ultimately show ?thesis using st'(1) by blast
qed


text \<open>
  C24: \<open>Unlink\<close> takes the \<open>n mod Len\<close> nodes after \<open>r\<close> out of the ring.  They form a ring of their
  own, which is returned (where nothing is taken out the result is the node after \<open>r\<close>), and \<open>r\<close>
  keeps the others in their order.  A count of zero or less gives nil and changes nothing.
\<close>

theorem Ring_Unlink_removes:
  assumes "is_ring st (r # xs)" "n < maxInt"
  defines "k \<equiv> nat (n mod int (length (r # xs)))"
  shows "(n \<le> 0 \<longrightarrow> Ring_Unlink st (Some r) n = Inr (None, st))
    \<and> (n > 0 \<longrightarrow> (\<exists>st'. Ring_Unlink st (Some r) n = Inr (Some (hd (xs @ [r])), st')
        \<and> is_ring st' (r # drop k xs) \<and> (k > 0 \<longrightarrow> is_ring st' (take k xs))
        \<and> keeps (set (r # xs)) st st'))"
proof (cases "n > 0")
  case True
  let ?L = "length (r # xs)"
  have k: "k < ?L" "(n + 1) mod int ?L = (int k + 1) mod int ?L"
    by (simp_all add: k_def nat_less_iff mod_simps del: length_Cons)
  have "wrap64 (n + 1) = n + 1" using True assms(2) by (intro wrap64_id) (simp add: in64_def maxInt_def)
  moreover obtain st1 where st1: "Ring_Move st (Some r) (n + 1)
      = Inr (Some ((r # xs) ! nat ((n + 1) mod int (length (r # xs)))), st1)"
    "circle (rn st1) (rp st1) (r # xs)" "keeps {r} st st1" using Ring_Move_ok [OF assms(1)] .
  moreover have "(r # xs) ! nat ((n + 1) mod int ?L) = hd (drop k xs @ [r])"
  proof (cases "k + 1 = ?L")
    case True
    then have "(int k + 1) mod int ?L = 0" by (metis mod_self of_nat_1 of_nat_add)
    with k(2) True show ?thesis by simp
  next
    case False
    then have "(int k + 1) mod int ?L = int k + 1" "k < length xs" using k(1) by auto
    with k(2) show ?thesis by (simp add: hd_append hd_drop_conv_nth nat_add_distrib)
  qed
  moreover have "is_ring st1 (r # take k xs @ drop k xs)" using st1(2) by (simp add: is_ring_def)
  from Link_cut_ok [OF this] obtain st' where
    "Ring_Link st1 (Some r) (Some (hd (drop k xs @ [r]))) = Inr (Some (hd (xs @ [r])), st')"
    "circle (rn st') (rp st') (r # drop k xs)" "take k xs \<noteq> [] \<longrightarrow> circle (rn st') (rp st') (take k xs)"
    "keeps (set (r # xs)) st1 st'"
    by (metis append.assoc append_take_drop_id)
  ultimately show ?thesis
    using True k(1) by (auto simp: Ring_Unlink_def is_ring_def keeps_def)
qed (simp add: Ring_Unlink_def)

section \<open>New rings\<close>

lemma ralloc_views:
  assumes "ralloc st x = (q, st1)"
  shows "q = Some (rs_fresh st)" "rn st1 = (rn st)(rs_fresh st := r_next x)"
    "rp st1 = (rp st)(rs_fresh st := r_prev x)" "rval st1 = (rval st)(rs_fresh st \<mapsto> r_Value x)"
    "rs_fresh st1 = rs_fresh st + 1"
    "\<And>a. a \<noteq> rs_fresh st \<Longrightarrow> rs_node st1 a = rs_node st a"
  using assms by (auto simp: ralloc_def fun_eq_iff rput_def rn_def rp_def rval_def)

lemma rassign_node: "a \<noteq> b \<Longrightarrow> rs_node (rassign st b f) a = rs_node st a"
  by (simp add: rassign_def rput_def)

lemma NewRing_loop_ok:
  assumes "rval st p \<noteq> None" "p < rs_fresh st"
  shows "\<exists>st'. NewRing_loop z n (n - int k) (Some p) st
        = Inr (Some (last (p # [rs_fresh st ..< rs_fresh st + k])), st')
    \<and> path (rn st') (rp st') p [rs_fresh st ..< rs_fresh st + k]
    \<and> (\<forall>a \<in> {rs_fresh st ..< rs_fresh st + k}. rval st' a = Some z)
    \<and> rval st' p = rval st p \<and> rp st' p = rp st p
    \<and> (\<forall>a. a < rs_fresh st \<and> a \<noteq> p \<longrightarrow> rs_node st' a = rs_node st a)"
  using assms
proof (induction k arbitrary: p st)
  case 0
  then show ?case by (simp add: NewRing_loop.simps)
next
  case (Suc k)
  let ?f = "rs_fresh st"
  obtain q st1 where al: "ralloc st \<lparr>r_next = None, r_prev = Some p, r_Value = z\<rparr> = (q, st1)"
    by (metis surj_pair)
  note v = ralloc_views [OF al]
  have p: "rval st1 p \<noteq> None" "p \<noteq> ?f" using Suc.prems by (auto simp: v)
  define st2 where "st2 = rassign st1 p (\<lambda>e. e\<lparr>r_next := Some ?f\<rparr>)"
  have st2: "rset_next st1 (Some p) q = Inr st2" using p by (simp add: ring_simps st2_def v(1))
  have v2: "rn st2 p = Some ?f" "rp st2 ?f = Some p" "rval st2 ?f = Some z" "rval st2 p = rval st p"
    "rs_fresh st2 = ?f + 1" "rp st2 p = rp st p"
    using p by (simp_all add: st2_def ring_simps v)
  have "rval st2 ?f \<noteq> None" "?f < rs_fresh st2" by (simp_all add: v2)
  from Suc.IH [OF this] obtain st' where st': "NewRing_loop z n (n - int k) (Some ?f) st2
        = Inr (Some (last (?f # [?f + 1 ..< ?f + 1 + k])), st')"
    "path (rn st') (rp st') ?f [?f + 1 ..< ?f + 1 + k]"
    "\<forall>a \<in> {?f + 1 ..< ?f + 1 + k}. rval st' a = Some z" "rval st' ?f = Some z" "rp st' ?f = Some p"
    "\<And>a. a < ?f + 1 \<Longrightarrow> a \<noteq> ?f \<Longrightarrow> rs_node st' a = rs_node st2 a"
    unfolding v2 by blast
  have upt: "[?f ..< ?f + Suc k] = ?f # [?f + 1 ..< ?f + 1 + k]" by (simp add: upt_conv_Cons)
  have at_p: "rs_node st' p = rs_node st2 p" using st'(6) Suc.prems by simp
  then have "rn st' p = Some ?f" "rp st' p = rp st p" "rval st' p = rval st p"
    using v2(1,4,6) by (simp_all add: rn_def rp_def rval_def)
  moreover have "NewRing_loop z n (n - int (Suc k)) (Some p) st
      = Inr (Some (last (p # [?f ..< ?f + Suc k])), st')"
    using al st2 st'(1) unfolding upt by (subst NewRing_loop.simps) (simp add: v(1) algebra_simps)
  moreover have "rs_node st' a = rs_node st a" if "a < ?f" "a \<noteq> p" for a
    using that st'(6) by (simp add: st2_def rassign_node v(6))
  moreover have "rval st' a = Some z" if "a \<in> {?f ..< ?f + Suc k}" for a
    using that st'(3,4) by (cases "a = ?f") auto
  ultimately show ?case
    using st'(2,5) unfolding upt by (intro exI [of _ st']) simp
qed

text \<open>The last two assignments, which close the chain to a circle.\<close>

lemma close_ring:
  assumes "path (rn st) (rp st) f xs" "distinct (f # xs)" "\<And>a. a \<in> set (f # xs) \<Longrightarrow> rval st a \<noteq> None"
  defines "p \<equiv> last (f # xs)"
  shows "\<exists>st'. andThen (rset_next st (Some p) (Some f)) (\<lambda>st3.
      andThen (rset_prev st3 (Some f) (Some p)) (\<lambda>st4. Inr (Some f, st4))) = Inr (Some f, st')
    \<and> circle (rn st') (rp st') (f # xs) \<and> rval st' = rval st
    \<and> (\<forall>a. a \<notin> set (f # xs) \<longrightarrow> rs_node st' a = rs_node st a)"
proof -
  have p: "p \<in> set (f # xs)" unfolding p_def by (rule last_in_set) simp
  define st3 where "st3 = rassign st p (\<lambda>e. e\<lparr>r_next := Some f\<rparr>)"
  define st4 where "st4 = rassign st3 f (\<lambda>e. e\<lparr>r_prev := Some p\<rparr>)"
  have live: "rval st p \<noteq> None" "rval st f \<noteq> None" using assms(3) p by simp_all
  have v: "rn st4 = (rn st)(p := Some f)" "rp st4 = (rp st)(f := Some p)" "rval st4 = rval st"
    using live by (simp_all add: st3_def st4_def ring_simps)
  have "path (rn st4) (rp st4) f xs"
  proof (rule path_frame [OF assms(1)])
    have "p \<notin> set (butlast (f # xs))"
      using assms(2) append_butlast_last_id [of "f # xs"] unfolding p_def
      by (metis distinct_append not_distinct_conv_prefix list.distinct(1) append.assoc)
    then show "rn st4 a = rn st a" if "a \<in> set (butlast (f # xs))" for a using that v(1) by auto
    show "rp st4 a = rp st a" if "a \<in> set xs" for a using that v(2) assms(2) by auto
  qed
  then have "circle (rn st4) (rp st4) (f # xs)"
    using assms(2) unfolding circle_Cons path_append p_def [symmetric] by (simp add: v)
  moreover have "andThen (rset_next st (Some p) (Some f)) (\<lambda>st3.
      andThen (rset_prev st3 (Some f) (Some p)) (\<lambda>st4. Inr (Some f, st4))) = Inr (Some f, st4)"
    using live by (simp add: st3_def st4_def ring_simps)
  moreover have "rs_node st4 a = rs_node st a" if "a \<notin> set (f # xs)" for a
    using that p by (auto simp: st4_def st3_def rassign_def rput_def)
  ultimately show ?thesis using v(3) by blast
qed

text \<open>
  \<open>NewRing(n)\<close> allocates \<open>n\<close> nodes with the zero value and links them to a ring in the order
  of their allocation; the result is the first.  For \<open>n\<close> of zero or less it is nil and nothing
  is allocated.  No other node of the store changes.
\<close>

theorem NewRing_correct:
  "(n \<le> 0 \<longrightarrow> NewRing z st n = Inr (None, st))
    \<and> (n > 0 \<longrightarrow> (\<exists>st'. NewRing z st n = Inr (Some (rs_fresh st), st')
        \<and> is_ring st' [rs_fresh st ..< rs_fresh st + nat n]
        \<and> (\<forall>a. rs_fresh st \<le> a \<and> a < rs_fresh st + nat n \<longrightarrow> rval st' a = Some z)
        \<and> (\<forall>a. a < rs_fresh st \<longrightarrow> rs_node st' a = rs_node st a)))"
proof (cases "n > 0")
  case True
  let ?f = "rs_fresh st" and ?k = "nat n - 1"
  obtain q st1 where al: "ralloc st \<lparr>r_next = None, r_prev = None, r_Value = z\<rparr> = (q, st1)"
    by (metis surj_pair)
  note v = ralloc_views [OF al]
  have "rval st1 ?f \<noteq> None" "?f < rs_fresh st1" by (simp_all add: v)
  from NewRing_loop_ok [OF this, of z n ?k] obtain st2 where st2:
    "NewRing_loop z n 1 q st1 = Inr (Some (last (?f # [?f + 1 ..< ?f + 1 + ?k])), st2)"
    "path (rn st2) (rp st2) ?f [?f + 1 ..< ?f + 1 + ?k]"
    "\<forall>a \<in> {?f + 1 ..< ?f + 1 + ?k}. rval st2 a = Some z" "rval st2 ?f = Some z"
    "\<And>a. a < ?f + 1 \<Longrightarrow> a \<noteq> ?f \<Longrightarrow> rs_node st2 a = rs_node st1 a"
    using True by (auto simp: v)
  define xs where "xs = [?f + 1 ..< ?f + 1 + ?k]"
  have upt: "[?f ..< ?f + nat n] = ?f # xs" using True by (simp add: xs_def upt_conv_Cons)
  have mem: "a \<in> set (?f # xs) \<longleftrightarrow> ?f \<le> a \<and> a < ?f + nat n" for a unfolding upt [symmetric] by auto
  have live: "rval st2 a = Some z" if "?f \<le> a" "a < ?f + nat n" for a
    using that st2(3,4) by (cases "a = ?f") auto
  have "distinct (?f # xs)" unfolding upt [symmetric] by simp
  from close_ring [OF st2(2) [folded xs_def] this] live mem obtain st4 where
    st4: "andThen (rset_next st2 (Some (last (?f # xs))) (Some ?f)) (\<lambda>st3.
      andThen (rset_prev st3 (Some ?f) (Some (last (?f # xs)))) (\<lambda>st4. Inr (Some ?f, st4))) = Inr (Some ?f, st4)"
    "circle (rn st4) (rp st4) (?f # xs)" "rval st4 = rval st2"
    "\<And>a. a \<notin> set (?f # xs) \<Longrightarrow> rs_node st4 a = rs_node st2 a" by auto
  have "NewRing_loop z n 1 q st1 = Inr (Some (last (?f # xs)), st2)" using st2(1) unfolding xs_def .
  then have "NewRing z st n = Inr (Some ?f, st4)"
    using True al st4(1) by (simp add: NewRing_def v(1) del: last.simps)
  moreover have "rs_node st4 a = rs_node st a" if "a < ?f" for a
    using that st4(4) mem [of a] st2(5) by (simp add: v(6))
  ultimately show ?thesis
    using True live st4(2,3) unfolding upt is_ring_def by (intro conjI impI exI [of _ st4]) auto
qed (simp add: NewRing_def)


section \<open>Concrete runs\<close>

text \<open>A ring of three nodes, and a zero node beside it.\<close>

definition sample_ring :: "nat ring_store" where
  "sample_ring = \<lparr>rs_node =
     [0 \<mapsto> \<lparr>r_next = Some 1, r_prev = Some 2, r_Value = 10\<rparr>,
      1 \<mapsto> \<lparr>r_next = Some 2, r_prev = Some 0, r_Value = 11\<rparr>,
      2 \<mapsto> \<lparr>r_next = Some 0, r_prev = Some 1, r_Value = 12\<rparr>,
      3 \<mapsto> \<lparr>r_next = None, r_prev = None, r_Value = 13\<rparr>], rs_fresh = 4\<rparr>"

lemma sample_rings: "is_ring sample_ring [0, 1, 2]" "is_ring sample_ring [3]"
  by (auto simp: is_ring_def sample_ring_def circle_Cons rn_def rp_def rval_def)

lemma Ring_walks_witness:
  "\<exists>st'. Ring_Next sample_ring (Some 0) = Inr (Some 1, st')
    \<and> Ring_Move sample_ring (Some 0) (- 4) = Inr (Some 2, st')"
  using Ring_walks [OF sample_rings(1)] by (auto dest: spec [of _ "- 4 :: int"])

lemma Ring_Len_Do_return_witness:
  "\<exists>st'. Ring_Len sample_ring (Some 0) = Some (Inr (3, st'))
    \<and> Ring_Do sample_ring (\<lambda>v s. s @ [v]) (Some 0) [] = Some (Inr ([10, 11, 12], st'))"
  using Ring_Len_Do_return [OF sample_rings(1), of "\<lambda>v s. s @ [v]" "[]"]
  by (auto simp: sample_ring_def rval_def)

lemma Ring_Link_joins_witness:
  "\<exists>st'. Ring_Link sample_ring (Some 0) (Some 3) = Inr (Some 1, st') \<and> is_ring st' [0, 3, 1, 2]"
  using Ring_Link_joins [OF sample_rings] by auto

lemma Ring_Unlink_removes_witness:
  "\<exists>st'. Ring_Unlink sample_ring (Some 0) 4 = Inr (Some 1, st')
    \<and> is_ring st' [0, 2] \<and> is_ring st' [1]"
  using Ring_Unlink_removes [OF sample_rings(1), of 4] by (auto simp: maxInt_def)

lemma NewRing_correct_witness:
  "\<exists>st'. NewRing 0 sample_ring 2 = Inr (Some 4, st') \<and> is_ring st' [4, 5]"
  using NewRing_correct [of 2 "0 :: nat" sample_ring] by (auto simp: sample_ring_def upt_conv_Cons)

end
