(* ===== verification/BufioReader.thy ===== *)
theory BufioReader
  imports SliceReader
begin

text \<open>
  \<open>gbufio/reader.go\<close>: the buffered \<open>Reader[T]\<close> over a client's \<open>gio.Reader[T]\<close>.  The client's
  reader is a state inside the record and a function \<open>rd\<close> that every operation gets.  The contract:
  the items in the buffer followed by what the client's reader still holds are one stream, and
  every operation takes items from its front, in order.

  Loops that run until the client's reader does something are partial functions; \<open>None\<close> is a run
  that never returns.
\<close>

section \<open>Errors and constants\<close>

definition defaultBufSize :: int where "defaultBufSize = 4096"
definition minReadBufferSize :: int where "minReadBufferSize = 16"
definition maxConsecutiveEmptyReads :: nat where "maxConsecutiveEmptyReads = 100"

definition ErrInvalidUnreadItem :: go_error where
  "ErrInvalidUnreadItem = Sentinel ''gbufio.ErrInvalidUnreadItem''"
definition ErrBufferFull :: go_error where
  "ErrBufferFull = Sentinel ''gbufio.ErrBufferFull''"
definition bufio_ErrNegativeCount :: go_error where
  "bufio_ErrNegativeCount = Sentinel ''gbufio.ErrNegativeCount''"
definition errNegativeRead :: go_error where
  "errNegativeRead = Sentinel ''gbufio.errNegativeRead''"
definition errNegativeWrite :: go_error where
  "errNegativeWrite = Sentinel ''gbufio.errNegativeWrite''"

section \<open>The reader\<close>

text \<open>
  \<open>buf\<close> is empty only for the zero value (a nil slice).  \<open>lastItem\<close> is a pointer that the code
  only compares with nil, or dereferences when it is nil; the item it points to at the time of the
  assignment stands for it.
\<close>

record ('r, 'a) bufio_reader =
  br_buf :: "'a list"
  br_rd :: 'r
  br_r :: int
  br_w :: int
  br_err :: "go_error option"
  br_lastItem :: "'a option"

definition bufio_reset :: "'a list \<Rightarrow> 'r \<Rightarrow> ('r, 'a) bufio_reader" where
  "bufio_reset xs r =
     \<lparr>br_buf = xs, br_rd = r, br_r = 0, br_w = 0, br_err = None, br_lastItem = None\<rparr>"

text \<open>\<open>asReader\<close> is the type assertion \<open>rd.(*Reader[T])\<close> on the dynamic value \<open>rd\<close>.\<close>

definition newReader ::
  "'a \<Rightarrow> ('r \<Rightarrow> ('r, 'a) bufio_reader option) \<Rightarrow> 'r \<Rightarrow> int \<Rightarrow> ('r, 'a) bufio_reader" where
  "newReader z asReader rd sz =
     (let fresh = bufio_reset (replicate (nat (if sz < minReadBufferSize then minReadBufferSize else sz)) z) rd
      in case asReader rd of
           Some b \<Rightarrow> if int (length (br_buf b)) \<ge> sz then b else fresh
         | None \<Rightarrow> fresh)"

definition Bufio_Size :: "('r, 'a) bufio_reader \<Rightarrow> int" where
  "Bufio_Size b = int (length (br_buf b))"

text \<open>\<open>self\<close> is the comparison \<open>b == r\<close> of the interface value with this very reader.\<close>

definition Bufio_Reset :: "'a \<Rightarrow> ('r, 'a) bufio_reader \<Rightarrow> bool \<Rightarrow> 'r \<Rightarrow> ('r, 'a) bufio_reader" where
  "Bufio_Reset z b self r =
     (if self then b
      else
        let b1 = (if br_buf b = [] then b\<lparr>br_buf := replicate (nat defaultBufSize) z\<rparr> else b)
        in bufio_reset (br_buf b1) r)"

text \<open>The attempts of \<open>fill\<close> to read new data, \<open>i\<close> of them left.\<close>

fun fill_tries :: "nat \<Rightarrow> ('r, 'a) reader_fn \<Rightarrow> ('r, 'a) bufio_reader \<Rightarrow> go_panic + ('r, 'a) bufio_reader" where
  "fill_tries 0 rd b = Inr (b\<lparr>br_err := Some ErrNoProgress\<rparr>)"
| "fill_tries (Suc i) rd b =
     andThen (go_slice (br_buf b) (br_w b) (Bufio_Size b)) (\<lambda>p.
     andThen (rd (br_rd b) p) (\<lambda>((n, e, q), s).
       let b1 = b\<lparr>br_rd := s, br_buf := overlay (br_buf b) (nat (br_w b)) q\<rparr>
       in if n < 0 then Inl (PanicErr errNegativeRead)
          else
            let b2 = b1\<lparr>br_w := br_w b1 + n\<rparr>
            in if e \<noteq> None then Inr (b2\<lparr>br_err := e\<rparr>)
               else if n > 0 then Inr b2
               else fill_tries i rd b2))"

definition Bufio_fill :: "('r, 'a) reader_fn \<Rightarrow> ('r, 'a) bufio_reader \<Rightarrow> go_panic + ('r, 'a) bufio_reader" where
  "Bufio_fill rd b =
     andThen
       (if br_r b > 0 then
          andThen (go_slice (br_buf b) (br_r b) (br_w b)) (\<lambda>ys.
          andThen (go_copy (br_buf b) 0 (Bufio_Size b) ys) (\<lambda>(_, xs).
            Inr (b\<lparr>br_buf := xs, br_w := br_w b - br_r b, br_r := 0\<rparr>)))
        else Inr b) (\<lambda>b1.
       if br_w b1 \<ge> Bufio_Size b1 then Inl (PanicStr ''bufio: tried to fill full buffer'')
       else fill_tries maxConsecutiveEmptyReads rd b1)"

definition Bufio_readErr :: "('r, 'a) bufio_reader \<Rightarrow> go_error option \<times> ('r, 'a) bufio_reader" where
  "Bufio_readErr b = (br_err b, b\<lparr>br_err := None\<rparr>)"

definition Bufio_Buffered :: "('r, 'a) bufio_reader \<Rightarrow> int" where
  "Bufio_Buffered b = br_w b - br_r b"

partial_function (option) Bufio_Peek_loop ::
  "('r, 'a) reader_fn \<Rightarrow> int \<Rightarrow> ('r, 'a) bufio_reader \<Rightarrow> (go_panic + ('r, 'a) bufio_reader) option" where
  "Bufio_Peek_loop rd n b =
     (if br_w b - br_r b < n \<and> br_w b - br_r b < Bufio_Size b \<and> br_err b = None then
        (case Bufio_fill rd b of Inl f \<Rightarrow> Some (Inl f) | Inr b1 \<Rightarrow> Bufio_Peek_loop rd n b1)
      else Some (Inr b))"

definition Bufio_Peek ::
  "('r, 'a) reader_fn \<Rightarrow> ('r, 'a) bufio_reader \<Rightarrow> int
   \<Rightarrow> (go_panic + (('a list \<times> go_error option) \<times> ('r, 'a) bufio_reader)) option" where
  "Bufio_Peek rd b n =
     (if n < 0 then Some (Inr (([], Some bufio_ErrNegativeCount), b))
      else
        map_option (\<lambda>m. andThen m (\<lambda>b1.
          if n > Bufio_Size b1 then
            andThen (go_slice (br_buf b1) (br_r b1) (br_w b1)) (\<lambda>ys. Inr ((ys, Some ErrBufferFull), b1))
          else
            let avail = br_w b1 - br_r b1;
                (n', err, b2) =
                  (if avail < n then
                     let (e, b2) = Bufio_readErr b1
                     in (avail, if e = None then Some ErrBufferFull else e, b2)
                   else (n, None, b1))
            in andThen (go_slice (br_buf b2) (br_r b2) (br_r b2 + n')) (\<lambda>ys. Inr ((ys, err), b2))))
          (Bufio_Peek_loop rd n (b\<lparr>br_lastItem := None\<rparr>)))"

partial_function (option) Bufio_Discard_loop ::
  "('r, 'a) reader_fn \<Rightarrow> int \<Rightarrow> int \<Rightarrow> ('r, 'a) bufio_reader
   \<Rightarrow> (go_panic + ((int \<times> go_error option) \<times> ('r, 'a) bufio_reader)) option" where
  "Bufio_Discard_loop rd n remain b =
     (case (if Bufio_Buffered b = 0 then Bufio_fill rd b else Inr b) of
        Inl f \<Rightarrow> Some (Inl f)
      | Inr b1 \<Rightarrow>
          let skip = (if Bufio_Buffered b1 > remain then remain else Bufio_Buffered b1);
              b2 = b1\<lparr>br_r := br_r b1 + skip\<rparr>;
              remain' = remain - skip
          in if remain' = 0 then Some (Inr ((n, None), b2))
             else if br_err b2 \<noteq> None then
               let (e, b3) = Bufio_readErr b2 in Some (Inr ((n - remain', e), b3))
             else Bufio_Discard_loop rd n remain' b2)"

definition Bufio_Discard ::
  "('r, 'a) reader_fn \<Rightarrow> ('r, 'a) bufio_reader \<Rightarrow> int
   \<Rightarrow> (go_panic + ((int \<times> go_error option) \<times> ('r, 'a) bufio_reader)) option" where
  "Bufio_Discard rd b n =
     (if n < 0 then Some (Inr ((0, Some bufio_ErrNegativeCount), b))
      else if n = 0 then Some (Inr ((0, None), b))
      else Bufio_Discard_loop rd n n (b\<lparr>br_lastItem := None\<rparr>))"

text \<open>The end of \<open>Read\<close>: copy as much as there is.\<close>

definition Bufio_copyOut ::
  "('r, 'a) bufio_reader \<Rightarrow> 'a list
   \<Rightarrow> go_panic + ((int \<times> go_error option \<times> 'a list) \<times> ('r, 'a) bufio_reader)" where
  "Bufio_copyOut b p =
     andThen (go_slice (br_buf b) (br_r b) (br_w b)) (\<lambda>ys.
     andThen (go_copy p 0 (int (length p)) ys) (\<lambda>(n, q).
       let b1 = b\<lparr>br_r := br_r b + n\<rparr>
       in andThen (go_index (br_buf b1) (br_r b1 - 1)) (\<lambda>x.
            Inr ((n, None, q), b1\<lparr>br_lastItem := Some x\<rparr>))))"

definition Bufio_Read ::
  "('r, 'a) reader_fn \<Rightarrow> ('r, 'a) bufio_reader \<Rightarrow> 'a list
   \<Rightarrow> go_panic + ((int \<times> go_error option \<times> 'a list) \<times> ('r, 'a) bufio_reader)" where
  "Bufio_Read rd b p =
     (if length p = 0 then
        if Bufio_Buffered b > 0 then Inr ((0, None, p), b)
        else let (e, b1) = Bufio_readErr b in Inr ((0, e, p), b1)
      else if br_r b = br_w b then
        if br_err b \<noteq> None then let (e, b1) = Bufio_readErr b in Inr ((0, e, p), b1)
        else if int (length p) \<ge> Bufio_Size b then
          andThen (rd (br_rd b) p) (\<lambda>((n, e, q), s).
            let b1 = b\<lparr>br_rd := s, br_err := e\<rparr>; q' = overlay p 0 q
            in if n < 0 then Inl (PanicErr errNegativeRead)
               else
                 andThen (if n > 0 then andThen (go_index q' (n - 1)) (\<lambda>x. Inr (b1\<lparr>br_lastItem := Some x\<rparr>))
                          else Inr b1) (\<lambda>b2.
                 let (e2, b3) = Bufio_readErr b2 in Inr ((n, e2, q'), b3)))
        else
          let b1 = b\<lparr>br_r := 0, br_w := 0\<rparr>
          in andThen (rd (br_rd b1) (br_buf b1)) (\<lambda>((n, e, q), s).
               let b2 = b1\<lparr>br_rd := s, br_err := e, br_buf := overlay (br_buf b1) 0 q\<rparr>
               in if n < 0 then Inl (PanicErr errNegativeRead)
                  else if n = 0 then let (e2, b3) = Bufio_readErr b2 in Inr ((0, e2, p), b3)
                  else Bufio_copyOut (b2\<lparr>br_w := br_w b2 + n\<rparr>) p)
      else Bufio_copyOut b p)"

partial_function (option) Bufio_ReadItem_loop ::
  "'a \<Rightarrow> ('r, 'a) reader_fn \<Rightarrow> ('r, 'a) bufio_reader
   \<Rightarrow> (go_panic + (('a \<times> go_error option) \<times> ('r, 'a) bufio_reader)) option" where
  "Bufio_ReadItem_loop z rd b =
     (if br_r b = br_w b then
        if br_err b \<noteq> None then let (e, b1) = Bufio_readErr b in Some (Inr ((z, e), b1))
        else (case Bufio_fill rd b of Inl f \<Rightarrow> Some (Inl f) | Inr b1 \<Rightarrow> Bufio_ReadItem_loop z rd b1)
      else
        Some (andThen (go_index (br_buf b) (br_r b)) (\<lambda>c.
          Inr ((c, None), b\<lparr>br_r := br_r b + 1, br_lastItem := Some c\<rparr>))))"

definition Bufio_ReadItem ::
  "'a \<Rightarrow> ('r, 'a) reader_fn \<Rightarrow> ('r, 'a) bufio_reader
   \<Rightarrow> (go_panic + (('a \<times> go_error option) \<times> ('r, 'a) bufio_reader)) option" where
  "Bufio_ReadItem z rd b = Bufio_ReadItem_loop z rd b"

definition Bufio_UnreadItem ::
  "('r, 'a) bufio_reader \<Rightarrow> go_panic + (go_error option \<times> ('r, 'a) bufio_reader)" where
  "Bufio_UnreadItem b =
     (if br_lastItem b \<noteq> None \<or> br_r b = 0 \<and> br_w b > 0 then Inr (Some ErrInvalidUnreadItem, b)
      else
        let b1 = (if br_r b > 0 then b\<lparr>br_r := br_r b - 1\<rparr> else b\<lparr>br_w := 1\<rparr>)
        in case br_lastItem b1 of
             None \<Rightarrow> Inl NilDeref
           | Some x \<Rightarrow> andThen (go_update (br_buf b1) (br_r b1) x) (\<lambda>xs.
               Inr (None, b1\<lparr>br_buf := xs, br_lastItem := None\<rparr>)))"

definition Bufio_writeBuf ::
  "('w, 'a) writer_fn \<Rightarrow> ('r, 'a) bufio_reader \<Rightarrow> 'w
   \<Rightarrow> go_panic + ((int \<times> go_error option) \<times> 'w \<times> ('r, 'a) bufio_reader)" where
  "Bufio_writeBuf wr b w =
     andThen (go_slice (br_buf b) (br_r b) (br_w b)) (\<lambda>ys.
     andThen (wr w ys) (\<lambda>((n, e), w1).
       if n < 0 then Inl (PanicErr errNegativeWrite)
       else Inr ((n, e), w1, b\<lparr>br_r := br_r b + n\<rparr>)))"

partial_function (option) Bufio_WriteTo_loop ::
  "('r, 'a) reader_fn \<Rightarrow> ('w, 'a) writer_fn \<Rightarrow> ('r, 'a) bufio_reader \<Rightarrow> 'w \<Rightarrow> int
   \<Rightarrow> (go_panic + ((int \<times> go_error option) \<times> 'w \<times> ('r, 'a) bufio_reader)) option" where
  "Bufio_WriteTo_loop rd wr b w n =
     (if br_r b < br_w b then
        (case Bufio_writeBuf wr b w of
           Inl f \<Rightarrow> Some (Inl f)
         | Inr ((m, e), w1, b1) \<Rightarrow>
             if e \<noteq> None then Some (Inr ((n + m, e), w1, b1))
             else (case Bufio_fill rd b1 of
                     Inl f \<Rightarrow> Some (Inl f)
                   | Inr b2 \<Rightarrow> Bufio_WriteTo_loop rd wr b2 w1 (n + m)))
      else
        let b1 = (if br_err b = Some EOF then b\<lparr>br_err := None\<rparr> else b);
            (e, b2) = Bufio_readErr b1
        in Some (Inr ((n, e), w, b2)))"

text \<open>
  \<open>wt\<close> is the type assertion \<open>b.rd.(gio.WriterTo[T])\<close>: the \<open>WriteTo\<close> method of the client's
  reader, if it has one; \<open>rf\<close> is \<open>w.(gio.ReaderFrom[T])\<close>.
\<close>

definition Bufio_WriteTo ::
  "('r, 'a) reader_fn \<Rightarrow> ('w, 'a) writer_fn
   \<Rightarrow> ('r \<Rightarrow> 'w \<Rightarrow> (go_panic + ((int \<times> go_error option) \<times> 'w \<times> 'r)) option) option
   \<Rightarrow> ('w \<Rightarrow> 'r \<Rightarrow> (go_panic + ((int \<times> go_error option) \<times> 'r \<times> 'w)) option) option
   \<Rightarrow> ('r, 'a) bufio_reader \<Rightarrow> 'w
   \<Rightarrow> (go_panic + ((int \<times> go_error option) \<times> 'w \<times> ('r, 'a) bufio_reader)) option" where
  "Bufio_WriteTo rd wr wt rf b w =
     (case Bufio_writeBuf wr (b\<lparr>br_lastItem := None\<rparr>) w of
        Inl f \<Rightarrow> Some (Inl f)
      | Inr ((n, e), w1, b1) \<Rightarrow>
          if e \<noteq> None then Some (Inr ((n, e), w1, b1))
          else (case wt of
            Some writeTo \<Rightarrow>
              map_option (\<lambda>x. andThen x (\<lambda>((m, e), w2, s). Inr ((n + m, e), w2, b1\<lparr>br_rd := s\<rparr>)))
                (writeTo (br_rd b1) w1)
          | None \<Rightarrow> (case rf of
              Some readFrom \<Rightarrow>
                map_option (\<lambda>x. andThen x (\<lambda>((m, e), s, w2). Inr ((n + m, e), w2, b1\<lparr>br_rd := s\<rparr>)))
                  (readFrom w1 (br_rd b1))
            | None \<Rightarrow>
                (case (if br_w b1 - br_r b1 < Bufio_Size b1 then Bufio_fill rd b1 else Inr b1) of
                   Inl f \<Rightarrow> Some (Inl f)
                 | Inr b2 \<Rightarrow> Bufio_WriteTo_loop rd wr b2 w1 n))))"

section \<open>The stream of a reader\<close>

text \<open>\<open>bufio xs s i j e l\<close>: the reader with buffer \<open>xs\<close>, of which the items from \<open>i\<close> to \<open>j\<close> are unread.\<close>

definition bufio ::
  "'a list \<Rightarrow> 'r \<Rightarrow> nat \<Rightarrow> nat \<Rightarrow> go_error option \<Rightarrow> 'a option \<Rightarrow> ('r, 'a) bufio_reader" where
  "bufio xs s i j e l =
     \<lparr>br_buf = xs, br_rd = s, br_r = int i, br_w = int j, br_err = e, br_lastItem = l\<rparr>"

definition buffered :: "('r, 'a) bufio_reader \<Rightarrow> 'a list" where
  "buffered b = sub (br_buf b) (nat (br_r b)) (nat (br_w b))"

definition stream :: "('r \<Rightarrow> 'a list) \<Rightarrow> ('r, 'a) bufio_reader \<Rightarrow> 'a list" where
  "stream rest b = buffered b @ rest (br_rd b)"

text \<open>
  The invariant, relative to the contract of the client's reader: the two positions lie in a
  buffer of at least one item, and a pending error is one that reader may stop with.
\<close>

definition bufio_ok ::
  "('r \<Rightarrow> 'a list) \<Rightarrow> ('r \<Rightarrow> bool) \<Rightarrow> (go_error \<Rightarrow> 'a list \<Rightarrow> bool) \<Rightarrow> ('r, 'a) bufio_reader \<Rightarrow> bool" where
  "bufio_ok rest ri stop b \<longleftrightarrow>
     0 \<le> br_r b \<and> br_r b \<le> br_w b \<and> br_w b \<le> Bufio_Size b \<and> 0 < Bufio_Size b \<and> ri (br_rd b)
     \<and> (\<forall>x. br_err b = Some x \<longrightarrow> stop x (rest (br_rd b)))"

lemma bufio_sel [simp]:
  "br_buf (bufio xs s i j e l) = xs" "br_rd (bufio xs s i j e l) = s" "br_r (bufio xs s i j e l) = int i"
  "br_w (bufio xs s i j e l) = int j" "br_err (bufio xs s i j e l) = e" "br_lastItem (bufio xs s i j e l) = l"
  "Bufio_Size (bufio xs s i j e l) = int (length xs)"
  "buffered (bufio xs s i j e l) = sub xs i j"
  "stream rest (bufio xs s i j e l) = sub xs i j @ rest s"
  by (simp_all add: bufio_def Bufio_Size_def buffered_def stream_def)

lemma bufio_upd [simp]:
  "bufio xs s i j e l\<lparr>br_buf := ys\<rparr> = bufio ys s i j e l"
  "bufio xs s i j e l\<lparr>br_rd := s'\<rparr> = bufio xs s' i j e l"
  "bufio xs s i j e l\<lparr>br_err := e'\<rparr> = bufio xs s i j e' l"
  "bufio xs s i j e l\<lparr>br_lastItem := l'\<rparr> = bufio xs s i j e l'"
  "bufio xs s i j e l\<lparr>br_r := int i'\<rparr> = bufio xs s i' j e l"
  "bufio xs s i j e l\<lparr>br_w := int j'\<rparr> = bufio xs s i j' e l"
  "bufio xs s i j e l\<lparr>br_r := 0\<rparr> = bufio xs s 0 j e l"
  "bufio xs s i j e l\<lparr>br_w := 0\<rparr> = bufio xs s i 0 e l"
  "bufio xs s i j e l\<lparr>br_r := 1 + int i'\<rparr> = bufio xs s (Suc i') j e l"
  by (simp_all add: bufio_def)

lemma bufio_ok_bufio [simp]:
  "bufio_ok rest ri stop (bufio xs s i j e l) \<longleftrightarrow>
     i \<le> j \<and> j \<le> length xs \<and> xs \<noteq> [] \<and> ri s \<and> (\<forall>x. e = Some x \<longrightarrow> stop x (rest s))"
  by (auto simp: bufio_ok_def)

lemma bufio_okE:
  assumes "bufio_ok rest ri stop b"
  obtains xs s i j e l where "b = bufio xs s i j e l" "i \<le> j" "j \<le> length xs" "xs \<noteq> []" "ri s"
    "\<And>x. e = Some x \<Longrightarrow> stop x (rest s)"
proof -
  have "b = bufio (br_buf b) (br_rd b) (nat (br_r b)) (nat (br_w b)) (br_err b) (br_lastItem b)"
    using assms by (simp add: bufio_ok_def bufio_def)
  then obtain xs s i j e l where b: "b = bufio xs s i j e l" by blast
  show thesis by (rule that [OF b]) (use assms in \<open>simp_all add: b\<close>)
qed

lemma bufio_fresh_ok:
  "0 < length xs \<Longrightarrow> ri r \<Longrightarrow> bufio_ok rest ri stop (bufio_reset xs r) \<and> stream rest (bufio_reset xs r) = rest r"
  by (simp add: bufio_ok_def bufio_reset_def Bufio_Size_def stream_def buffered_def)

section \<open>Reading ahead\<close>

text \<open>\<open>fill\<close> first slides the unread items to the front.\<close>

lemma fill_run:
  assumes "i \<le> j" "j \<le> length xs" "j - i < length xs"
  shows "\<exists>ys. Bufio_fill rd (bufio xs s i j e l)
      = fill_tries maxConsecutiveEmptyReads rd (bufio ys s 0 (j - i) e l)
    \<and> length ys = length xs \<and> take (j - i) ys = sub xs i j"
proof -
  define ys where "ys = (if i > 0 then overlay xs 0 (sub xs i j) else xs)"
  have "length ys = length xs" "take (j - i) ys = sub xs i j"
    using assms(1,2) overlay_take_fits [of 0 "sub xs i j" xs] by (auto simp: ys_def sub_def)
  moreover have "Bufio_fill rd (bufio xs s i j e l)
      = fill_tries maxConsecutiveEmptyReads rd (bufio ys s 0 (j - i) e l)"
    using assms
    by (auto simp: Bufio_fill_def ys_def go_slice_def go_copy_def min_def simp flip: of_nat_diff)
  ultimately show ?thesis by blast
qed

context gio_source
begin

abbreviation ok :: "('r, 'a) bufio_reader \<Rightarrow> bool" where
  "ok \<equiv> bufio_ok rest reader_inv stop"

lemma fill_tries_ok:
  assumes "j < length xs" "reader_inv s" "k = 0 \<Longrightarrow> stop ErrNoProgress (rest s)"
  shows "\<exists>xs' s' j' e'. fill_tries k read_call (bufio xs s i j e l) = Inr (bufio xs' s' i j' e' l)
    \<and> length xs' = length xs \<and> j \<le> j' \<and> j' \<le> length xs \<and> take j xs' = take j xs
    \<and> sub xs' j j' @ rest s' = rest s \<and> reader_inv s'
    \<and> (e' = e \<and> j < j' \<or> (\<exists>x. e' = Some x \<and> stop x (rest s')))"
  using assms
proof (induction k arbitrary: xs s)
  case 0
  then show ?case by (intro exI [of _ xs] exI [of _ s] exI [of _ j]) auto
next
  case (Suc k)
  let ?p = "sub xs j (length xs)"
  have p: "?p \<noteq> []" "length ?p = length xs - j" using Suc.prems(1) by (auto simp: sub_def)
  obtain n e1 q s1 where rd: "read_call s ?p = Inr ((int n, e1, q), s1)" "reader_inv s1"
    "n \<le> length xs - j" "n \<le> length (rest s)" "length q = length xs - j"
    "take n q = take n (rest s)" "rest s1 = drop n (rest s)" "\<forall>x. e1 = Some x \<longrightarrow> stop x (rest s1)"
    "n = 0 \<and> e1 = None \<longrightarrow> stop ErrNoProgress (rest s1)"
    using source_ok [OF Suc.prems(2) p(1)] unfolding p(2) by blast
  define ys where "ys = overlay xs j q"
  have ys: "length ys = length xs" "take j ys = take j xs" "sub ys j (j + n) = take n (rest s)"
    using Suc.prems(1) rd(3,5,6) by (simp_all add: ys_def overlay_sub)
  then have got: "sub ys j (j + n) @ rest s1 = rest s" using rd(7) by simp
  have run: "fill_tries (Suc k) read_call (bufio xs s i j e l) =
      (if e1 \<noteq> None then Inr (bufio ys s1 i (j + n) e1 l) else if n > 0 then Inr (bufio ys s1 i (j + n) e l)
       else fill_tries k read_call (bufio ys s1 i (j + n) e l))"
    using Suc.prems(1) rd(1) p(2) by (simp add: go_slice_def ys_def flip: of_nat_add)
  show ?case
  proof (cases "n = 0 \<and> e1 = None")
    case True
    with Suc.IH [of ys s1] Suc.prems(1) rd(2,9) ys show ?thesis
      unfolding run using rd(7) by auto
  next
    case False
    with run got ys rd(2,3,8) Suc.prems(1) show ?thesis
      by (intro exI [of _ ys] exI [of _ s1] exI [of _ "j + n"]) auto
  qed
qed

lemma fill_ok:
  assumes "ok b" "Bufio_Buffered b < Bufio_Size b"
  shows "\<exists>b'. Bufio_fill read_call b = Inr b' \<and> ok b' \<and> stream rest b' = stream rest b \<and> br_r b' = 0
    \<and> Bufio_Size b' = Bufio_Size b \<and> br_lastItem b' = br_lastItem b
    \<and> Bufio_Buffered b \<le> Bufio_Buffered b'
    \<and> (br_err b' = br_err b \<and> Bufio_Buffered b < Bufio_Buffered b' \<or> br_err b' \<noteq> None)"
proof -
  obtain xs s i j e l where b: "b = bufio xs s i j e l" "i \<le> j" "j \<le> length xs" "xs \<noteq> []" "reader_inv s"
    "\<And>x. e = Some x \<Longrightarrow> stop x (rest s)" by (rule bufio_okE [OF assms(1)]) (rule that)
  have lt: "j - i < length xs" using assms(2) b(1,2) by (simp add: Bufio_Buffered_def)
  obtain ys where run: "Bufio_fill read_call b = fill_tries maxConsecutiveEmptyReads read_call (bufio ys s 0 (j - i) e l)"
    and ys: "length ys = length xs" "take (j - i) ys = sub xs i j"
    using fill_run [OF b(2,3) lt, of read_call s e l] unfolding b(1) by blast
  obtain xs' s' j' e' where f: "Bufio_fill read_call b = Inr (bufio xs' s' 0 j' e' l)"
    "length xs' = length xs" "j - i \<le> j'" "j' \<le> length xs" "take (j - i) xs' = take (j - i) ys"
    "sub xs' (j - i) j' @ rest s' = rest s" "reader_inv s'"
    "e' = e \<and> j - i < j' \<or> (\<exists>x. e' = Some x \<and> stop x (rest s'))"
    using fill_tries_ok [of "j - i" ys s maxConsecutiveEmptyReads 0 e l] lt ys(1) b(5)
    unfolding run by (auto simp: maxConsecutiveEmptyReads_def)
  have "sub xs' 0 j' = sub xs i j @ sub xs' (j - i) j'"
    using sub_append [of 0 "j - i" j' xs'] f(3,5) ys(2) by (simp add: sub_from_start)
  then have st: "sub xs' 0 j' @ rest s' = sub xs i j @ rest s" using f(6) by simp
  have "rest s' = drop (j' - (j - i)) (rest s)"
    using arg_cong [OF f(6), of "drop (j' - (j - i))"] f(2-4) by simp
  then have "stop x (rest s')" if "e = Some x" for x using stop_later [OF b(6) [OF that]] by simp
  with f st b show ?thesis
    by (intro exI [of _ "bufio xs' s' 0 j' e' l"]) (auto simp: Bufio_Buffered_def)
qed

end

section \<open>What the operations deliver\<close>

lemma copyOut_ok:
  assumes "i < j" "j \<le> length xs" "p \<noteq> []"
  shows "\<exists>n q x. Bufio_copyOut (bufio xs s i j e l) p = Inr ((int n, None, q), bufio xs s (i + n) j e (Some x))
    \<and> 0 < n \<and> i + n \<le> j \<and> n \<le> length p \<and> length q = length p \<and> take n q = sub xs i (i + n)"
proof -
  define n where "n = min (length p) (j - i)"
  have n: "0 < n" "i + n \<le> j" "n \<le> length p" "i + n \<le> length xs"
    using assms by (auto simp: n_def min_def)
  have cp: "take n (overlay p 0 (take (length p) (sub xs i j))) = sub xs i (i + n)"
  proof -
    have len: "length (take (length p) (sub xs i j)) = n" using assms(2) by (simp add: n_def)
    have "take n (overlay p 0 (take (length p) (sub xs i j))) = take (length p) (sub xs i j)"
      using overlay_take_fits [of 0 "take (length p) (sub xs i j)" p] n(3) unfolding len by simp
    also have "\<dots> = sub xs i (min (i + length p) j)" by (rule take_sub)
    also have "min (i + length p) j = i + n" using assms(1) by (auto simp: n_def min_def)
    finally show ?thesis .
  qed
  have "Bufio_copyOut (bufio xs s i j e l) p
      = Inr ((int n, None, overlay p 0 (take (length p) (sub xs i j))), bufio xs s (i + n) j e (Some (xs ! (i + n - 1))))"
  proof -
    have "go_slice xs (int i) (int j) = Inr (sub xs i j)" using assms by (simp add: go_slice_def)
    moreover have "go_copy p 0 (int (length p)) (sub xs i j)
        = Inr (int n, overlay p 0 (take (length p) (sub xs i j)))"
      using assms(1,2) by (simp add: go_copy_def n_def min_def of_nat_diff)
    moreover have "go_index xs (int (i + n) - 1) = Inr (xs ! (i + n - 1))"
      using n by (simp add: go_index_def nat_diff_distrib nat_add_distrib)
    ultimately show ?thesis by (simp add: Bufio_copyOut_def Let_def flip: of_nat_add)
  qed
  with n cp show ?thesis by auto
qed

context gio_source
begin

text \<open>What \<open>Read\<close> may give for \<open>p\<close>.\<close>

definition reads ::
  "('r, 'a) bufio_reader \<Rightarrow> 'a list \<Rightarrow> go_panic + ((int \<times> go_error option \<times> 'a list) \<times> ('r, 'a) bufio_reader) \<Rightarrow> bool" where
  "reads b p m \<longleftrightarrow> (\<exists>n e q b'. m = Inr ((int n, e, q), b') \<and> ok b'
        \<and> Bufio_Size b' = Bufio_Size b \<and> n \<le> length p \<and> n \<le> length (stream rest b) \<and> length q = length p
        \<and> take n q = take n (stream rest b) \<and> stream rest b' = drop n (stream rest b)
        \<and> (\<forall>x. e = Some x \<longrightarrow> stop x (stream rest b'))
        \<and> (n = 0 \<and> e = None \<longrightarrow> stop ErrNoProgress (stream rest b')))"

lemma Read_buffered:
  assumes "b = bufio xs s i j e l" "ok b" "p \<noteq> []" "i < j"
  shows "reads b p (Bufio_Read read_call b p)"
proof -
  have b: "j \<le> length xs" using assms(1,2) by simp
  from copyOut_ok [OF assms(4) b assms(3), of s e l] obtain n q x where
    c: "Bufio_copyOut b p = Inr ((int n, None, q), bufio xs s (i + n) j e (Some x))"
    "0 < n" "i + n \<le> j" "n \<le> length p" "length q = length p" "take n q = sub xs i (i + n)"
    unfolding assms(1) by blast
  have "sub xs i j = sub xs i (i + n) @ sub xs (i + n) j" using sub_append [of i "i + n" j xs] c(3) by simp
  moreover have "length (sub xs i (i + n)) = n" using c(3) b by simp
  ultimately show ?thesis
    using assms c b unfolding reads_def
    by (intro exI [of _ n] exI [of _ None] exI) (auto simp: Bufio_Read_def)
qed

text \<open>With an empty buffer a large \<open>p\<close> goes to the client's reader itself.\<close>

lemma Read_direct:
  assumes "b = bufio xs s i i None l" "ok b" "p \<noteq> []" "length xs \<le> length p"
  shows "reads b p (Bufio_Read read_call b p)"
proof -
  have r: "reader_inv s" using assms(1,2) by simp
  obtain n e1 q s1 where rd: "read_call s p = Inr ((int n, e1, q), s1)" "reader_inv s1" "n \<le> length p"
    "n \<le> length (rest s)" "length q = length p" "take n q = take n (rest s)" "rest s1 = drop n (rest s)"
    "\<forall>x. e1 = Some x \<longrightarrow> stop x (rest s1)" "n = 0 \<and> e1 = None \<longrightarrow> stop ErrNoProgress (rest s1)"
    using source_ok [OF r assms(3)] by blast
  define l' where "l' = (if n > 0 then Some (q ! nat (int n - 1)) else l)"
  have "Bufio_Read read_call b p = Inr ((int n, e1, q), bufio xs s1 i i None l')"
    using assms rd(1,3,5)
    by (simp add: Bufio_Read_def Bufio_readErr_def go_index_def overlay_all Let_def l'_def)
  with rd assms(1,2) show ?thesis unfolding reads_def
    by (intro exI [of _ n] exI [of _ e1] exI [of _ q] exI [of _ "bufio xs s1 i i None l'"]) simp
qed

text \<open>Otherwise one read fills the buffer, and the front of it is copied out.\<close>

lemma Read_one:
  assumes "b = bufio xs s i i None l" "ok b" "p \<noteq> []" "length p < length xs"
  shows "reads b p (Bufio_Read read_call b p)"
proof -
  have b: "i \<le> length xs" "xs \<noteq> []" "reader_inv s" using assms(1,2) by simp_all
  obtain n e1 q s1 where rd: "read_call s xs = Inr ((int n, e1, q), s1)" "reader_inv s1" "n \<le> length xs"
    "n \<le> length (rest s)" "length q = length xs" "take n q = take n (rest s)" "rest s1 = drop n (rest s)"
    "\<forall>x. e1 = Some x \<longrightarrow> stop x (rest s1)" "n = 0 \<and> e1 = None \<longrightarrow> stop ErrNoProgress (rest s1)"
    using source_ok [OF b(3,2)] by blast
  show ?thesis
  proof (cases "n = 0")
    case True
    with rd assms b show ?thesis unfolding reads_def
      by (intro exI [of _ 0] exI [of _ e1] exI [of _ p])
        (auto simp: Bufio_Read_def Bufio_readErr_def overlay_all)
  next
    case False
    then obtain k p' x where
      c: "Bufio_copyOut (bufio q s1 0 n e1 l) p = Inr ((int k, None, p'), bufio q s1 k n e1 (Some x))"
      "0 < k" "k \<le> n" "k \<le> length p" "length p' = length p" "take k p' = sub q 0 k"
      using copyOut_ok [of 0 n q p s1 e1 l] rd(3,5) assms(3) by auto
    have "rest s = take n q @ rest s1" using rd(6,7) by simp
    then have "sub q k n @ rest s1 = drop k (rest s)" using c(3) rd(3,5) by (simp add: sub_def drop_take)
    moreover have "take k p' = take k (rest s)"
      using c(3,6) arg_cong [OF rd(6), of "take k"] by (simp add: sub_from_start min_def)
    ultimately show ?thesis
      using c rd assms b False unfolding reads_def
      by (intro exI [of _ k] exI [of _ None] exI [of _ p'] exI) (auto simp: Bufio_Read_def overlay_all)
  qed
qed

lemma Read_ok:
  assumes "ok b" "p \<noteq> []"
  shows "reads b p (Bufio_Read read_call b p)"
proof -
  obtain xs s i j e l where b: "b = bufio xs s i j e l" "i \<le> j"
    by (rule bufio_okE [OF assms(1)]) (rule that)
  consider (buffered) "i < j" | (pending) x where "i = j" "e = Some x"
    | (direct) "i = j" "e = None" "length xs \<le> length p" | (one) "i = j" "e = None" "length p < length xs"
    using b(2) by (cases e) (fastforce simp: not_le)+
  then show ?thesis
  proof cases
    case buffered
    with Read_buffered [OF b(1) assms] show ?thesis .
  next
    case pending
    with b assms show ?thesis unfolding reads_def
      by (intro exI [of _ 0] exI) (auto simp: Bufio_Read_def Bufio_readErr_def)
  next
    case direct
    from Read_direct [OF b(1) [folded direct(1), unfolded direct(2)] assms direct(3)] show ?thesis .
  next
    case one
    from Read_one [OF b(1) [folded one(1), unfolded one(2)] assms one(3)] show ?thesis .
  qed
qed

lemma bufio_is_source: "gio_source (Bufio_Read read_call) (stream rest) ok stop"
  by unfold_locales (use Read_ok [unfolded reads_def] in blast, rule stop_later)

lemma ReadItem_ok:
  assumes "ok b"
  shows "\<exists>b'. ok b' \<and> Bufio_Size b' = Bufio_Size b \<and> ((\<exists>c. Bufio_ReadItem z read_call b = Some (Inr ((c, None), b')) \<and> stream rest b = c # stream rest b'
        \<and> br_lastItem b' = Some c)
    \<or> (\<exists>x. Bufio_ReadItem z read_call b = Some (Inr ((z, Some x), b')) \<and> stream rest b' = stream rest b
        \<and> buffered b' = [] \<and> stop x (stream rest b')))"
proof -
  have item: "\<exists>b' c. Bufio_ReadItem_loop z read_call b1 = Some (Inr ((c, None), b')) \<and> ok b'
      \<and> Bufio_Size b' = Bufio_Size b1 \<and> stream rest b1 = c # stream rest b' \<and> br_lastItem b' = Some c" if o: "ok b1" "br_r b1 \<noteq> br_w b1" for b1
  proof -
    obtain xs s i j e l where b: "b1 = bufio xs s i j e l" "i \<le> j" "j \<le> length xs" "xs \<noteq> []" "reader_inv s"
      "\<And>x. e = Some x \<Longrightarrow> stop x (rest s)" by (rule bufio_okE [OF o(1)]) (rule that)
    then have "i < j" using o(2) by simp
    with b have "Bufio_ReadItem_loop z read_call b1 = Some (Inr ((xs ! i, None), bufio xs s (Suc i) j e (Some (xs ! i))))"
      by (subst Bufio_ReadItem_loop.simps) (simp add: go_index_def)
    then show ?thesis
      using b \<open>i < j\<close> sub_Cons [of i j xs] by auto
  qed
  have pend: "\<exists>b'. Bufio_ReadItem_loop z read_call b1 = Some (Inr ((z, Some x), b')) \<and> ok b'
      \<and> Bufio_Size b' = Bufio_Size b1 \<and> stream rest b' = stream rest b1 \<and> buffered b' = [] \<and> stop x (stream rest b')"
    if o: "ok b1" "br_r b1 = br_w b1" "br_err b1 = Some x" for b1 x
  proof -
    obtain xs s i j e l where b: "b1 = bufio xs s i j e l" "i \<le> j" "j \<le> length xs" "xs \<noteq> []" "reader_inv s"
      "\<And>x. e = Some x \<Longrightarrow> stop x (rest s)" by (rule bufio_okE [OF o(1)]) (rule that)
    with o(2,3) show ?thesis
      by (subst Bufio_ReadItem_loop.simps) (simp add: Bufio_readErr_def)
  qed
  show ?thesis
  proof (cases "br_r b = br_w b \<and> br_err b = None")
    case True
    then have "Bufio_Buffered b < Bufio_Size b" using assms by (simp add: Bufio_Buffered_def bufio_ok_def)
    from fill_ok [OF assms this] obtain b1 where
      f: "Bufio_fill read_call b = Inr b1" "ok b1" "stream rest b1 = stream rest b" "Bufio_Size b1 = Bufio_Size b"
      "Bufio_Buffered b < Bufio_Buffered b1 \<or> br_err b1 \<noteq> None" by blast
    then have "br_r b1 \<noteq> br_w b1 \<or> br_r b1 = br_w b1 \<and> (\<exists>x. br_err b1 = Some x)"
      using True by (auto simp: Bufio_Buffered_def)
    moreover have "Bufio_ReadItem z read_call b = Bufio_ReadItem_loop z read_call b1"
      unfolding Bufio_ReadItem_def using True f(1) by (subst Bufio_ReadItem_loop.simps) simp
    ultimately show ?thesis using item [OF f(2)] pend [OF f(2)] f(3,4) by metis
  next
    case False
    then consider "br_r b \<noteq> br_w b" | x where "br_r b = br_w b" "br_err b = Some x" by auto
    then show ?thesis
      unfolding Bufio_ReadItem_def by cases (use item [OF assms] pend [OF assms] in blast)+
  qed
qed

end

lemma bufio_views [simp]:
  "stream rest (b\<lparr>br_err := e\<rparr>) = stream rest b" "stream rest (b\<lparr>br_lastItem := l\<rparr>) = stream rest b"
  "buffered (b\<lparr>br_err := e\<rparr>) = buffered b" "buffered (b\<lparr>br_lastItem := l\<rparr>) = buffered b"
  "Bufio_Size (b\<lparr>br_err := e\<rparr>) = Bufio_Size b" "Bufio_Size (b\<lparr>br_lastItem := l\<rparr>) = Bufio_Size b"
  by (simp_all add: stream_def buffered_def Bufio_Size_def)

context gio_source
begin

lemma ok_clear: "ok b \<Longrightarrow> ok (b\<lparr>br_err := None\<rparr>)" "ok b \<Longrightarrow> ok (b\<lparr>br_lastItem := l\<rparr>)"
  by (simp_all add: bufio_ok_def)

lemma Peek_loop_ok:
  assumes "ok b"
  shows "\<exists>b'. Bufio_Peek_loop read_call n b = Some (Inr b') \<and> ok b' \<and> stream rest b' = stream rest b
    \<and> Bufio_Size b' = Bufio_Size b \<and> br_lastItem b' = br_lastItem b
    \<and> \<not> (Bufio_Buffered b' < n \<and> Bufio_Buffered b' < Bufio_Size b' \<and> br_err b' = None)"
  using assms
proof (induction "nat (Bufio_Size b - Bufio_Buffered b)" arbitrary: b rule: less_induct)
  case less
  show ?case
  proof (cases "Bufio_Buffered b < n \<and> Bufio_Buffered b < Bufio_Size b \<and> br_err b = None")
    case False
    then have "Bufio_Peek_loop read_call n b = Some (Inr b)"
      by (subst Bufio_Peek_loop.simps) (auto simp: Bufio_Buffered_def)
    with False less.prems show ?thesis by blast
  next
    case True
    then have "Bufio_Buffered b < Bufio_Size b" by blast
    from fill_ok [OF less.prems this] obtain b1 where
      f: "Bufio_fill read_call b = Inr b1" "ok b1" "stream rest b1 = stream rest b"
      "Bufio_Size b1 = Bufio_Size b" "br_lastItem b1 = br_lastItem b" "Bufio_Buffered b \<le> Bufio_Buffered b1"
      "br_err b1 = br_err b \<and> Bufio_Buffered b < Bufio_Buffered b1 \<or> br_err b1 \<noteq> None" by blast
    have step: "Bufio_Peek_loop read_call n b = Bufio_Peek_loop read_call n b1"
      using True f(1) by (subst Bufio_Peek_loop.simps) (simp add: Bufio_Buffered_def)
    show ?thesis
    proof (cases "br_err b1 = None")
      case True
      then have "nat (Bufio_Size b1 - Bufio_Buffered b1) < nat (Bufio_Size b - Bufio_Buffered b)"
        using f(4,7) True \<open>Bufio_Buffered b < n \<and> _\<close> by simp
      from less.hyps [OF this f(2)] show ?thesis unfolding step f(3-5) .
    next
      case False
      then have "Bufio_Peek_loop read_call n b1 = Some (Inr b1)"
        by (subst Bufio_Peek_loop.simps) auto
      with step f False show ?thesis by auto
    qed
  qed
qed

lemma stream_window:
  assumes "ok b" "0 \<le> k" "k \<le> Bufio_Buffered b"
  shows "go_slice (br_buf b) (br_r b) (br_r b + k) = Inr (take (nat k) (stream rest b))"
    and "nat k \<le> length (stream rest b)"
proof -
  obtain xs s i j e l where b: "b = bufio xs s i j e l" "i \<le> j" "j \<le> length xs" "xs \<noteq> []" "reader_inv s"
    "\<And>x. e = Some x \<Longrightarrow> stop x (rest s)" by (rule bufio_okE [OF assms(1)]) (rule that)
  define m where "m = nat k"
  have k: "k = int m" "i + m \<le> j" using assms(2,3) b(1,2) by (simp_all add: m_def Bufio_Buffered_def)
  have "take m (sub xs i j @ rest s) = sub xs i (i + m)"
  proof -
    have "m \<le> length (sub xs i j)" using k(2) b(3) by simp
    then show ?thesis using k(2) by (simp add: take_sub min_def)
  qed
  with b k show "go_slice (br_buf b) (br_r b) (br_r b + k) = Inr (take (nat k) (stream rest b))"
    by (simp add: go_slice_def flip: of_nat_add)
  show "nat k \<le> length (stream rest b)" using b k by simp
qed

lemma buffered_ok:
  assumes "ok b"
  shows "go_slice (br_buf b) (br_r b) (br_w b) = Inr (buffered b)" "int (length (buffered b)) = Bufio_Buffered b"
    "buffered b = take (length (buffered b)) (stream rest b)"
proof -
  obtain xs s i j e l where b: "b = bufio xs s i j e l" "i \<le> j" "j \<le> length xs" "xs \<noteq> []" "reader_inv s"
    "\<And>x. e = Some x \<Longrightarrow> stop x (rest s)" by (rule bufio_okE [OF assms(1)]) (rule that)
  then show "go_slice (br_buf b) (br_r b) (br_w b) = Inr (buffered b)"
    "int (length (buffered b)) = Bufio_Buffered b" "buffered b = take (length (buffered b)) (stream rest b)"
    by (simp_all add: go_slice_def Bufio_Buffered_def)
qed

lemma Peek_ok:
  assumes "ok b" "0 \<le> n"
  shows "\<exists>ys e b'. Bufio_Peek read_call b n = Some (Inr ((ys, e), b')) \<and> ok b' \<and> Bufio_Size b' = Bufio_Size b
    \<and> stream rest b' = stream rest b \<and> ys = take (length ys) (stream rest b) \<and> br_lastItem b' = None
    \<and> (if n > Bufio_Size b then e = Some ErrBufferFull
         \<and> (int (length ys) = Bufio_Size b \<or> (\<exists>x. stop x (rest (br_rd b')) \<and> ys = buffered b'))
       else e = None \<and> int (length ys) = n
         \<or> (\<exists>x. e = Some x \<and> int (length ys) < n \<and> stop x (rest (br_rd b')) \<and> ys = buffered b'))"
proof -
  from Peek_loop_ok [OF ok_clear(2) [OF assms(1)], of n None] obtain b1 where
    b1: "Bufio_Peek_loop read_call n (b\<lparr>br_lastItem := None\<rparr>) = Some (Inr b1)" "ok b1"
    "stream rest b1 = stream rest b" "Bufio_Size b1 = Bufio_Size b" "br_lastItem b1 = None"
    "\<not> (Bufio_Buffered b1 < n \<and> Bufio_Buffered b1 < Bufio_Size b1 \<and> br_err b1 = None)"
    by auto
  note bd = buffered_ok [OF b1(2)]
  have le: "Bufio_Buffered b1 \<le> Bufio_Size b1" using b1(2) by (simp add: bufio_ok_def Bufio_Buffered_def)
  consider (big) "n > Bufio_Size b" | (short) x where "n \<le> Bufio_Size b" "Bufio_Buffered b1 < n" "br_err b1 = Some x"
    | (enough) "n \<le> Bufio_Size b" "n \<le> Bufio_Buffered b1"
    using b1(4,6) by fastforce
  then show ?thesis
  proof cases
    case big
    then have "Bufio_Peek read_call b n = Some (Inr ((buffered b1, Some ErrBufferFull), b1))"
      using b1(1,4) bd(1) assms(2) by (simp add: Bufio_Peek_def)
    moreover have "Bufio_Buffered b1 = Bufio_Size b \<or> (\<exists>x. stop x (rest (br_rd b1)))"
      using b1(2,4,6) le big unfolding bufio_ok_def by fastforce
    ultimately show ?thesis using b1 bd big by (intro exI [of _ "buffered b1"] exI) auto
  next
    case short
    define b2 where "b2 = b1\<lparr>br_err := None\<rparr>"
    have b2: "ok b2" "stream rest b2 = stream rest b" "buffered b2 = buffered b1" "br_rd b2 = br_rd b1"
      "br_lastItem b2 = None" "br_buf b2 = br_buf b1" "br_r b2 = br_r b1" "Bufio_Size b2 = Bufio_Size b"
      using b1(3-5) ok_clear(1) [OF b1(2)] by (simp_all add: b2_def)
    have "Bufio_Peek read_call b n = Some (Inr ((buffered b1, Some x), b2))"
      using short b1(1,4) bd(1) assms(2)
      by (simp add: Bufio_Peek_def Bufio_readErr_def Bufio_Buffered_def b2_def Let_def)
    moreover have "stop x (rest (br_rd b2))" using b1(2) short(3) by (simp add: bufio_ok_def b2_def)
    ultimately show ?thesis
      using short bd b2 b1(3) by (intro exI [of _ "buffered b1"] exI [of _ "Some x"] exI [of _ b2]) auto
  next
    case enough
    then have "Bufio_Peek read_call b n = Some (Inr ((take (nat n) (stream rest b), None), b1))"
      using b1(1,3,4) assms(2) stream_window(1) [OF b1(2), of n]
      by (simp add: Bufio_Peek_def Bufio_Buffered_def Let_def)
    then show ?thesis
      using enough assms(2) b1 stream_window(2) [OF b1(2), of n]
      by (intro exI [of _ "take (nat n) (stream rest b)"] exI [of _ None] exI [of _ b1]) (auto simp: min_def)
  qed
qed

lemma advance_ok:
  assumes "ok b" "0 \<le> k" "k \<le> Bufio_Buffered b"
  shows "ok (b\<lparr>br_r := br_r b + k\<rparr>)" "stream rest (b\<lparr>br_r := br_r b + k\<rparr>) = drop (nat k) (stream rest b)"
    "Bufio_Buffered (b\<lparr>br_r := br_r b + k\<rparr>) = Bufio_Buffered b - k"
    "k = Bufio_Buffered b \<Longrightarrow> stream rest (b\<lparr>br_r := br_r b + k\<rparr>) = rest (br_rd b)"
proof -
  obtain xs s i j e l where b: "b = bufio xs s i j e l" "i \<le> j" "j \<le> length xs" "xs \<noteq> []" "reader_inv s"
    "\<And>x. e = Some x \<Longrightarrow> stop x (rest s)" by (rule bufio_okE [OF assms(1)]) (rule that)
  define m where "m = nat k"
  have k: "k = int m" "i + m \<le> j" using assms(2,3) b(1,2) by (simp_all add: m_def Bufio_Buffered_def)
  have all: "i + m = j" if "k = Bufio_Buffered b" using that k b(1) by (simp add: Bufio_Buffered_def)
  have upd: "b\<lparr>br_r := br_r b + k\<rparr> = bufio xs s (i + m) j e l"
    using b(1) k(1) by (simp flip: of_nat_add)
  show "ok (b\<lparr>br_r := br_r b + k\<rparr>)" "stream rest (b\<lparr>br_r := br_r b + k\<rparr>) = drop (nat k) (stream rest b)"
    "Bufio_Buffered (b\<lparr>br_r := br_r b + k\<rparr>) = Bufio_Buffered b - k"
    unfolding upd using b k by (simp_all add: drop_sub Bufio_Buffered_def)
  assume "k = Bufio_Buffered b"
  from all [OF this] show "stream rest (b\<lparr>br_r := br_r b + k\<rparr>) = rest (br_rd b)"
    unfolding upd by (simp add: b(1))
qed

lemma Discard_loop_ok:
  assumes "ok b" "0 < remain"
  shows "\<exists>k e b'. Bufio_Discard_loop read_call n remain b = Some (Inr ((n - remain + int k, e), b')) \<and> ok b'
    \<and> Bufio_Size b' = Bufio_Size b \<and> k \<le> length (stream rest b) \<and> stream rest b' = drop k (stream rest b)
    \<and> (e = None \<and> int k = remain \<or> (\<exists>x. e = Some x \<and> int k < remain \<and> stop x (stream rest b')))"
  using assms
proof (induction "nat remain" arbitrary: b remain rule: less_induct)
  case less
  obtain b1 where b1: "(if Bufio_Buffered b = 0 then Bufio_fill read_call b else Inr b) = Inr b1" "ok b1"
    "stream rest b1 = stream rest b" "Bufio_Buffered b1 > 0 \<or> br_err b1 \<noteq> None" "Bufio_Size b1 = Bufio_Size b"
  proof (cases "Bufio_Buffered b = 0")
    case True
    with less.prems(1) have "Bufio_Buffered b < Bufio_Size b" by (simp add: bufio_ok_def)
    from fill_ok [OF less.prems(1) this] True that show thesis by auto
  next
    case False
    with less.prems(1) have "Bufio_Buffered b > 0" by (auto simp: bufio_ok_def Bufio_Buffered_def)
    with less.prems(1) that show thesis by simp
  qed
  define skip where "skip = (if Bufio_Buffered b1 > remain then remain else Bufio_Buffered b1)"
  define b2 where "b2 = b1\<lparr>br_r := br_r b1 + skip\<rparr>"
  have skip: "0 \<le> skip" "skip \<le> Bufio_Buffered b1" "skip \<le> remain"
    using less.prems(2) b1(2) by (auto simp: skip_def bufio_ok_def Bufio_Buffered_def)
  note b2 = advance_ok [OF b1(2) skip(1,2), folded b2_def, unfolded b1(3)]
  have len: "nat skip \<le> length (stream rest b)"
    using stream_window(2) [OF b1(2) skip(1,2)] by (simp add: b1(3))
  have err: "br_err b2 = br_err b1" "br_rd b2 = br_rd b1" by (simp_all add: b2_def)
  have size: "Bufio_Size b2 = Bufio_Size b" using b1(5) by (simp add: b2_def Bufio_Size_def)
  have run: "Bufio_Discard_loop read_call n remain b =
      (if remain - skip = 0 then Some (Inr ((n, None), b2))
       else if br_err b2 \<noteq> None then Some (Inr ((n - (remain - skip), br_err b2), b2\<lparr>br_err := None\<rparr>))
       else Bufio_Discard_loop read_call n (remain - skip) b2)"
    by (subst Bufio_Discard_loop.simps) (simp add: b1(1) Let_def skip_def b2_def Bufio_readErr_def)
  consider (all) "skip = remain" | (err) x where "skip < remain" "br_err b1 = Some x"
    | (more) "skip < remain" "br_err b1 = None"
    using skip(3) by fastforce
  then show ?case
  proof cases
    case all
    with run b2 len size less.prems(2) show ?thesis
      by (intro exI [of _ "nat skip"] exI [of _ None] exI [of _ b2]) simp
  next
    case (err x)
    then have "stream rest b2 = rest (br_rd b1)" using b2(4) by (auto simp: skip_def split: if_splits)
    then have "stop x (stream rest b2)" using b1(2) err(2) by (simp add: bufio_ok_def)
    moreover have "ok (b2\<lparr>br_err := None\<rparr>)" by (rule ok_clear(1) [OF b2(1)])
    ultimately show ?thesis
      using run b2 len size err skip(1) \<open>br_err b2 = br_err b1\<close>
      by (intro exI [of _ "nat skip"] exI [of _ "Some x"] exI [of _ "b2\<lparr>br_err := None\<rparr>"]) simp
  next
    case more
    then have pos: "skip > 0" using b1(4) less.prems(2) by (auto simp: skip_def)
    with more skip(3) less.hyps [of "remain - skip" b2] b2(1) obtain k e b' where
      "Bufio_Discard_loop read_call n (remain - skip) b2 = Some (Inr ((n - (remain - skip) + int k, e), b'))"
      "ok b'" "Bufio_Size b' = Bufio_Size b2" "k \<le> length (stream rest b2)" "stream rest b' = drop k (stream rest b2)"
      "e = None \<and> int k = remain - skip \<or> (\<exists>x. e = Some x \<and> int k < remain - skip \<and> stop x (stream rest b'))"
      by (metis diff_gt_0_iff_gt diff_less nat_mono_iff diff_left_imp_eq zless_nat_conj less.prems(2) diff_less_eq less_add_same_cancel1)
    with run more b2 len size skip(1) \<open>br_err b2 = br_err b1\<close> show ?thesis
      by (intro exI [of _ "nat skip + k"] exI [of _ e] exI [of _ b']) (auto simp: algebra_simps)
  qed
qed

text \<open>One round of \<open>WriteTo\<close>: the buffer goes to the writer, new items come in.\<close>

lemma round_ok:
  assumes "ok b" "wi w" and wr: "gio_writer wr got wi faults"
  obtains (panic) f where "Bufio_writeBuf wr b w = Inl f" "f \<in> faults"
  | (round) k w1 b1 b2 where "Bufio_writeBuf wr b w = Inr ((int k, None), w1, b1)" "Bufio_Buffered b = int k"
      "Bufio_Buffered b1 < Bufio_Size b1" "Bufio_fill read_call b1 = Inr b2" "ok b2" "wi w1"
      "k \<le> length (stream rest b)" "got w1 = got w @ take k (stream rest b)"
      "stream rest b2 = drop k (stream rest b)" "Bufio_Buffered b2 > 0 \<or> br_err b2 \<noteq> None"
      "ok b1" "Bufio_Buffered b1 = 0" "stream rest b1 = drop k (stream rest b)"
proof (cases "wr w (buffered b)")
  case (Inl f)
  have "f \<in> faults" by (rule gio_writer.write_panic [OF wr assms(2) Inl])
  with Inl show thesis using buffered_ok(1) [OF assms(1)] by (intro panic) (simp_all add: Bufio_writeBuf_def)
next
  case (Inr y)
  note bd = buffered_ok [OF assms(1)]
  define k where "k = length (buffered b)"
  obtain res w1 where y: "wr w (buffered b) = Inr (res, w1)" using Inr by (cases y) auto
  from gio_writer.write_ok [OF wr assms(2) y]
  have w1: "res = (int k, None)" "wi w1" "got w1 = got w @ buffered b" by (simp_all add: k_def)
  have k: "Bufio_Buffered b = int k" using bd(2) by (simp add: k_def)
  have le: "0 \<le> int k" "int k \<le> Bufio_Buffered b" by (simp_all add: k)
  define b1 where "b1 = b\<lparr>br_r := br_r b + int k\<rparr>"
  note b1 = advance_ok [OF assms(1) le, folded b1_def]
  have lt: "Bufio_Buffered b1 < Bufio_Size b1" using b1(1,3) by (simp add: bufio_ok_def k)
  from fill_ok [OF b1(1) this] obtain b2 where b2: "Bufio_fill read_call b1 = Inr b2" "ok b2"
    "stream rest b2 = stream rest b1" "Bufio_Buffered b2 > 0 \<or> br_err b2 \<noteq> None"
    using b1(3) by (auto simp: k)
  have "Bufio_writeBuf wr b w = Inr ((int k, None), w1, b1)"
    using bd(1) y w1(1) by (simp add: Bufio_writeBuf_def b1_def)
  from round [OF this k lt b2(1,2) w1(2)] show thesis
    using w1(3) b1(1-3) b2(3,4) bd(3) k stream_window(2) [OF assms(1) le] by (simp add: k_def [symmetric])
qed

text \<open>The loop of \<open>WriteTo\<close> into a writer that accepts everything or panics.\<close>

lemma WriteTo_loop_ok:
  assumes "ok b" "Bufio_Buffered b > 0 \<or> br_err b \<noteq> None" "wi w" and wr: "gio_writer wr got wi faults"
  shows "(\<exists>f. Bufio_WriteTo_loop read_call wr b w n = Some (Inl f) \<and> f \<in> faults)
    \<or> (\<exists>k x w' b'. Bufio_WriteTo_loop read_call wr b w n
          = Some (Inr ((n + int k, if x = EOF then None else Some x), w', b'))
        \<and> ok b' \<and> wi w' \<and> k \<le> length (stream rest b) \<and> got w' = got w @ take k (stream rest b)
        \<and> stream rest b' = drop k (stream rest b) \<and> stop x (stream rest b'))"
  using assms(1-3)
proof (induction "length (stream rest b)" arbitrary: b w n rule: less_induct)
  case less
  show ?case
  proof (cases "Bufio_Buffered b > 0")
    case False
    then have empty: "br_r b = br_w b" "buffered b = []" using less.prems(1) buffered_ok(2) [OF less.prems(1)]
      by (auto simp: bufio_ok_def Bufio_Buffered_def)
    obtain x where x: "br_err b = Some x" using False less.prems(2) by auto
    have "Bufio_WriteTo_loop read_call wr b w n = Some (Inr ((n, if x = EOF then None else Some x), w, b\<lparr>br_err := None\<rparr>))"
      using empty x by (subst Bufio_WriteTo_loop.simps) (simp add: Bufio_readErr_def)
    moreover have "stop x (stream rest b)" using less.prems(1) x empty by (simp add: bufio_ok_def stream_def)
    ultimately show ?thesis
      using less.prems(3) ok_clear(1) [OF less.prems(1)]
      by (intro disjI2 exI [of _ 0] exI [of _ x] exI [of _ w] exI [of _ "b\<lparr>br_err := None\<rparr>"]) simp
  next
    case True
    then have lt: "br_r b < br_w b" by (simp add: Bufio_Buffered_def)
    from less.prems(1,3) wr show ?thesis
    proof (cases rule: round_ok)
      case (panic f)
      with lt show ?thesis by (subst Bufio_WriteTo_loop.simps) simp
    next
      case (round k0 w1 b1 b2)
      have run: "Bufio_WriteTo_loop read_call wr b w n = Bufio_WriteTo_loop read_call wr b2 w1 (n + int k0)"
        using lt round(1,4) by (subst Bufio_WriteTo_loop.simps) simp
      have "length (stream rest b2) < length (stream rest b)" using round(2,7,9) True by simp
      from less.hyps [OF this round(5,10,6), of "n + int k0"] show ?thesis
      proof (elim disjE exE conjE)
        fix k x w' b'
        assume "Bufio_WriteTo_loop read_call wr b2 w1 (n + int k0)
            = Some (Inr ((n + int k0 + int k, if x = EOF then None else Some x), w', b'))"
          "ok b'" "wi w'" "k \<le> length (stream rest b2)" "got w' = got w1 @ take k (stream rest b2)"
          "stream rest b' = drop k (stream rest b2)" "stop x (stream rest b')"
        then show ?thesis
          using round(7-9) take_add [of k0 k "stream rest b"]
          by (intro disjI2 exI [of _ "k0 + k"] exI [of _ x] exI [of _ w'] exI [of _ b']) (auto simp: run add_ac)
      qed (use run in auto)
    qed
  qed
qed

text \<open>Once the buffer is empty, the client's reader is all there is, and may be read past \<open>b\<close>.\<close>

lemma delegate_ok:
  assumes "ok b" "Bufio_Buffered b = 0" "transfers rest reader_inv got wi (br_rd b) w m s w'"
  shows "ok (b\<lparr>br_rd := s\<rparr>)" "stream rest (b\<lparr>br_rd := s\<rparr>) = rest s" "transfers (stream rest) ok got wi b w m (b\<lparr>br_rd := s\<rparr>) w'"
proof -
  obtain k where k: "m = int k" "k \<le> length (rest (br_rd b))" "reader_inv s" "wi w'"
    "rest s = drop k (rest (br_rd b))" "got w' = got w @ take k (rest (br_rd b))"
    using assms(3) by (auto simp: transfers_def)
  have "buffered b = []" using assms(1,2) by (simp add: buffered_def bufio_ok_def Bufio_Buffered_def)
  moreover have "Bufio_Size (b\<lparr>br_rd := s\<rparr>) = Bufio_Size b" "buffered (b\<lparr>br_rd := s\<rparr>) = buffered b"
    by (simp_all add: Bufio_Size_def buffered_def)
  ultimately show *: "ok (b\<lparr>br_rd := s\<rparr>)" "stream rest (b\<lparr>br_rd := s\<rparr>) = rest s"
    using assms(1) k(3,5) stop_later by (auto simp: bufio_ok_def stream_def)
  from \<open>buffered b = []\<close> * k show "transfers (stream rest) ok got wi b w m (b\<lparr>br_rd := s\<rparr>) w'"
    by (auto simp: transfers_def stream_def intro!: exI [of _ k])
qed

text \<open>After the first round, \<open>k0\<close> items being written, a call takes over.\<close>

lemma transfers_after:
  assumes "k0 \<le> length (stream rest b)" "got w1 = got w @ take k0 (stream rest b)"
    "stream rest b1 = drop k0 (stream rest b)" "transfers (stream rest) ok got wi b1 w1 m b' w'"
  shows "transfers (stream rest) ok got wi b w (int k0 + m) b' w'"
proof -
  obtain k where "m = int k" "k \<le> length (stream rest b1)" "ok b'" "wi w'"
    "stream rest b' = drop k (stream rest b1)" "got w' = got w1 @ take k (stream rest b1)"
    using assms(4) by (auto simp: transfers_def)
  with assms(1-3) take_add [of k0 k "stream rest b"] show ?thesis
    by (auto simp: transfers_def add_ac intro!: exI [of _ "k0 + k"])
qed

lemma WriteTo_ok:
  assumes "ok b" "wi w" and wr: "gio_writer wr got wi faults"
    and wt: "\<forall>m. wt = Some m \<longrightarrow> gio_writer_to m rest reader_inv stop got wi faults"
    and rf: "\<forall>m. rf = Some m \<longrightarrow> gio_full_reader_from m rest reader_inv stop got wi faults"
  shows "(\<exists>f. Bufio_WriteTo read_call wr wt rf b w = Some (Inl f) \<and> f \<in> faults)
    \<or> (\<exists>n e w' b'. Bufio_WriteTo read_call wr wt rf b w = Some (Inr ((n, e), w', b'))
        \<and> transfers (stream rest) ok got wi b w n b' w' \<and> ended stop e (stream rest b'))"
  using ok_clear(2) [OF assms(1), of None] assms(2) wr
proof (cases rule: round_ok)
  case (panic f)
  then show ?thesis by (simp add: Bufio_WriteTo_def)
next
  case (round k0 w1 b1 b2)
  note r1 = round(1,7,8) round(13) [unfolded bufio_views]
  have pre: "k0 \<le> length (stream rest b)" "got w1 = got w @ take k0 (stream rest b)"
    "stream rest b1 = drop k0 (stream rest b)" "stream rest b2 = drop k0 (stream rest b)"
    using round(7-9,13) by simp_all
  have inv: "reader_inv (br_rd b1)" using round(11) by (simp add: bufio_ok_def)
  consider (to) m where "wt = Some m" | (frm) m where "wt = None" "rf = Some m" | (loop) "wt = None" "rf = None"
    by (cases wt; cases rf) auto
  then show ?thesis
  proof cases
    case to
    have run: "Bufio_WriteTo read_call wr wt rf b w =
        map_option (\<lambda>x. andThen x (\<lambda>((k, e), w2, s). Inr ((int k0 + k, e), w2, b1\<lparr>br_rd := s\<rparr>))) (m (br_rd b1) w1)"
      using round(1) to by (simp add: Bufio_WriteTo_def)
    from gio_writer_to.write_to_ok [OF wt [rule_format, OF to] inv round(6)] show ?thesis
    proof (elim disjE exE conjE)
      fix n e w' s
      assume *: "m (br_rd b1) w1 = Some (Inr ((n, e), w', s))" "ended stop e (rest s)"
        "transfers rest reader_inv got wi (br_rd b1) w1 n s w'"
      note d = delegate_ok [OF round(11,12) *(3)]
      from transfers_after [OF pre(1-3) d(3)] *(1,2) d(2) show ?thesis by (auto simp: run)
    qed (simp add: run)
  next
    case frm
    have run: "Bufio_WriteTo read_call wr wt rf b w =
        map_option (\<lambda>x. andThen x (\<lambda>((k, e), s, w2). Inr ((int k0 + k, e), w2, b1\<lparr>br_rd := s\<rparr>))) (m w1 (br_rd b1))"
      using round(1) frm by (simp add: Bufio_WriteTo_def)
    note full = rf [rule_format, OF frm(2)]
    from gio_reader_from.read_from_ok [OF gio_full_reader_from.axioms(1) [OF full] inv round(6)] show ?thesis
    proof (elim disjE exE conjE)
      fix n e s w'
      assume *: "m w1 (br_rd b1) = Some (Inr ((n, e), s, w'))" "e = None \<longrightarrow> stop EOF (rest s)"
        "transfers rest reader_inv got wi (br_rd b1) w1 n s w'"
      note d = delegate_ok [OF round(11,12) *(3)]
      have "ended stop e (rest s)"
        using *(1,2) gio_full_reader_from.read_from_full [OF full inv round(6)] by (cases e) (auto simp: ended_def)
      with transfers_after [OF pre(1-3) d(3)] *(1) d(2) show ?thesis by (auto simp: run)
    qed (simp add: run)
  next
    case loop
    have run: "Bufio_WriteTo read_call wr wt rf b w = Bufio_WriteTo_loop read_call wr b2 w1 (int k0)"
      using round(1,3,4) loop by (simp add: Bufio_WriteTo_def Bufio_Buffered_def)
    from WriteTo_loop_ok [OF round(5,10,6) wr, of "int k0"] show ?thesis
    proof (elim disjE exE conjE)
      fix k x w' b'
      assume *: "Bufio_WriteTo_loop read_call wr b2 w1 (int k0)
          = Some (Inr ((int k0 + int k, if x = EOF then None else Some x), w', b'))"
        "ok b'" "wi w'" "k \<le> length (stream rest b2)" "got w' = got w1 @ take k (stream rest b2)"
        "stream rest b' = drop k (stream rest b2)" "stop x (stream rest b')"
      then have "transfers (stream rest) ok got wi b2 w1 (int k) b' w'" by (auto simp: transfers_def)
      from transfers_after [OF pre(1,2,4) this] *(1,7) show ?thesis by (auto simp: run ended_def)
    qed (simp add: run)
  qed
qed

text \<open>So the buffered reader is itself one that moves its items.\<close>

lemma bufio_writer_to:
  assumes "gio_writer wr got wi faults"
    and "\<forall>m. wt = Some m \<longrightarrow> gio_writer_to m rest reader_inv stop got wi faults"
    and "\<forall>m. rf = Some m \<longrightarrow> gio_full_reader_from m rest reader_inv stop got wi faults"
  shows "gio_writer_to (Bufio_WriteTo read_call wr wt rf) (stream rest) ok stop got wi faults"
  by (rule gio_writer_to.intro) (rule WriteTo_ok [OF _ _ assms])

end

text \<open>The same for a \<open>gio_reader\<close>, which stops at its end only.\<close>

context gio_reader
begin

lemma ReadItem_next:
  assumes "ok b"
  shows "\<exists>b'. Bufio_ReadItem z read_call b
        = Some (Inr ((case stream rest b of [] \<Rightarrow> (z, Some EOF) | c # _ \<Rightarrow> (c, None)), b'))
    \<and> ok b' \<and> stream rest b' = tl (stream rest b)"
  using ReadItem_ok [OF assms, of z] by (auto simp: at_eof_def)

lemma Peek_next:
  assumes "ok b" "0 \<le> n" "n \<le> Bufio_Size b"
  shows "\<exists>b'. Bufio_Peek read_call b n = Some (Inr ((take (nat n) (stream rest b),
        if n \<le> int (length (stream rest b)) then None else Some EOF), b'))
    \<and> ok b' \<and> stream rest b' = stream rest b"
proof -
  obtain ys e b' where *: "Bufio_Peek read_call b n = Some (Inr ((ys, e), b'))" "ok b'"
    "stream rest b' = stream rest b" "ys = take (length ys) (stream rest b)"
    "e = None \<and> int (length ys) = n
      \<or> (\<exists>x. e = Some x \<and> int (length ys) < n \<and> at_eof x (rest (br_rd b')) \<and> ys = buffered b')"
    using Peek_ok [OF assms(1,2)] assms(3) by auto
  from *(5) show ?thesis
  proof (elim disjE exE conjE)
    assume e: "e = None" "int (length ys) = n"
    have "length ys \<le> length (stream rest b)" using arg_cong [OF *(4), of length] by simp
    moreover have "ys = take (nat n) (stream rest b)" using *(4) e(2) by auto
    ultimately show ?thesis using *(1-3) e by auto
  next
    fix x assume "e = Some x" "int (length ys) < n" "at_eof x (rest (br_rd b'))" "ys = buffered b'"
    with *(1-3) show ?thesis by (auto simp: at_eof_def stream_def)
  qed
qed

text \<open>Beyond the size of the buffer \<open>Peek\<close> fills it, if there are as many items.\<close>

lemma Peek_beyond:
  assumes "ok b" "Bufio_Size b < n"
  shows "\<exists>b'. Bufio_Peek read_call b n
        = Some (Inr ((take (nat (Bufio_Size b)) (stream rest b), Some ErrBufferFull), b'))
    \<and> ok b' \<and> stream rest b' = stream rest b"
proof -
  have "0 \<le> n" using assms by (simp add: bufio_ok_def)
  from Peek_ok [OF assms(1) this] assms(2) obtain ys b' where
    *: "Bufio_Peek read_call b n = Some (Inr ((ys, Some ErrBufferFull), b'))" "ok b'" "Bufio_Size b' = Bufio_Size b"
    "stream rest b' = stream rest b" "ys = take (length ys) (stream rest b)"
    "int (length ys) = Bufio_Size b \<or> (\<exists>x. at_eof x (rest (br_rd b')) \<and> ys = buffered b')" by auto
  have "ys = take (nat (Bufio_Size b)) (stream rest b)"
  proof (cases "int (length ys) = Bufio_Size b")
    case True
    then have "nat (Bufio_Size b) = length ys" by linarith
    with *(5) show ?thesis by metis
  next
    case False
    then have "stream rest b = ys" using *(4,6) by (auto simp: stream_def at_eof_def)
    moreover have "int (length ys) \<le> Bufio_Size b"
      using False *(2,3,6) buffered_ok(2) [OF *(2)] by (auto simp: bufio_ok_def Bufio_Buffered_def)
    ultimately show ?thesis by simp
  qed
  with *(1,2,4) show ?thesis by blast
qed

lemma Discard_next:
  assumes "ok b" "0 < n"
  shows "\<exists>b'. Bufio_Discard read_call b n = Some (Inr ((min n (int (length (stream rest b))),
        if n \<le> int (length (stream rest b)) then None else Some EOF), b'))
    \<and> ok b' \<and> stream rest b' = drop (nat n) (stream rest b)"
proof -
  obtain k e b' where *: "Bufio_Discard read_call b n = Some (Inr ((int k, e), b'))" "ok b'"
    "k \<le> length (stream rest b)" "stream rest b' = drop k (stream rest b)"
    "e = None \<and> int k = n \<or> (\<exists>x. e = Some x \<and> int k < n \<and> at_eof x (stream rest b'))"
    using Discard_loop_ok [OF ok_clear(2) [OF assms(1), of None] assms(2), of n] assms(2)
    by (auto simp: Bufio_Discard_def)
  then show ?thesis by (auto simp: at_eof_def min_def)
qed

lemma WriteTo_drains:
  assumes "ok b" "wi w" and wr: "gio_writer wr got wi faults"
    and wt: "\<forall>m. wt = Some m \<longrightarrow> gio_writer_to m rest reader_inv at_eof got wi faults"
    and rf: "\<forall>m. rf = Some m \<longrightarrow> gio_full_reader_from m rest reader_inv at_eof got wi faults"
  shows "(\<exists>f. Bufio_WriteTo read_call wr wt rf b w = Some (Inl f) \<and> f \<in> faults)
    \<or> (\<exists>w' b'. Bufio_WriteTo read_call wr wt rf b w = Some (Inr ((int (length (stream rest b)), None), w', b'))
        \<and> wi w' \<and> got w' = got w @ stream rest b \<and> ok b' \<and> stream rest b' = [])"
  using WriteTo_ok [OF assms]
proof (elim disjE exE conjE)
  fix n e w' b'
  assume *: "Bufio_WriteTo read_call wr wt rf b w = Some (Inr ((n, e), w', b'))"
    "transfers (stream rest) ok got wi b w n b' w'" "ended at_eof e (stream rest b')"
  then have "n = int (length (stream rest b)) \<and> e = None \<and> wi w' \<and> got w' = got w @ stream rest b
      \<and> ok b' \<and> stream rest b' = []" by (auto simp: transfers_def)
  with *(1) show ?thesis by simp
qed simp_all

end

section \<open>Correctness of the buffered reader\<close>

text \<open>
  A buffered reader over any source that reports its counts truthfully is such a source
  itself: \<open>Read\<close> never panics, delivers the next items of the one stream made of its buffer and
  the source, and reports an error only where the source may stop.
\<close>

theorem Bufio_Read_source:
  assumes "gio_source rc rest ri stop" "bufio_ok rest ri stop b" "p \<noteq> []"
  shows "\<exists>n e q b'. Bufio_Read rc b p = Inr ((int n, e, q), b') \<and> bufio_ok rest ri stop b'
    \<and> n \<le> length p \<and> length q = length p \<and> take n q = take n (stream rest b)
    \<and> n \<le> length (stream rest b) \<and> stream rest b' = drop n (stream rest b)
    \<and> (\<forall>x. e = Some x \<longrightarrow> stop x (stream rest b'))
    \<and> (n = 0 \<and> e = None \<longrightarrow> stop ErrNoProgress (stream rest b'))"
  using gio_source.Read_ok [OF assms] unfolding gio_source.reads_def [OF assms(1)] by blast

text \<open>
  C26: \<open>ReadItem\<close> always returns.  It gives the next item of the stream, and an error only where
  the buffer is empty and the source may stop; then nothing is consumed.
\<close>

theorem Bufio_ReadItem_returns:
  assumes "gio_source rc rest ri stop" "bufio_ok rest ri stop b"
  shows "\<exists>c e b'. Bufio_ReadItem z rc b = Some (Inr ((c, e), b')) \<and> bufio_ok rest ri stop b'
    \<and> (e = None \<longrightarrow> stream rest b = c # stream rest b')
    \<and> (\<forall>x. e = Some x \<longrightarrow> c = z \<and> stream rest b' = stream rest b \<and> buffered b' = [] \<and> stop x (stream rest b'))"
  using gio_source.ReadItem_ok [OF assms, of z] by fastforce

text \<open>
  C27: Over a client's reader that keeps the \<open>gio_reader\<close> contract (each call makes progress or
  reports \<open>io.EOF\<close>, which it does at its end only), for every \<open>n\<close>: a negative one is answered with
  \<open>ErrNegativeCount\<close> and changes nothing; \<open>Peek(n)\<close> shows the next \<open>n\<close> items, as many as the size of
  the buffer and the stream allow, and consumes nothing, with \<open>ErrBufferFull\<close> exactly when \<open>n\<close> is
  above the size of the buffer, and otherwise with \<open>io.EOF\<close> exactly when the stream is shorter than
  \<open>n\<close>; \<open>Discard(n)\<close> skips the next \<open>n\<close> items, or all there are, and reports \<open>io.EOF\<close> exactly when
  these are fewer.
\<close>

theorem Bufio_Peek_Discard:
  assumes "gio_reader rc rest ri" "bufio_ok rest ri at_eof b"
  shows "(n < 0 \<longrightarrow> Bufio_Peek rc b n = Some (Inr (([], Some bufio_ErrNegativeCount), b))
      \<and> Bufio_Discard rc b n = Some (Inr ((0, Some bufio_ErrNegativeCount), b)))
    \<and> (0 \<le> n \<longrightarrow> (\<exists>b'. Bufio_Peek rc b n = Some (Inr ((take (nat (min n (Bufio_Size b))) (stream rest b),
          if n > Bufio_Size b then Some ErrBufferFull
          else if n \<le> int (length (stream rest b)) then None else Some EOF), b'))
        \<and> bufio_ok rest ri at_eof b' \<and> stream rest b' = stream rest b))
    \<and> (0 \<le> n \<longrightarrow> (\<exists>b'. Bufio_Discard rc b n = Some (Inr ((min n (int (length (stream rest b))),
          if n \<le> int (length (stream rest b)) then None else Some EOF), b'))
        \<and> bufio_ok rest ri at_eof b' \<and> stream rest b' = drop (nat n) (stream rest b)))"
proof (intro conjI impI)
  show "Bufio_Peek rc b n = Some (Inr (([], Some bufio_ErrNegativeCount), b))" if "n < 0"
    using that by (simp add: Bufio_Peek_def)
  show "Bufio_Discard rc b n = Some (Inr ((0, Some bufio_ErrNegativeCount), b))" if "n < 0"
    using that by (simp add: Bufio_Discard_def)
  assume "0 \<le> n"
  then show "\<exists>b'. Bufio_Peek rc b n = Some (Inr ((take (nat (min n (Bufio_Size b))) (stream rest b),
          if n > Bufio_Size b then Some ErrBufferFull
          else if n \<le> int (length (stream rest b)) then None else Some EOF), b'))
        \<and> bufio_ok rest ri at_eof b' \<and> stream rest b' = stream rest b"
    using gio_reader.Peek_next [OF assms] gio_reader.Peek_beyond [OF assms, of n]
    by (cases "n \<le> Bufio_Size b") (simp_all add: min_def)
  show "\<exists>b'. Bufio_Discard rc b n = Some (Inr ((min n (int (length (stream rest b))),
          if n \<le> int (length (stream rest b)) then None else Some EOF), b'))
        \<and> bufio_ok rest ri at_eof b' \<and> stream rest b' = drop (nat n) (stream rest b)"
    using gio_reader.Discard_next [OF assms, of n] \<open>0 \<le> n\<close> assms(2)
    by (cases "n = 0") (simp_all add: Bufio_Discard_def)
qed

text \<open>
  C28: \<open>WriteTo\<close> from a client's reader that keeps the \<open>gio_reader\<close> contract into a client's writer
  that accepts everything or panics returns, and hands the whole stream over; it gives the number of
  items and no error, \<open>io.EOF\<close> being the normal end.  This holds whether the reader has a \<open>WriteTo\<close>
  (\<open>wt\<close>), the writer a \<open>ReadFrom\<close> (\<open>rf\<close>), both or neither, where these methods move everything left
  without an error, or panic as the writer does.
\<close>

theorem Bufio_WriteTo_drains:
  assumes "gio_reader rc rest ri" "gio_writer wr got wi faults" "bufio_ok rest ri at_eof b" "wi w"
    and "\<forall>m. wt = Some m \<longrightarrow> gio_writer_to m rest ri at_eof got wi faults"
    and "\<forall>m. rf = Some m \<longrightarrow> gio_full_reader_from m rest ri at_eof got wi faults"
  shows "(\<exists>f. Bufio_WriteTo rc wr wt rf b w = Some (Inl f) \<and> f \<in> faults)
    \<or> (\<exists>w' b'. Bufio_WriteTo rc wr wt rf b w = Some (Inr ((int (length (stream rest b)), None), w', b'))
        \<and> wi w' \<and> got w' = got w @ stream rest b \<and> bufio_ok rest ri at_eof b' \<and> stream rest b' = [])"
  by (rule gio_reader.WriteTo_drains [OF assms(1,3,4,2,5,6)])

text \<open>
  \<open>UnreadItem\<close> never succeeds: its condition is inverted, so that it refuses exactly after a
  read, and otherwise, where it would go on, dereferences the nil \<open>lastItem\<close>.  After a
  successful \<open>ReadItem\<close> it reports an invalid use.
\<close>

theorem Bufio_UnreadItem_never_succeeds:
  assumes "gio_source rc rest ri stop" "bufio_ok rest ri stop b"
    and "Bufio_ReadItem z rc b = Some (Inr ((c, None), b'))"
  shows "Bufio_UnreadItem b' = Inr (Some ErrInvalidUnreadItem, b')
    \<and> (\<forall>b2 :: ('r, 'a) bufio_reader. Bufio_UnreadItem b2 = Inr (Some ErrInvalidUnreadItem, b2)
        \<or> Bufio_UnreadItem b2 = Inl NilDeref)"
proof -
  have "br_lastItem b' \<noteq> None" using gio_source.ReadItem_ok [OF assms(1,2), of z] assms(3) by auto
  then show ?thesis by (auto simp: Bufio_UnreadItem_def split: option.split)
qed


text \<open>A reader that never delivers anything and counts the calls.\<close>

definition mute_Read :: "(nat, 'a) reader_fn" where
  "mute_Read s p = Inr ((0, None, p), s + 1)"

text \<open>
  \<open>fill\<close> gives up on a reader that makes no progress: after exactly
  \<open>maxConsecutiveEmptyReads\<close> calls it records \<open>io.ErrNoProgress\<close>, and the buffered items stay.
\<close>

theorem Bufio_fill_gives_up:
  fixes b :: "(nat, 'a) bufio_reader"
  assumes "bufio_ok (\<lambda>_. []) (\<lambda>_. True) (\<lambda>_ _. True) b" "Bufio_Buffered b < Bufio_Size b"
  shows "\<exists>b'. Bufio_fill mute_Read b = Inr b' \<and> br_err b' = Some ErrNoProgress
    \<and> br_rd b' = br_rd b + maxConsecutiveEmptyReads \<and> buffered b' = buffered b"
proof -
  have tries: "fill_tries k mute_Read (bufio xs s i j e l) = Inr (bufio xs (s + k) i j (Some ErrNoProgress) l)"
    if "j \<le> length xs" for k s i j e and xs :: "'a list" and l
  proof (induction k arbitrary: s)
    case (Suc k)
    have "overlay xs j (sub xs j (length xs)) = xs"
      by (rule nth_equalityI) (use that in \<open>auto simp: nth_overlay nth_sub\<close>)
    with Suc that show ?case by (simp add: mute_Read_def go_slice_def Let_def)
  qed simp
  obtain xs s i j e l where b: "b = bufio xs s i j e l" "i \<le> j" "j \<le> length xs"
    by (rule bufio_okE [OF assms(1)]) (rule that)
  with assms(2) have "j - i < length xs" by (simp add: Bufio_Buffered_def)
  from fill_run [OF b(2,3) this, of mute_Read s e l] obtain ys where
    "Bufio_fill mute_Read b = fill_tries maxConsecutiveEmptyReads mute_Read (bufio ys s 0 (j - i) e l)"
    "length ys = length xs" "take (j - i) ys = sub xs i j" unfolding b(1) by blast
  with tries [of "j - i" ys] b show ?thesis by (simp add: sub_from_start)
qed

section \<open>Instances\<close>

text \<open>A buffered reader over a slice \<open>Reader\<close> or over a \<open>Buffer\<close> is a \<open>gio_reader\<close> again.\<close>

interpretation bufio_slice: gio_reader "Bufio_Read Reader_Read" "stream ahead" "bufio_ok ahead reader_ok at_eof"
  by (rule source_at_eof_reader [OF slice_reader.bufio_is_source])

interpretation bufio_buffer: gio_reader "Bufio_Read Buffer_Read" "stream unread" "bufio_ok unread buf_inv at_eof"
  by (rule source_at_eof_reader [OF buffer_reader.bufio_is_source])

text \<open>A buffered reader over the items \<open>xs\<close>, and one over the mute reader.\<close>

definition bufio_over :: "int list \<Rightarrow> (int Reader, int) bufio_reader" where
  "bufio_over xs = newReader 0 (\<lambda>_. None) (NewReader xs) 2"

lemma bufio_over_ok:
  assumes "int (length xs) \<le> maxInt"
  shows "bufio_ok ahead reader_ok at_eof (bufio_over xs)" "stream ahead (bufio_over xs) = xs"
    "Bufio_Size (bufio_over xs) = 16"
  using bufio_fresh_ok [of "replicate 16 (0 :: int)" reader_ok "NewReader xs" ahead at_eof]
    reader_ok_New(1) [OF assms] reader_ok_New(2) [of xs]
  by (simp_all add: bufio_over_def newReader_def minReadBufferSize_def)
    (simp add: bufio_reset_def Bufio_Size_def)

lemma Bufio_Read_source_witness:
  "\<exists>n e q b'. Bufio_Read Reader_Read (bufio_over [1, 2, 3]) [0, 0] = Inr ((int n, e, q), b')
    \<and> take n q = take n [1, 2, 3] \<and> stream ahead b' = drop n [1, 2, 3]"
  using Bufio_Read_source [OF slice_reader.gio_source_axioms bufio_over_ok(1) [of "[1, 2, 3]"], of "[0, 0]"]
    bufio_over_ok(2) [of "[1, 2, 3]"] by (auto simp: maxInt_def)

lemma Bufio_ReadItem_returns_witness:
  "\<exists>b'. Bufio_ReadItem 0 Reader_Read (bufio_over [7]) = Some (Inr ((7, None), b'))"
  using Bufio_ReadItem_returns [OF slice_reader.gio_source_axioms bufio_over_ok(1) [of "[7]"], of 0]
    bufio_over_ok(2) [of "[7]"] by (auto simp: maxInt_def at_eof_def)

lemma Bufio_Peek_Discard_witness:
  "(\<exists>b'. Bufio_Peek Reader_Read (bufio_over [1, 2, 3]) 2 = Some (Inr (([1, 2], None), b')))
    \<and> (\<exists>b'. Bufio_Peek Reader_Read (bufio_over [1, 2, 3]) 17 = Some (Inr (([1, 2, 3], Some ErrBufferFull), b')))
    \<and> (\<exists>b'. Bufio_Discard Reader_Read (bufio_over [1, 2, 3]) 2 = Some (Inr ((2, None), b'))
        \<and> stream ahead b' = [3])"
proof -
  have ok: "bufio_ok ahead reader_ok at_eof (bufio_over [1, 2, 3])" by (rule bufio_over_ok) (simp add: maxInt_def)
  show ?thesis
    using Bufio_Peek_Discard [OF slice_reader.gio_reader_axioms ok, of 2]
      Bufio_Peek_Discard [OF slice_reader.gio_reader_axioms ok, of 17]
      bufio_over_ok(2,3) [of "[1, 2, 3]"] by (auto simp: maxInt_def)
qed

text \<open>
  A slice \<open>Reader\<close> has a \<open>WriteTo\<close>, which the buffered reader calls; a \<open>Buffer\<close> has a \<open>ReadFrom\<close>, which
  is called where the reader has no \<open>WriteTo\<close>.
\<close>

lemma Bufio_WriteTo_drains_witness:
  "(\<exists>f. Bufio_WriteTo Reader_Read (Buffer_Write int_runtime) (Some (\<lambda>r w. Some (Reader_WriteTo (Buffer_Write int_runtime) r w)))
        (Some (\<lambda>b r. Buffer_ReadFrom (Suc (length (ahead r))) int_runtime Reader_Read b r)) (bufio_over [1, 2]) zero_Buffer
        = Some (Inl f) \<and> f \<in> {PanicErr ErrBufferTooLarge})
    \<or> (\<exists>w' b'. Bufio_WriteTo Reader_Read (Buffer_Write int_runtime) (Some (\<lambda>r w. Some (Reader_WriteTo (Buffer_Write int_runtime) r w)))
        (Some (\<lambda>b r. Buffer_ReadFrom (Suc (length (ahead r))) int_runtime Reader_Read b r)) (bufio_over [1, 2]) zero_Buffer
        = Some (Inr ((2, None), w', b')) \<and> unread w' = [1, 2])"
proof -
  have z: "buf_inv (zero_Buffer :: int Buffer)" "unread (zero_Buffer :: int Buffer) = []" by (rule buf_inv_zero)+
  have ok: "bufio_ok ahead reader_ok at_eof (bufio_over [1, 2])" "stream ahead (bufio_over [1, 2]) = [1, 2]"
    using bufio_over_ok [of "[1, 2]"] by (simp_all add: maxInt_def)
  have w: "runtime_ok int_runtime \<and> buf_inv (zero_Buffer :: int Buffer)" using int_runtime_ok z(1) by blast
  from Bufio_WriteTo_drains [where wt = "Some (\<lambda>r w. Some (Reader_WriteTo (Buffer_Write int_runtime) r w))"
        and rf = "Some (\<lambda>b r. Buffer_ReadFrom (Suc (length (ahead r))) int_runtime Reader_Read b r)",
      OF slice_reader.gio_reader_axioms buffer_writer.gio_writer_axioms ok(1) w]
    slice_to_buffer.gio_writer_to_axioms buffer_from_slice.gio_full_reader_from_axioms
  show ?thesis by (simp add: ok(2) z(2)) blast
qed

lemma ReadItem_one: "\<exists>b'. Bufio_ReadItem 0 Reader_Read (bufio_over [7]) = Some (Inr ((7, None), b'))"
  using slice_reader.ReadItem_next [OF bufio_over_ok(1) [of "[7]"], of 0] bufio_over_ok(2) [of "[7]"]
  by (auto simp: maxInt_def)

lemma Bufio_UnreadItem_never_succeeds_witness:
  "\<exists>b'. Bufio_ReadItem 0 Reader_Read (bufio_over [7]) = Some (Inr ((7, None), b'))
    \<and> Bufio_UnreadItem b' = Inr (Some ErrInvalidUnreadItem, b')"
  using ReadItem_one Bufio_UnreadItem_never_succeeds [OF slice_reader.gio_source_axioms bufio_over_ok(1) [of "[7]"], of 0]
  by (auto simp: maxInt_def)

lemma Bufio_fill_gives_up_witness:
  "\<exists>b'. Bufio_fill mute_Read (bufio_reset [0 :: int] 5) = Inr b' \<and> br_rd b' = 105"
  using Bufio_fill_gives_up [of "bufio_reset [0 :: int] 5"]
  by (auto simp: bufio_ok_def bufio_reset_def Bufio_Size_def Bufio_Buffered_def maxConsecutiveEmptyReads_def)

end
