(* ===== verification/BufioLines.thy ===== *)
theory BufioLines
  imports BufioReader
begin

text \<open>
  \<open>gbufio/reader_comparable.go\<close>: the \<open>ComparableReader[T]\<close>, which reads up to a delimiter through
  the \<open>Reader\<close> it embeds.  The contract: \<open>ReadItems\<close> splits the stream of that reader after the
  first delimiter, whatever the size of the buffer, and \<open>ReadLine\<close> gives the items before it.
\<close>

section \<open>The reader\<close>

record ('r, 'a) comparable_reader =
  cr_Reader :: "('r, 'a) bufio_reader"
  cr_delim :: 'a
  cr_excluded :: "'a option"

text \<open>
  \<open>asComparable\<close> and \<open>asReader\<close> are the cases of the type switch on \<open>rd\<close>.  In the last case the
  embedded \<open>*Reader\<close> of the new value is nil, and \<open>reset\<close> assigns to what it points to.
\<close>

definition newComparableReader ::
  "('r \<Rightarrow> ('s, 'a) comparable_reader option) \<Rightarrow> ('r \<Rightarrow> ('s, 'a) bufio_reader option)
   \<Rightarrow> 'r \<Rightarrow> int \<Rightarrow> 'a \<Rightarrow> go_panic + ('s, 'a) comparable_reader" where
  "newComparableReader asComparable asReader rd sz delim =
     (case asComparable rd of
        Some r \<Rightarrow> Inr r
      | None \<Rightarrow>
          (case asReader rd of
             Some r \<Rightarrow> Inr \<lparr>cr_Reader = r, cr_delim = delim, cr_excluded = None\<rparr>
           | None \<Rightarrow> Inl NilDeref))"

text \<open>\<open>slices.Index\<close>: the first index of an item, or \<open>-1\<close>.\<close>

fun slices_Index :: "'a list \<Rightarrow> 'a \<Rightarrow> int" where
  "slices_Index [] v = -1"
| "slices_Index (x # xs) v =
     (if x = v then 0 else let i = slices_Index xs v in if i < 0 then i else i + 1)"

text \<open>The loop of \<open>ReadSlice\<close>; \<open>s\<close> is the search start index.\<close>

partial_function (option) ReadSlice_loop ::
  "('r, 'a) reader_fn \<Rightarrow> 'a \<Rightarrow> int \<Rightarrow> ('r, 'a) bufio_reader
   \<Rightarrow> (go_panic + (('a list \<times> go_error option) \<times> ('r, 'a) bufio_reader)) option" where
  "ReadSlice_loop rd delim s b =
     (case go_slice (br_buf b) (br_r b + s) (br_w b) of
        Inl f \<Rightarrow> Some (Inl f)
      | Inr ys \<Rightarrow>
          let i = slices_Index ys delim
          in if i \<ge> 0 then
               Some (andThen (go_slice (br_buf b) (br_r b) (br_r b + (i + s) + 1)) (\<lambda>line.
                 Inr ((line, None), b\<lparr>br_r := br_r b + (i + s + 1)\<rparr>)))
             else if br_err b \<noteq> None then
               Some (andThen (go_slice (br_buf b) (br_r b) (br_w b)) (\<lambda>line.
                 let (e, b1) = Bufio_readErr (b\<lparr>br_r := br_w b\<rparr>) in Inr ((line, e), b1)))
             else if Bufio_Buffered b \<ge> Bufio_Size b then
               Some (Inr ((br_buf b, Some ErrBufferFull), b\<lparr>br_r := br_w b\<rparr>))
             else
               (case Bufio_fill rd b of
                  Inl f \<Rightarrow> Some (Inl f)
                | Inr b1 \<Rightarrow> ReadSlice_loop rd delim (br_w b - br_r b) b1))"

definition Comparable_ReadSlice ::
  "('r, 'a) reader_fn \<Rightarrow> ('r, 'a) bufio_reader \<Rightarrow> 'a
   \<Rightarrow> (go_panic + (('a list \<times> go_error option) \<times> ('r, 'a) bufio_reader)) option" where
  "Comparable_ReadSlice rd b delim =
     map_option (\<lambda>m. andThen m (\<lambda>((line, e), b1).
       Inr ((line, e), if line \<noteq> [] then b1\<lparr>br_lastItem := Some (last line)\<rparr> else b1)))
       (ReadSlice_loop rd delim 0 b)"

definition Comparable_ReadLine ::
  "('r, 'a) reader_fn \<Rightarrow> ('r, 'a) comparable_reader
   \<Rightarrow> (go_panic + (('a list \<times> bool \<times> go_error option) \<times> ('r, 'a) comparable_reader)) option" where
  "Comparable_ReadLine rd c =
     map_option (\<lambda>m. andThen m (\<lambda>((line, err), b).
       let excl = (\<lambda>x. case cr_excluded c of None \<Rightarrow> False | Some z \<Rightarrow> x = z)
       in if is_err err ErrBufferFull then
            if line \<noteq> [] \<and> excl (last line) then
              if br_r b = 0 then Inl (PanicStr ''bufio: tried to rewind past start of buffer'')
              else Inr ((butlast line, True, None), c\<lparr>cr_Reader := b\<lparr>br_r := br_r b - 1\<rparr>\<rparr>)
            else Inr ((line, True, None), c\<lparr>cr_Reader := b\<rparr>)
          else if line = [] then Inr (([], False, err), c\<lparr>cr_Reader := b\<rparr>)
          else if last line = cr_delim c then
            let cut = (if length line > 1 \<and> excl (line ! (length line - 2)) then 2 else 1)
            in Inr ((take (length line - cut) line, False, None), c\<lparr>cr_Reader := b\<rparr>)
          else Inr ((line, False, None), c\<lparr>cr_Reader := b\<rparr>)))
       (Comparable_ReadSlice rd (cr_Reader c) (cr_delim c))"

partial_function (option) collectFragments_loop ::
  "('r, 'a) reader_fn \<Rightarrow> 'a \<Rightarrow> ('r, 'a) bufio_reader \<Rightarrow> 'a list list \<Rightarrow> int
   \<Rightarrow> (go_panic + (('a list list \<times> 'a list \<times> int \<times> go_error option) \<times> ('r, 'a) bufio_reader)) option" where
  "collectFragments_loop rd delim b full n =
     (case Comparable_ReadSlice rd b delim of
        None \<Rightarrow> None
      | Some (Inl f) \<Rightarrow> Some (Inl f)
      | Some (Inr ((frag, e), b1)) \<Rightarrow>
          if e = None then Some (Inr ((full, frag, n + int (length frag), None), b1))
          else if \<not> is_err e ErrBufferFull then Some (Inr ((full, frag, n + int (length frag), e), b1))
          else collectFragments_loop rd delim b1 (full @ [frag]) (n + int (length frag)))"

definition Comparable_collectFragments ::
  "('r, 'a) reader_fn \<Rightarrow> ('r, 'a) bufio_reader \<Rightarrow> 'a
   \<Rightarrow> (go_panic + (('a list list \<times> 'a list \<times> int \<times> go_error option) \<times> ('r, 'a) bufio_reader)) option" where
  "Comparable_collectFragments rd b delim = collectFragments_loop rd delim b [] 0"

text \<open>\<open>for i := range full { n += copy(buf[n:], full[i]) }\<close>\<close>

fun copy_pieces :: "'a list list \<Rightarrow> 'a list \<Rightarrow> int \<Rightarrow> go_panic + ('a list \<times> int)" where
  "copy_pieces [] xs n = Inr (xs, n)"
| "copy_pieces (p # ps) xs n =
     andThen (go_copy xs n (int (length xs)) p) (\<lambda>(k, ys). copy_pieces ps ys (n + k))"

definition Comparable_ReadItems ::
  "'a \<Rightarrow> ('r, 'a) reader_fn \<Rightarrow> ('r, 'a) bufio_reader \<Rightarrow> 'a
   \<Rightarrow> (go_panic + (('a list \<times> go_error option) \<times> ('r, 'a) bufio_reader)) option" where
  "Comparable_ReadItems z rd b delim =
     map_option (\<lambda>m. andThen m (\<lambda>((full, frag, n, err), b1).
       andThen (copy_pieces full (replicate (nat n) z) 0) (\<lambda>(xs, k).
       andThen (go_copy xs k (int (length xs)) frag) (\<lambda>(_, ys). Inr ((ys, err), b1)))))
       (Comparable_collectFragments rd b delim)"

section \<open>Reading up to a delimiter\<close>

lemma slices_Index_eq:
  "slices_Index xs v = (if v \<in> set xs then int (length (takeWhile (\<lambda>x. x \<noteq> v) xs)) else -1)"
  by (induction xs) (auto simp: Let_def)

abbreviation before :: "'a \<Rightarrow> 'a list \<Rightarrow> 'a list" where
  "before v xs \<equiv> takeWhile (\<lambda>x. x \<noteq> v) xs"

abbreviation through :: "'a \<Rightarrow> 'a list \<Rightarrow> 'a list" where
  "through v xs \<equiv> upto_delim (\<lambda>x. x = v) xs"

lemma length_before: "v \<in> set xs \<Longrightarrow> length (before v xs) < length xs"
  by (induction xs) auto

lemma upto_append:
  "v \<notin> set xs \<Longrightarrow> through v (xs @ ys) = xs @ through v ys"
  by (induction xs) (auto simp: upto_delim_def)

lemma upto_prefix: "v \<in> set xs \<Longrightarrow> through v (xs @ ys) = through v xs"
  using length_before [of v xs] by (simp add: upto_delim_def takeWhile_append1)

lemma upto_take: "through v xs = take (length (through v xs)) xs"
  by (simp add: upto_delim_def min_def)

text \<open>What \<open>ReadSlice\<close> may return on a stream, for a buffer of \<open>sz\<close> items.\<close>

definition slice_outcome ::
  "(go_error \<Rightarrow> 'a list \<Rightarrow> bool) \<Rightarrow> 'a \<Rightarrow> int \<Rightarrow> 'a list \<Rightarrow> 'a list \<Rightarrow> go_error option \<Rightarrow> 'a list \<Rightarrow> bool" where
  "slice_outcome stop v sz st line e st' \<longleftrightarrow> st = line @ st' \<and> int (length line) \<le> sz
     \<and> (e = None \<and> v \<in> set st \<and> line = through v st
        \<or> v \<notin> set line \<and> e = Some ErrBufferFull \<and> int (length line) = sz
        \<or> v \<notin> set line \<and> (\<exists>x. e = Some x \<and> stop x st'))"

context gio_source
begin

text \<open>What a run on \<open>b\<close> gives; where the buffer is full, all of it is the line.\<close>

definition sliced ::
  "'a \<Rightarrow> ('r, 'a) bufio_reader \<Rightarrow> (go_panic + (('a list \<times> go_error option) \<times> ('r, 'a) bufio_reader)) option \<Rightarrow> bool" where
  "sliced v b m \<longleftrightarrow> (\<exists>line e b'. m = Some (Inr ((line, e), b')) \<and> ok b'
    \<and> Bufio_Size b' = Bufio_Size b \<and> slice_outcome stop v (Bufio_Size b) (stream rest b) line e (stream rest b')
    \<and> (e = Some ErrBufferFull \<and> int (length line) = Bufio_Size b \<and> v \<notin> set line
        \<longrightarrow> br_buf b' = line \<and> br_r b' = Bufio_Size b \<and> br_w b' = Bufio_Size b))"

text \<open>The loop where the first \<open>k\<close> buffered items have been searched.\<close>

lemma searched_window:
  assumes "i + k \<le> j" "j \<le> length xs"
  shows "go_slice (br_buf (bufio xs s i j e l)) (br_r (bufio xs s i j e l) + int k) (br_w (bufio xs s i j e l))
      = Inr (sub xs (i + k) j)"
    and "sub xs i j = sub xs i (i + k) @ sub xs (i + k) j"
  using assms sub_append [of i "i + k" j xs] by (simp_all add: go_slice_def flip: of_nat_add)

lemma slice_found:
  assumes "b = bufio xs s i j e l" "ok b" "i + k \<le> j" "v \<notin> set (sub xs i (i + k))" "v \<in> set (sub xs (i + k) j)"
  shows "sliced v b (ReadSlice_loop read_call v (int k) b)"
proof -
  have b: "i \<le> j" "j \<le> length xs" using assms(1,2) by simp_all
  note win = searched_window [OF assms(3) b(2)]
  define m where "m = k + length (before v (sub xs (i + k) j))"
  have m: "Suc m \<le> j - i" "i + m + 1 \<le> length xs"
    using length_before [OF assms(5)] assms(3) b by (auto simp: m_def)
  have "before v (sub xs i j) = sub xs i (i + k) @ before v (sub xs (i + k) j)"
    unfolding win(2) by (rule takeWhile_append2) (use assms(4) in auto)
  then have "length (before v (sub xs i j)) = m" using assms(3) b(2) by (simp add: m_def)
  then have "through v (sub xs i j) = sub xs i (min (i + Suc m) j)" by (simp add: upto_delim_def take_sub)
  moreover have "min (i + Suc m) j = i + Suc m" using m(1) b by (auto simp: min_def)
  ultimately have up: "through v (sub xs i j) = sub xs i (i + Suc m)" by simp
  have "sub xs i j = sub xs i (i + Suc m) @ sub xs (i + Suc m) j"
    using sub_append [of i "i + Suc m" j xs] m(1) b by simp
  moreover have "ReadSlice_loop read_call v (int k) b
      = Some (Inr ((sub xs i (i + Suc m), None), bufio xs s (i + Suc m) j e l))"
    using win(1) assms(1,5) b m
    by (subst ReadSlice_loop.simps)
      (simp add: slices_Index_eq Let_def go_slice_def m_def algebra_simps flip: of_nat_add of_nat_Suc)
  moreover have "v \<in> set (sub xs i j)" using assms(5) win(2) by simp
  ultimately show ?thesis
    using assms(1,2) b m up upto_prefix [of v "sub xs i j" "rest s"] unfolding sliced_def
    by (intro exI [of _ "sub xs i (i + Suc m)"] exI [of _ None] exI) (auto simp: slice_outcome_def)
qed

lemma slice_pending:
  assumes "b = bufio xs s i j (Some x) l" "ok b" "i + k \<le> j" "v \<notin> set (sub xs i j)"
  shows "sliced v b (ReadSlice_loop read_call v (int k) b)"
proof -
  have b: "i \<le> j" "j \<le> length xs" using assms(1,2) by simp_all
  note win = searched_window [OF assms(3) b(2)]
  have "v \<notin> set (sub xs (i + k) j)" using assms(4) unfolding win(2) by simp
  then have "ReadSlice_loop read_call v (int k) b = Some (Inr ((sub xs i j, Some x), bufio xs s j j None l))"
    using win(1) b assms(1)
    by (subst ReadSlice_loop.simps) (simp add: slices_Index_eq Let_def go_slice_def Bufio_readErr_def)
  moreover have "sub xs i j = xs \<and> j = length xs" if "int j - int i = int (length xs)"
  proof -
    have "i = 0" "j = length xs" using that b by linarith+
    then show ?thesis by simp
  qed
  ultimately show ?thesis
    using assms b unfolding sliced_def
    by (intro exI [of _ "sub xs i j"] exI [of _ "Some x"] exI) (auto simp: slice_outcome_def dest: sym)
qed

lemma slice_full:
  assumes "b = bufio xs s i j None l" "ok b" "i + k \<le> j" "v \<notin> set (sub xs i j)" "length xs \<le> j - i"
  shows "sliced v b (ReadSlice_loop read_call v (int k) b)"
proof -
  have b: "i \<le> j" "j \<le> length xs" "xs \<noteq> []" using assms(1,2) by simp_all
  note win = searched_window [OF assms(3) b(2)]
  have ij: "i = 0" "j = length xs" using b assms(5) by (auto simp: Suc_le_eq)
  have "v \<notin> set (sub xs (i + k) j)" using assms(4) unfolding win(2) by simp
  then have "ReadSlice_loop read_call v (int k) b = Some (Inr ((xs, Some ErrBufferFull), bufio xs s j j None l))"
    using win(1) assms(1,5) b(1,2) ij
    by (subst ReadSlice_loop.simps) (simp add: slices_Index_eq Let_def Bufio_Buffered_def)
  then show ?thesis
    using assms(1,2,4) ij unfolding sliced_def
    by (intro exI [of _ xs] exI [of _ "Some ErrBufferFull"] exI) (auto simp: slice_outcome_def)
qed

text \<open>Otherwise the buffer is filled, and what was searched stays searched.\<close>

lemma slice_more:
  assumes "b = bufio xs s i j None l" "ok b" "i + k \<le> j" "v \<notin> set (sub xs i j)" "j - i < length xs"
  obtains b1 where "ReadSlice_loop read_call v (int k) b = ReadSlice_loop read_call v (Bufio_Buffered b) b1" "ok b1"
    "stream rest b1 = stream rest b" "Bufio_Size b1 = Bufio_Size b"
    "0 \<le> Bufio_Buffered b" "Bufio_Buffered b \<le> Bufio_Buffered b1"
    "Bufio_Buffered b < Bufio_Buffered b1 \<or> br_err b1 \<noteq> None" "Bufio_Buffered b < Bufio_Size b"
    "v \<notin> set (take (nat (Bufio_Buffered b)) (buffered b1))"
proof -
  have b: "i \<le> j" "j \<le> length xs" using assms(1,2) by simp_all
  note win = searched_window [OF assms(3) b(2)]
  have no: "v \<notin> set (sub xs (i + k) j)" using assms(4) unfolding win(2) by simp
  have lt: "Bufio_Buffered b < Bufio_Size b" and pos: "0 \<le> Bufio_Buffered b"
    using assms(1,5) b(1) by (simp_all add: Bufio_Buffered_def)
  from fill_ok [OF assms(2) lt] obtain b1 where f: "Bufio_fill read_call b = Inr b1" "ok b1"
    "stream rest b1 = stream rest b" "Bufio_Size b1 = Bufio_Size b" "Bufio_Buffered b \<le> Bufio_Buffered b1"
    "br_err b1 = br_err b \<and> Bufio_Buffered b < Bufio_Buffered b1 \<or> br_err b1 \<noteq> None" by blast
  have run: "ReadSlice_loop read_call v (int k) b = ReadSlice_loop read_call v (Bufio_Buffered b) b1"
    using win(1) no assms(1) f(1) b lt
    by (subst ReadSlice_loop.simps) (simp add: slices_Index_eq Let_def Bufio_Buffered_def)
  have len: "nat (Bufio_Buffered b) = length (buffered b)" "length (buffered b) \<le> length (buffered b1)"
    using buffered_ok(2) [OF assms(2)] buffered_ok(2) [OF f(2)] f(5) by linarith+
  have "take (length (buffered b)) (stream rest b1) = buffered b" unfolding f(3) by (simp add: stream_def)
  then have "take (nat (Bufio_Buffered b)) (buffered b1) = buffered b" using len by (simp add: stream_def)
  then have "v \<notin> set (take (nat (Bufio_Buffered b)) (buffered b1))" using assms(1,4) by simp
  with that [OF run f(2-4) pos f(5) _ lt] f(6) show thesis by blast
qed

lemma ReadSlice_loop_ok:
  assumes "ok b" "0 \<le> s" "s \<le> Bufio_Buffered b" "v \<notin> set (take (nat s) (buffered b))"
  shows "sliced v b (ReadSlice_loop read_call v s b)"
  using assms
proof (induction "nat (Bufio_Size b - Bufio_Buffered b) + (if br_err b = None then 1 else 0)"
    arbitrary: b s rule: less_induct)
  case less
  obtain xs s0 i j e l where b: "b = bufio xs s0 i j e l" "i \<le> j" "j \<le> length xs"
    by (rule bufio_okE [OF less.prems(1)]) (rule that)
  obtain k where s: "s = int k" using less.prems(2) nonneg_int_cases by blast
  have k: "i + k \<le> j" "v \<notin> set (sub xs i (i + k))"
    using less.prems(3,4) b by (auto simp: s Bufio_Buffered_def take_sub)
  consider (found) "v \<in> set (sub xs (i + k) j)" | (pending) x where "v \<notin> set (sub xs i j)" "e = Some x"
    | (full) "v \<notin> set (sub xs i j)" "e = None" "length xs \<le> j - i"
    | (more) "v \<notin> set (sub xs i j)" "e = None" "j - i < length xs"
    using searched_window(2) [OF k(1) b(3)] k(2) by (cases e; cases "length xs \<le> j - i") auto
  then show ?case
  proof cases
    case more
    from slice_more [OF b(1) [unfolded more(2)] less.prems(1) k(1) more(1,3)] obtain b1 where f:
      "ReadSlice_loop read_call v s b = ReadSlice_loop read_call v (Bufio_Buffered b) b1" "ok b1"
      "stream rest b1 = stream rest b" "Bufio_Size b1 = Bufio_Size b"
      "0 \<le> Bufio_Buffered b" "Bufio_Buffered b \<le> Bufio_Buffered b1"
      "Bufio_Buffered b < Bufio_Buffered b1 \<or> br_err b1 \<noteq> None" "Bufio_Buffered b < Bufio_Size b"
      "v \<notin> set (take (nat (Bufio_Buffered b)) (buffered b1))" unfolding s by blast
    have "nat (Bufio_Size b1 - Bufio_Buffered b1) + (if br_err b1 = None then 1 else 0)
        < nat (Bufio_Size b - Bufio_Buffered b) + (if br_err b = None then 1 else 0)"
      using f(4,6-8) more(2) b(1) by auto
    from less.hyps [OF this f(2,5,6,9)] show ?thesis unfolding sliced_def f(1,3,4) .
  next
    case found
    with slice_found [OF b(1) less.prems(1) k] show ?thesis by (simp add: s)
  next
    case pending
    with slice_pending [OF b(1) [unfolded pending(2)] less.prems(1) k(1)] show ?thesis by (simp add: s)
  next
    case full
    with slice_full [OF b(1) [unfolded full(2)] less.prems(1) k(1)] show ?thesis by (simp add: s)
  qed
qed

lemma ReadSlice_ok:
  assumes "ok b"
  shows "\<exists>line e b'. Comparable_ReadSlice read_call b v = Some (Inr ((line, e), b')) \<and> ok b'
    \<and> Bufio_Size b' = Bufio_Size b \<and> slice_outcome stop v (Bufio_Size b) (stream rest b) line e (stream rest b')
    \<and> (e = Some ErrBufferFull \<and> int (length line) = Bufio_Size b \<and> v \<notin> set line 
        \<longrightarrow> br_buf b' = line \<and> br_r b' = Bufio_Size b \<and> br_w b' = Bufio_Size b)
    \<and> (line \<noteq> [] \<longrightarrow> br_lastItem b' = Some (last line))"
proof -
  have "0 \<le> Bufio_Buffered b" using assms by (simp add: bufio_ok_def Bufio_Buffered_def)
  with ReadSlice_loop_ok [OF assms, of 0 v, unfolded sliced_def] obtain line e b1 where
    *: "ReadSlice_loop read_call v 0 b = Some (Inr ((line, e), b1))" "ok b1" "Bufio_Size b1 = Bufio_Size b"
    "slice_outcome stop v (Bufio_Size b) (stream rest b) line e (stream rest b1)"
    "e = Some ErrBufferFull \<and> int (length line) = Bufio_Size b \<and> v \<notin> set line 
        \<longrightarrow> br_buf b1 = line \<and> br_r b1 = Bufio_Size b \<and> br_w b1 = Bufio_Size b"
    by auto
  show ?thesis
    using * ok_clear(2) [OF *(2), of "Some (last line)"]
    by (intro exI [of _ line] exI [of _ e] exI [of _ "if line \<noteq> [] then b1\<lparr>br_lastItem := Some (last line)\<rparr> else b1"])
      (cases "line = []"; simp add: Comparable_ReadSlice_def)
qed

end

text \<open>Fragments are put together by copying.\<close>

lemma copy_pieces_ok:
  "n + length (concat ps) \<le> length xs \<Longrightarrow>
    \<exists>ys. copy_pieces ps xs (int n) = Inr (ys, int (n + length (concat ps))) \<and> length ys = length xs
      \<and> take (n + length (concat ps)) ys = take n xs @ concat ps"
proof (induction ps arbitrary: xs n)
  case (Cons p ps)
  let ?ys = "overlay xs n p"
  have "go_copy xs (int n) (int (length xs)) p = Inr (int (length p), ?ys)"
    using Cons.prems by (simp add: go_copy_def min_def flip: of_nat_diff) arith
  moreover have "length ?ys = length xs" "take (n + length p) ?ys = take n xs @ p"
    using Cons.prems overlay_take_fits [of n p xs] by simp_all
  ultimately show ?case
    using Cons.IH [of "n + length p" ?ys] Cons.prems by (simp add: add.assoc)
qed simp

lemma through_before: "v \<in> set xs \<Longrightarrow> through v xs = before v xs @ [v]"
  by (induction xs) (auto simp: upto_delim_def)

lemma before_cases:
  "length (before v xs) < n \<and> v \<in> set xs \<or> length xs < n \<and> v \<notin> set xs \<and> before v xs = xs
    \<or> \<not> length (before v xs) < n \<and> n < length xs \<and> v \<notin> set (take n xs) \<or> v \<notin> set xs \<and> length xs = n"
proof (cases "v \<in> set xs")
  case True
  have "take (length (before v xs)) xs = before v xs" by (metis takeWhile_eq_take)
  then have "v \<notin> set (take n xs)" if "n \<le> length (before v xs)"
    using that set_take_subset_set_take [OF that, of xs] by (auto dest: set_takeWhileD)
  then show ?thesis using True length_before [OF True] by linarith
next
  case False
  have eq: "before v xs = xs" using False by (subst takeWhile_eq_all_conv) auto
  show ?thesis unfolding eq using False by (auto dest: in_set_takeD)
qed

lemma before_all: "v \<notin> set xs \<Longrightarrow> before v xs = xs"
  by (subst takeWhile_eq_all_conv) auto

text \<open>A line without its end: the delimiter and one excluded item before it.\<close>

definition strip_excluded :: "'a option \<Rightarrow> 'a list \<Rightarrow> 'a list" where
  "strip_excluded ex xs = (if xs \<noteq> [] \<and> ex = Some (last xs) then butlast xs else xs)"

context gio_reader
begin

lemma collectFragments_loop_ok:
  assumes "ok b"
  shows "\<exists>more frag e b'. collectFragments_loop read_call v b full n
      = Some (Inr ((full @ more, frag, n + int (length (concat more @ frag)), e), b')) \<and> ok b'
    \<and> concat more @ frag = through v (stream rest b)
    \<and> e = (if v \<in> set (stream rest b) then None else Some EOF)
    \<and> stream rest b = through v (stream rest b) @ stream rest b'"
  using assms
proof (induction "length (stream rest b)" arbitrary: b full n rule: less_induct)
  case less
  obtain line e b1 where rs: "Comparable_ReadSlice read_call b v = Some (Inr ((line, e), b1))" "ok b1"
    "Bufio_Size b1 = Bufio_Size b"
    and out: "slice_outcome at_eof v (Bufio_Size b) (stream rest b) line e (stream rest b1)"
    using ReadSlice_ok [OF less.prems, of v] by blast
  have st: "stream rest b = line @ stream rest b1" using out by (simp add: slice_outcome_def)
  consider (found) "e = None" "v \<in> set (stream rest b)" "line = through v (stream rest b)"
    | (full) "v \<notin> set line" "e = Some ErrBufferFull" "int (length line) = Bufio_Size b"
    | (eof) "v \<notin> set line" "e = Some EOF" "stream rest b1 = []"
    using out unfolding slice_outcome_def at_eof_def by blast
  then show ?case
  proof cases
    case found
    show ?thesis
    proof (intro exI conjI)
      show "collectFragments_loop read_call v b full n
          = Some (Inr ((full @ [], line, n + int (length (concat [] @ line)), None), b1))"
        using rs(1) found(1) by (subst collectFragments_loop.simps) simp
      show "ok b1" by (rule rs(2))
      show "concat [] @ line = through v (stream rest b)" using found(3) by simp
      show "None = (if v \<in> set (stream rest b) then None else Some EOF)" using found(2) by simp
      show "stream rest b = through v (stream rest b) @ stream rest b1"
        unfolding found(3) [symmetric] by (rule st)
    qed
  next
    case eof
    then have l: "stream rest b = line" "through v line = line"
      using st by (simp, intro upto_delim_no_match) auto
    have "collectFragments_loop read_call v b full n = Some (Inr ((full, line, n + int (length line), Some EOF), b1))"
      using rs(1) eof(2) by (subst collectFragments_loop.simps) (simp add: ErrBufferFull_def)
    with eof rs(2) show ?thesis
      by (intro exI [of _ "[]"] exI [of _ line] exI [of _ "Some EOF"] exI [of _ b1]) (simp add: l)
  next
    case full
    have "length line > 0" using full(3) less.prems unfolding bufio_ok_def by linarith
    then have "length (stream rest b1) < length (stream rest b)" using st by simp
    from less.hyps [OF this rs(2), of "full @ [line]" "n + int (length line)"] obtain more frag e' b' where
      IH: "collectFragments_loop read_call v b1 (full @ [line]) (n + int (length line))
        = Some (Inr (((full @ [line]) @ more, frag, n + int (length line) + int (length (concat more @ frag)), e'), b'))"
      "ok b'" "concat more @ frag = through v (stream rest b1)"
      "e' = (if v \<in> set (stream rest b1) then None else Some EOF)"
      "stream rest b1 = through v (stream rest b1) @ stream rest b'" by blast
    have "collectFragments_loop read_call v b full n
        = collectFragments_loop read_call v b1 (full @ [line]) (n + int (length line))"
      using rs(1) full(2) by (subst collectFragments_loop.simps) (simp add: ErrBufferFull_def)
    moreover have "through v (stream rest b) = line @ through v (stream rest b1)"
      unfolding st by (rule upto_append [OF full(1)])
    moreover have "v \<in> set (stream rest b) \<longleftrightarrow> v \<in> set (stream rest b1)" using full(1) st by simp
    ultimately show ?thesis
      using IH st by (intro exI [of _ "line # more"] exI [of _ frag] exI [of _ e'] exI [of _ b']) (simp add: add.assoc)
  qed
qed

lemma Comparable_ReadItems_ok:
  assumes "ok b"
  shows "\<exists>b'. Comparable_ReadItems z read_call b v
      = Some (Inr ((through v (stream rest b), if v \<in> set (stream rest b) then None else Some EOF), b'))
    \<and> ok b' \<and> stream rest b = through v (stream rest b) @ stream rest b'"
proof -
  obtain more frag e b' where c: "collectFragments_loop read_call v b [] 0
      = Some (Inr ((more, frag, int (length (concat more @ frag)), e), b'))" "ok b'"
    "concat more @ frag = through v (stream rest b)"
    "e = (if v \<in> set (stream rest b) then None else Some EOF)"
    "stream rest b = through v (stream rest b) @ stream rest b'"
    using collectFragments_loop_ok [OF assms, of v "[]" 0] unfolding append_Nil add_0 by blast
  define xs where "xs = replicate (length (through v (stream rest b))) z"
  have len: "length (concat more) + length frag = length (through v (stream rest b))"
    using arg_cong [OF c(3), of length] by simp
  obtain ys where ys: "copy_pieces more xs 0 = Inr (ys, int (length (concat more)))" "length ys = length xs"
    "take (length (concat more)) ys = concat more"
    using copy_pieces_ok [of 0 more xs] len by (auto simp: xs_def)
  let ?k = "length (concat more)"
  have "go_copy ys (int ?k) (int (length ys)) frag = Inr (int (length frag), overlay ys ?k frag)"
  proof -
    have "length ys = ?k + length frag" using ys(2) len by (simp add: xs_def)
    then show ?thesis by (simp add: go_copy_def)
  qed
  moreover have "overlay ys ?k frag = through v (stream rest b)"
    using overlay_take_fits [of ?k frag ys] ys(2,3) len c(3) by (simp add: xs_def)
  ultimately show ?thesis
    using c ys(1) by (simp add: Comparable_ReadItems_def Comparable_collectFragments_def xs_def [symmetric])
qed

lemma ReadLine_line:
  assumes "ok (cr_Reader c)" and st: "st = stream rest (cr_Reader c)"
    and "cr_delim c \<in> set st" "int (length (before (cr_delim c) st)) < Bufio_Size (cr_Reader c)"
  shows "\<exists>b'. Comparable_ReadLine read_call c
      = Some (Inr ((strip_excluded (cr_excluded c) (before (cr_delim c) st), False, None), c\<lparr>cr_Reader := b'\<rparr>))
    \<and> ok b' \<and> st = before (cr_delim c) st @ [cr_delim c] @ stream rest b'"
proof -
  let ?v = "cr_delim c"
  obtain line e b1 where rs: "Comparable_ReadSlice read_call (cr_Reader c) ?v = Some (Inr ((line, e), b1))" "ok b1"
    and out: "slice_outcome at_eof ?v (Bufio_Size (cr_Reader c)) st line e (stream rest b1)"
    using ReadSlice_ok [OF assms(1), of ?v] unfolding st by blast
  have split: "st = line @ stream rest b1" using out by (simp add: slice_outcome_def)
  have first: "st = before ?v st @ ?v # drop (Suc (length (before ?v st))) st"
    using assms(3) by (metis append.assoc append_Cons append_Nil append_take_drop_id through_before upto_delim_def)
  have "e = None \<and> line = through ?v st"
  proof -
    have "?v \<in> set line" if "int (length line) = Bufio_Size (cr_Reader c) \<or> stream rest b1 = []"
    proof -
      have "length (before ?v st) < length line"
        using that assms(4) split length_before [OF assms(3)] by auto
      then have "st ! length (before ?v st) \<in> set line" using split by (metis nth_append nth_mem)
      moreover have "st ! length (before ?v st) = ?v" using first by (metis nth_append_length)
      ultimately show ?thesis by simp
    qed
    then show ?thesis using out unfolding slice_outcome_def at_eof_def by blast
  qed
  then have line: "e = None" "line = before ?v st @ [?v]" using through_before [OF assms(3)] by auto
  have "Comparable_ReadLine read_call c
      = Some (Inr ((strip_excluded (cr_excluded c) (before ?v st), False, None), c\<lparr>cr_Reader := b1\<rparr>))"
    using rs(1) unfolding line
    by (cases "before ?v st" rule: rev_cases)
      (auto simp: Comparable_ReadLine_def strip_excluded_def Let_def nth_append split: option.splits)
  with rs(2) split line(2) show ?thesis by (intro exI [of _ b1]) simp
qed

lemma ReadLine_last:
  assumes "ok (cr_Reader c)" and st: "st = stream rest (cr_Reader c)"
    and "cr_delim c \<notin> set st" "int (length st) < Bufio_Size (cr_Reader c)"
  shows "\<exists>b'. Comparable_ReadLine read_call c
      = Some (Inr ((st, False, if st = [] then Some EOF else None), c\<lparr>cr_Reader := b'\<rparr>))
    \<and> ok b' \<and> stream rest b' = []"
proof -
  let ?v = "cr_delim c"
  obtain line e b1 where rs: "Comparable_ReadSlice read_call (cr_Reader c) ?v = Some (Inr ((line, e), b1))" "ok b1"
    and out: "slice_outcome at_eof ?v (Bufio_Size (cr_Reader c)) st line e (stream rest b1)"
    using ReadSlice_ok [OF assms(1), of ?v] unfolding st by blast
  have split: "st = line @ stream rest b1" using out by (simp add: slice_outcome_def)
  have "int (length line) \<noteq> Bufio_Size (cr_Reader c)" using split assms(4) by auto
  then have e: "e = Some EOF" "stream rest b1 = []" "line = st"
    using out assms(3) split unfolding slice_outcome_def at_eof_def by auto
  have "last st \<noteq> ?v" if "st \<noteq> []" using assms(3) last_in_set [OF that] by metis
  then have "Comparable_ReadLine read_call c
      = Some (Inr ((st, False, if st = [] then Some EOF else None), c\<lparr>cr_Reader := b1\<rparr>))"
    using rs(1) unfolding e by (auto simp: Comparable_ReadLine_def ErrBufferFull_def)
  with rs(2) e show ?thesis by blast
qed

text \<open>
  A full buffer: all of it is the prefix, less an excluded item at its end, which the rewind leaves
  for the next call.
\<close>

lemma ReadLine_full:
  assumes "ok (cr_Reader c)" "n = nat (Bufio_Size (cr_Reader c))"
    and rs: "Comparable_ReadSlice read_call (cr_Reader c) v = Some (Inr ((line, Some ErrBufferFull), b1))" "ok b1"
    and "v = cr_delim c" "length line = n" "stream rest (cr_Reader c) = line @ stream rest b1"
    and buf: "br_buf b1 = line" "br_r b1 = int n" "br_w b1 = int n"
  shows "\<exists>b'. Comparable_ReadLine read_call c
      = Some (Inr ((strip_excluded (cr_excluded c) line, True, None), c\<lparr>cr_Reader := b'\<rparr>))
    \<and> ok b' \<and> line @ stream rest b1 = strip_excluded (cr_excluded c) line @ stream rest b'"
proof -
  have n: "0 < n" "line \<noteq> []" using assms(1,2,6) by (auto simp: bufio_ok_def)
  have "sub line (nat (int n - 1)) n = [last line]"
    using sub_Cons [of "n - 1" n line] n assms(6) by (simp add: nat_diff_distrib last_conv_nth)
  then have again: "stream rest (b1\<lparr>br_r := int n - 1\<rparr>) = last line # stream rest b1"
    using buf by (simp add: stream_def buffered_def)
  have "ok (b1\<lparr>br_r := int n - 1\<rparr>)" using rs(2) buf n by (simp add: bufio_ok_def Bufio_Size_def)
  then show ?thesis
    using rs again assms(5) buf n
    by (intro exI [of _ "if cr_excluded c = Some (last line) then b1\<lparr>br_r := int n - 1\<rparr> else b1"])
      (auto simp: Comparable_ReadLine_def strip_excluded_def ErrBufferFull_def split: option.splits)
qed

text \<open>
  With no delimiter in the first \<open>n\<close> items, \<open>n\<close> being the size of the buffer, \<open>ReadSlice\<close> gives
  these as a full buffer, or else the whole stream, which is then not longer.
\<close>

lemma ReadSlice_undelimited:
  assumes "ok b" "st = stream rest b" "n = nat (Bufio_Size b)" "n \<le> length st" "v \<notin> set (take n st)"
  obtains b1 where "Comparable_ReadSlice read_call b v = Some (Inr ((take n st, Some ErrBufferFull), b1))" "ok b1"
      "st = take n st @ stream rest b1" "br_buf b1 = take n st" "br_r b1 = int n" "br_w b1 = int n"
  | b1 where "Comparable_ReadSlice read_call b v = Some (Inr ((st, Some EOF), b1))" "ok b1"
      "length st = n" "stream rest b1 = []"
proof -
  have n: "int n = Bufio_Size b" using assms(1,3) by (simp add: bufio_ok_def)
  obtain line e b1 where rs: "Comparable_ReadSlice read_call b v = Some (Inr ((line, e), b1))" "ok b1"
    and out: "slice_outcome at_eof v (Bufio_Size b) st line e (stream rest b1)"
    and full: "e = Some ErrBufferFull \<and> int (length line) = Bufio_Size b \<and> v \<notin> set line
        \<longrightarrow> br_buf b1 = line \<and> br_r b1 = Bufio_Size b \<and> br_w b1 = Bufio_Size b"
    using ReadSlice_ok [OF assms(1), of v] unfolding assms(2) by blast
  have split: "st = line @ stream rest b1" and short: "length line \<le> n"
    using out unfolding slice_outcome_def n [symmetric] by simp_all
  then have "line = take (length line) (take n st)" unfolding split by simp
  then have no: "v \<notin> set line" using assms(5) by (metis in_set_takeD)
  have "v \<in> set line" if "e = None"
  proof -
    have "v \<in> set st" "line = through v st" using out that unfolding slice_outcome_def by blast+
    with through_before [of v st] show ?thesis by simp
  qed
  with no out consider "e = Some ErrBufferFull" "int (length line) = Bufio_Size b" | "e = Some EOF" "stream rest b1 = []"
    unfolding slice_outcome_def at_eof_def by blast
  then show thesis
  proof cases
    case 1
    then have len: "length line = n" using n by simp
    then have line: "take n st = line" by (subst split) simp
    have buf: "br_buf b1 = line" "br_r b1 = int n" "br_w b1 = int n" using full 1 no n by simp_all
    show thesis by (rule that(1) [of b1]) (unfold line, use rs 1(1) split buf in simp_all)
  next
    case 2
    then have "line = st" "length st = n" using split short assms(4) by auto
    with 2 that(2) rs show thesis by simp
  qed
qed

lemma ReadLine_prefix:
  assumes "ok (cr_Reader c)" and st: "st = stream rest (cr_Reader c)"
    and "n = nat (Bufio_Size (cr_Reader c))" "n \<le> length st" "cr_delim c \<notin> set (take n st)"
  shows "\<exists>b'. ok b' \<and>
     (Comparable_ReadLine read_call c
        = Some (Inr ((strip_excluded (cr_excluded c) (take n st), True, None), c\<lparr>cr_Reader := b'\<rparr>))
      \<and> st = strip_excluded (cr_excluded c) (take n st) @ stream rest b'
      \<or> length st = n \<and> Comparable_ReadLine read_call c = Some (Inr ((st, False, None), c\<lparr>cr_Reader := b'\<rparr>))
      \<and> stream rest b' = [])"
  using assms
proof (cases rule: ReadSlice_undelimited [of "cr_Reader c" st n "cr_delim c", case_names full all])
  case (full b1)
  have "length (take n st) = n" using assms(4) by simp
  from ReadLine_full [OF assms(1,3) full(1,2) refl this _ full(4-6)] full(3) st
  show ?thesis by metis
next
  case (all b1)
  have "st \<noteq> []" using assms(1,3) all(3) by (auto simp: bufio_ok_def)
  moreover from this have "last st \<noteq> cr_delim c" using assms(5) all(3) last_in_set by force
  ultimately have "Comparable_ReadLine read_call c = Some (Inr ((st, False, None), c\<lparr>cr_Reader := b1\<rparr>))"
    using all(1) by (simp add: Comparable_ReadLine_def ErrBufferFull_def)
  with all(2-4) show ?thesis by blast
qed

end

section \<open>What the operations do\<close>

text \<open>
  C29: \<open>ReadItems\<close> returns the stream up to and with the first delimiter, however many times the
  buffer has to be refilled, and consumes exactly that; \<open>io.EOF\<close> reports that there is none.
\<close>

theorem Comparable_ReadItems_splits:
  assumes "gio_reader rc rest ri" "bufio_ok rest ri at_eof b"
  shows "\<exists>b'. Comparable_ReadItems z rc b v
      = Some (Inr ((upto_delim (\<lambda>x. x = v) (stream rest b),
          if v \<in> set (stream rest b) then None else Some EOF), b'))
    \<and> bufio_ok rest ri at_eof b' \<and> stream rest b = upto_delim (\<lambda>x. x = v) (stream rest b) @ stream rest b'"
  by (rule gio_reader.Comparable_ReadItems_ok [OF assms])

text \<open>
  C30: For every stream and every size of the buffer, over a client's reader that keeps the
  \<open>gio_reader\<close> contract, \<open>ReadLine\<close> returns and never panics, the rewind included.  It returns the
  items before the first delimiter, where they fit in the buffer with room to spare, less one excluded
  item at their end, and skips the delimiter.  Without a delimiter it returns what is left, where that
  is shorter than the buffer, and \<open>io.EOF\<close> only when that is nothing.  A line that fills the buffer is
  returned in parts marked as prefixes, where an excluded item at the end of the buffer is put back for
  the next call; only an unfinished last line of exactly the size of the buffer may also come at once,
  as it is and not marked, since the end of the client's reader may be known by then.
\<close>

theorem Comparable_ReadLine_correct:
  fixes c :: "('r, 'a) comparable_reader"
  assumes "gio_reader rc rest ri" "bufio_ok rest ri at_eof (cr_Reader c)"
    and "st = stream rest (cr_Reader c)" "n = nat (Bufio_Size (cr_Reader c))"
    and "line = takeWhile (\<lambda>x. x \<noteq> cr_delim c) st"
  shows "\<exists>b'. bufio_ok rest ri at_eof b' \<and>
     (if length line < n \<and> cr_delim c \<in> set st then
        Comparable_ReadLine rc c = Some (Inr ((strip_excluded (cr_excluded c) line, False, None), c\<lparr>cr_Reader := b'\<rparr>))
        \<and> st = line @ [cr_delim c] @ stream rest b'
      else if length line < n then
        Comparable_ReadLine rc c = Some (Inr ((st, False, if st = [] then Some EOF else None), c\<lparr>cr_Reader := b'\<rparr>))
        \<and> stream rest b' = []
      else
        Comparable_ReadLine rc c
          = Some (Inr ((strip_excluded (cr_excluded c) (take n st), True, None), c\<lparr>cr_Reader := b'\<rparr>))
        \<and> st = strip_excluded (cr_excluded c) (take n st) @ stream rest b'
        \<or> length st = n \<and> Comparable_ReadLine rc c = Some (Inr ((st, False, None), c\<lparr>cr_Reader := b'\<rparr>))
        \<and> stream rest b' = [])"
proof -
  have n: "int n = Bufio_Size (cr_Reader c)" using assms(2,4) by (simp add: bufio_ok_def)
  consider (line) "length line < n" "cr_delim c \<in> set st" | (rest) "length st < n" "cr_delim c \<notin> set st" "line = st"
    | (long) "\<not> length line < n" "n \<le> length st" "cr_delim c \<notin> set (take n st)"
    using before_cases [of "cr_delim c" st n] assms(5) by (metis in_set_takeD le_refl less_imp_le before_all)
  then show ?thesis
  proof cases
    case line
    with gio_reader.ReadLine_line [OF assms(1-3) line(2)] n assms(5) show ?thesis by auto
  next
    case rest
    with gio_reader.ReadLine_last [OF assms(1-3) rest(2)] n show ?thesis by auto
  next
    case long
    with gio_reader.ReadLine_prefix [OF assms(1-4) long(2,3)] show ?thesis by (simp only: if_False simp_thms)
  qed
qed

text \<open>
  The constructor panics for every reader that is neither a \<open>ComparableReader\<close> nor a
  \<open>Reader\<close> of this package: \<open>reset\<close> is called through the nil \<open>*Reader\<close> that the new value embeds.
\<close>

theorem newComparableReader_panics:
  "newComparableReader asC asR rd n d = Inl NilDeref \<longleftrightarrow> asC rd = None \<and> asR rd = None"
  by (simp add: newComparableReader_def split: option.split)

section \<open>Witnesses\<close>

lemma Comparable_ReadItems_splits_witness:
  "\<exists>b'. Comparable_ReadItems 0 Reader_Read (bufio_over [1, 2, 9, 4]) 9 = Some (Inr (([1, 2, 9], None), b'))
    \<and> stream ahead b' = [4]"
  using Comparable_ReadItems_splits [OF slice_reader.gio_reader_axioms bufio_over_ok(1) [of "[1, 2, 9, 4]"], of 0 9]
    bufio_over_ok(2) [of "[1, 2, 9, 4]"] by (auto simp: maxInt_def upto_delim_def)

lemma Comparable_ReadLine_correct_witness:
  "\<exists>b'. Comparable_ReadLine Reader_Read \<lparr>cr_Reader = bufio_over [1, 2, 9, 4], cr_delim = 9, cr_excluded = Some 2\<rparr>
      = Some (Inr (([1], False, None), \<lparr>cr_Reader = b', cr_delim = 9, cr_excluded = Some 2\<rparr>))
    \<and> stream ahead b' = [4]"
proof -
  have b: "bufio_ok ahead reader_ok at_eof (bufio_over [1, 2, 9, 4])" "stream ahead (bufio_over [1, 2, 9, 4]) = [1, 2, 9, 4]"
    by (rule bufio_over_ok; simp add: maxInt_def)+
  show ?thesis
    using Comparable_ReadLine_correct [OF slice_reader.gio_reader_axioms, where
        c = "\<lparr>cr_Reader = bufio_over [1, 2, 9, 4], cr_delim = 9, cr_excluded = Some 2\<rparr>" and n = 16
        and st = "[1, 2, 9, 4]" and line = "[1, 2]"]
      b bufio_over_ok(3) [of "[1, 2, 9, 4]"]
    by (fastforce simp: strip_excluded_def maxInt_def)
qed

end
