(* ===== verification/BufioSteps.thy ===== *)
theory BufioSteps
  imports BufioLines
begin

text \<open>
  The buffered readers of \<open>gbufio\<close> as a whole: any sequence of calls refines a stream from which
  items are taken at the front.  The specification knows nothing of a buffer; how many items a
  \<open>Read\<close> delivers, and when an error of the source shows, is left open as far as the contract of
  the source leaves it open.
\<close>

section \<open>The calls as data\<close>

datatype ('r, 'a) bufio_op =
  BRead nat | BReadItem | BPeek int | BDiscard int | BReadSlice 'a | BBuffered | BReset 'r

datatype 'a bufio_res = BItems "'a list" "go_error option" | BItem 'a "go_error option" | BCount int "go_error option" | BDone

text \<open>
  \<open>BRead k\<close> reads into a slice of \<open>k\<close> zero items and keeps what was delivered.  \<open>BReset r\<close> is a
  \<open>Reset\<close> to a reader \<open>r\<close> other than the buffered reader itself.
\<close>

fun bufio_call ::
  "'a \<Rightarrow> ('r, 'a) reader_fn \<Rightarrow> ('r, 'a) bufio_op \<Rightarrow> ('r, 'a) bufio_reader
   \<Rightarrow> (go_panic + ('a bufio_res \<times> ('r, 'a) bufio_reader)) option" where
  "bufio_call z rd (BRead k) b =
     Some (andThen (Bufio_Read rd b (replicate k z)) (\<lambda>((n, e, q), b'). Inr (BItems (take (nat n) q) e, b')))"
| "bufio_call z rd BReadItem b =
     map_option (\<lambda>m. andThen m (\<lambda>((c, e), b'). Inr (BItem c e, b'))) (Bufio_ReadItem z rd b)"
| "bufio_call z rd (BPeek n) b =
     map_option (\<lambda>m. andThen m (\<lambda>((ys, e), b'). Inr (BItems ys e, b'))) (Bufio_Peek rd b n)"
| "bufio_call z rd (BDiscard n) b =
     map_option (\<lambda>m. andThen m (\<lambda>((k, e), b'). Inr (BCount k e, b'))) (Bufio_Discard rd b n)"
| "bufio_call z rd (BReadSlice v) b =
     map_option (\<lambda>m. andThen m (\<lambda>((line, e), b'). Inr (BItems line e, b'))) (Comparable_ReadSlice rd b v)"
| "bufio_call z rd BBuffered b = Some (Inr (BCount (Bufio_Buffered b) None, b))"
| "bufio_call z rd (BReset r) b = Some (Inr (BDone, Bufio_Reset z b False r))"

text \<open>A reader that a call hands over has to keep its contract.\<close>

fun bufio_valid :: "('r \<Rightarrow> bool) \<Rightarrow> ('r, 'a) bufio_op \<Rightarrow> bool" where
  "bufio_valid ri (BReset r) = ri r"
| "bufio_valid ri _ = True"

inductive bufio_trace ::
  "'a \<Rightarrow> ('r, 'a) reader_fn \<Rightarrow> ('r \<Rightarrow> bool) \<Rightarrow> ('r, 'a) bufio_reader \<Rightarrow> (('r, 'a) bufio_op \<times> 'a bufio_res) list
   \<Rightarrow> ('r, 'a) bufio_reader \<Rightarrow> bool" for z rd ri b where
  start: "bufio_trace z rd ri b [] b"
| call: "bufio_trace z rd ri b tr b1 \<Longrightarrow> bufio_valid ri op \<Longrightarrow> bufio_call z rd op b1 = Some (Inr (res, b2)) \<Longrightarrow>
    bufio_trace z rd ri b (tr @ [(op, res)]) b2"

section \<open>The specification\<close>

inductive stream_step ::
  "(go_error \<Rightarrow> 'a list \<Rightarrow> bool) \<Rightarrow> ('r \<Rightarrow> 'a list) \<Rightarrow> int \<Rightarrow> ('r, 'a) bufio_op \<Rightarrow> 'a list \<Rightarrow> 'a bufio_res \<Rightarrow> 'a list \<Rightarrow> bool"
  for stop rest sz where
  read: "n \<le> k \<Longrightarrow> n \<le> length st \<Longrightarrow> \<forall>x. e = Some x \<longrightarrow> stop x (drop n st) \<Longrightarrow>
    n = 0 \<and> e = None \<longrightarrow> k = 0 \<or> stop ErrNoProgress st \<Longrightarrow>
    stream_step stop rest sz (BRead k) st (BItems (take n st) e) (drop n st)"
| item: "stream_step stop rest sz BReadItem (c # st) (BItem c None) st"
| item_stop: "stop x st \<Longrightarrow> stream_step stop rest sz BReadItem st (BItem c (Some x)) st"
| peek: "int k = n \<Longrightarrow> k \<le> length st \<Longrightarrow> n \<le> sz \<Longrightarrow> stream_step stop rest sz (BPeek n) st (BItems (take k st) None) st"
| peek_stop: "int k < n \<Longrightarrow> k \<le> length st \<Longrightarrow> n \<le> sz \<Longrightarrow> stop x (drop k st) \<Longrightarrow>
    stream_step stop rest sz (BPeek n) st (BItems (take k st) (Some x)) st"
| peek_full: "sz < n \<Longrightarrow> k \<le> length st \<Longrightarrow> int k = sz \<or> int k < sz \<and> (\<exists>x. stop x (drop k st)) \<Longrightarrow>
    stream_step stop rest sz (BPeek n) st (BItems (take k st) (Some ErrBufferFull)) st"
| peek_negative: "n < 0 \<Longrightarrow> stream_step stop rest sz (BPeek n) st (BItems [] (Some bufio_ErrNegativeCount)) st"
| discard: "int k = n \<Longrightarrow> k \<le> length st \<Longrightarrow> stream_step stop rest sz (BDiscard n) st (BCount n None) (drop k st)"
| discard_stop: "int k < n \<Longrightarrow> k \<le> length st \<Longrightarrow> stop x (drop k st) \<Longrightarrow>
    stream_step stop rest sz (BDiscard n) st (BCount (int k) (Some x)) (drop k st)"
| discard_negative: "n < 0 \<Longrightarrow> stream_step stop rest sz (BDiscard n) st (BCount 0 (Some bufio_ErrNegativeCount)) st"
| slice: "slice_outcome stop v sz st line e st' \<Longrightarrow> stream_step stop rest sz (BReadSlice v) st (BItems line e) st'"
| buffered: "0 \<le> n \<Longrightarrow> n \<le> int (length st) \<Longrightarrow> n \<le> sz \<Longrightarrow> stream_step stop rest sz BBuffered st (BCount n None) st"
| reset: "stream_step stop rest sz (BReset r) st BDone (rest r)"

inductive stream_trace ::
  "(go_error \<Rightarrow> 'a list \<Rightarrow> bool) \<Rightarrow> ('r \<Rightarrow> 'a list) \<Rightarrow> int \<Rightarrow> 'a list \<Rightarrow> (('r, 'a) bufio_op \<times> 'a bufio_res) list \<Rightarrow> 'a list \<Rightarrow> bool"
  for stop rest sz st where
  start: "stream_trace stop rest sz st [] st"
| call: "stream_trace stop rest sz st tr st1 \<Longrightarrow> stream_step stop rest sz op st1 res st2 \<Longrightarrow>
    stream_trace stop rest sz st (tr @ [(op, res)]) st2"

text \<open>The items that a call takes from the stream and hands out.\<close>

fun delivered :: "('r, 'a) bufio_op \<times> 'a bufio_res \<Rightarrow> 'a list" where
  "delivered (BRead k, BItems xs e) = xs"
| "delivered (BReadItem, BItem c None) = [c]"
| "delivered (BReadSlice v, BItems line e) = line"
| "delivered _ = []"

definition keeps_all :: "(('r, 'a) bufio_op \<times> 'a bufio_res) list \<Rightarrow> bool" where
  "keeps_all tr \<longleftrightarrow> list_all (\<lambda>(op, res). case op of BDiscard n \<Rightarrow> False | BReset r \<Rightarrow> False | _ \<Rightarrow> True) tr"

lemma stream_step_delivers:
  "stream_step stop rest sz op st res st' \<Longrightarrow> keeps_all [(op, res)] \<Longrightarrow> st = delivered (op, res) @ st'"
  by (induction rule: stream_step.induct) (auto simp: keeps_all_def slice_outcome_def)

lemma stream_trace_delivers:
  "stream_trace stop rest sz st tr st' \<Longrightarrow> keeps_all tr \<Longrightarrow> st = concat (map delivered tr) @ st'"
proof (induction rule: stream_trace.induct)
  case (call tr st1 op res st2)
  then have "st = concat (map delivered tr) @ st1" "st1 = delivered (op, res) @ st2"
    using stream_step_delivers by (auto simp: keeps_all_def)
  then show ?case by simp
qed simp

text \<open>What is buffered lies at the front of the stream, and the rest is what the source still has.\<close>

lemma drop_buffered: "drop (length (buffered b)) (stream rest b) = rest (br_rd b)"
  by (simp add: stream_def)

section \<open>Every call is a step of the specification\<close>

context gio_source
begin

lemma Read_empty_ok:
  assumes "ok b"
  shows "\<exists>e b'. Bufio_Read read_call b [] = Inr ((0, e, []), b') \<and> ok b' \<and> Bufio_Size b' = Bufio_Size b
    \<and> stream rest b' = stream rest b \<and> (\<forall>x. e = Some x \<longrightarrow> stop x (stream rest b))"
proof (cases "Bufio_Buffered b > 0")
  case False
  with assms have "br_r b = br_w b" by (simp add: bufio_ok_def Bufio_Buffered_def)
  then have "stop x (stream rest b)" if "br_err b = Some x" for x
    using assms that by (simp add: bufio_ok_def stream_def buffered_def)
  with False assms ok_clear(1) [OF assms] show ?thesis by (auto simp: Bufio_Read_def Bufio_readErr_def)
qed (use assms in \<open>auto simp: Bufio_Read_def\<close>)

lemma call_BRead:
  assumes "ok b"
  shows "\<exists>res b'. bufio_call z read_call (BRead k) b = Some (Inr (res, b')) \<and> ok b' \<and> Bufio_Size b' = Bufio_Size b
    \<and> stream_step stop rest (Bufio_Size b) (BRead k) (stream rest b) res (stream rest b')"
proof (cases k)
  case 0
  from Read_empty_ok [OF assms] obtain e b' where *: "Bufio_Read read_call b [] = Inr ((0, e, []), b')" "ok b'"
    "Bufio_Size b' = Bufio_Size b" "stream rest b' = stream rest b" "\<forall>x. e = Some x \<longrightarrow> stop x (stream rest b)"
    by blast
  then have "stream_step stop rest (Bufio_Size b) (BRead k) (stream rest b) (BItems [] e) (stream rest b')"
    using stream_step.read [of 0 k "stream rest b" e stop rest "Bufio_Size b"] 0 by simp
  with * 0 show ?thesis by auto
next
  case (Suc m)
  then have "replicate k z \<noteq> []" by simp
  from Read_ok [OF assms this, unfolded reads_def] obtain n e q b' where
    *: "Bufio_Read read_call b (replicate k z) = Inr ((int n, e, q), b')" "ok b'" "Bufio_Size b' = Bufio_Size b"
    "n \<le> k" "n \<le> length (stream rest b)" "take n q = take n (stream rest b)"
    "stream rest b' = drop n (stream rest b)" "\<forall>x. e = Some x \<longrightarrow> stop x (stream rest b')"
    "n = 0 \<and> e = None \<longrightarrow> stop ErrNoProgress (stream rest b')" unfolding length_replicate by blast
  then have "stream_step stop rest (Bufio_Size b) (BRead k) (stream rest b) (BItems (take n (stream rest b)) e) (stream rest b')"
    by (auto intro!: stream_step.read)
  with * show ?thesis by auto
qed

lemma call_BReadItem:
  assumes "ok b"
  shows "\<exists>res b'. bufio_call z read_call BReadItem b = Some (Inr (res, b')) \<and> ok b' \<and> Bufio_Size b' = Bufio_Size b
    \<and> stream_step stop rest (Bufio_Size b) BReadItem (stream rest b) res (stream rest b')"
  using ReadItem_ok [OF assms, of z] by (fastforce intro: stream_step.intros)

lemma call_BPeek:
  assumes "ok b"
  shows "\<exists>res b'. bufio_call z read_call (BPeek n) b = Some (Inr (res, b')) \<and> ok b' \<and> Bufio_Size b' = Bufio_Size b
    \<and> stream_step stop rest (Bufio_Size b) (BPeek n) (stream rest b) res (stream rest b')"
proof (cases "n < 0")
  case True
  then show ?thesis using assms by (auto simp: Bufio_Peek_def intro: stream_step.peek_negative)
next
  case False
  then have "0 \<le> n" by simp
  from Peek_ok [OF assms this] obtain ys e b' where *: "Bufio_Peek read_call b n = Some (Inr ((ys, e), b'))" "ok b'"
    "Bufio_Size b' = Bufio_Size b" "stream rest b' = stream rest b" "ys = take (length ys) (stream rest b)"
    and out: "if n > Bufio_Size b then e = Some ErrBufferFull
         \<and> (int (length ys) = Bufio_Size b \<or> (\<exists>x. stop x (rest (br_rd b')) \<and> ys = buffered b'))
       else e = None \<and> int (length ys) = n
         \<or> (\<exists>x. e = Some x \<and> int (length ys) < n \<and> stop x (rest (br_rd b')) \<and> ys = buffered b')" by blast
  have le: "length ys \<le> length (stream rest b)" using arg_cong [OF *(5), of length] by simp
  have bd: "drop (length ys) (stream rest b) = rest (br_rd b') \<and> int (length ys) \<le> Bufio_Size b" if "ys = buffered b'"
    using drop_buffered [of b' rest] buffered_ok(2) [OF *(2)] *(2-4) that
    by (simp add: bufio_ok_def Bufio_Buffered_def)
  have "stream_step stop rest (Bufio_Size b) (BPeek n) (stream rest b) (BItems (take (length ys) (stream rest b)) e) (stream rest b)"
  proof (cases "n > Bufio_Size b")
    case True
    with out bd have "int (length ys) = Bufio_Size b
        \<or> int (length ys) < Bufio_Size b \<and> (\<exists>x. stop x (drop (length ys) (stream rest b)))" by fastforce
    with True out le show ?thesis by (auto intro: stream_step.peek_full)
  next
    case False
    with out bd le show ?thesis by (auto intro: stream_step.peek stream_step.peek_stop)
  qed
  with * show ?thesis by auto
qed

lemma call_BDiscard:
  assumes "ok b"
  shows "\<exists>res b'. bufio_call z read_call (BDiscard n) b = Some (Inr (res, b')) \<and> ok b' \<and> Bufio_Size b' = Bufio_Size b
    \<and> stream_step stop rest (Bufio_Size b) (BDiscard n) (stream rest b) res (stream rest b')"
proof -
  consider "n < 0" | "n = 0" | "0 < n" by linarith
  then show ?thesis
  proof cases
    case 1
    then show ?thesis using assms by (auto simp: Bufio_Discard_def intro: stream_step.discard_negative)
  next
    case 2
    then show ?thesis
      using assms stream_step.discard [of 0 n "stream rest b" stop rest "Bufio_Size b"] by (auto simp: Bufio_Discard_def)
  next
    case 3
    from Discard_loop_ok [OF ok_clear(2) [OF assms, of None] this, of n] obtain k e b' where
      *: "Bufio_Discard read_call b n = Some (Inr ((int k, e), b'))" "ok b'" "Bufio_Size b' = Bufio_Size b"
      "k \<le> length (stream rest b)" "stream rest b' = drop k (stream rest b)"
      "e = None \<and> int k = n \<or> (\<exists>x. e = Some x \<and> int k < n \<and> stop x (stream rest b'))"
      using 3 by (auto simp: Bufio_Discard_def)
    then have "stream_step stop rest (Bufio_Size b) (BDiscard n) (stream rest b) (BCount (int k) e) (stream rest b')"
      by (auto intro: stream_step.discard stream_step.discard_stop)
    with * show ?thesis by auto
  qed
qed

lemma call_BReadSlice:
  assumes "ok b"
  shows "\<exists>res b'. bufio_call z read_call (BReadSlice v) b = Some (Inr (res, b')) \<and> ok b' \<and> Bufio_Size b' = Bufio_Size b
    \<and> stream_step stop rest (Bufio_Size b) (BReadSlice v) (stream rest b) res (stream rest b')"
  using ReadSlice_ok [OF assms, of v] by (fastforce intro: stream_step.slice)

lemma call_BBuffered:
  assumes "ok b"
  shows "stream_step stop rest (Bufio_Size b) BBuffered (stream rest b) (BCount (Bufio_Buffered b) None) (stream rest b)"
proof (rule stream_step.buffered)
  show "0 \<le> Bufio_Buffered b" "Bufio_Buffered b \<le> Bufio_Size b"
    using assms by (simp_all add: bufio_ok_def Bufio_Buffered_def)
  show "Bufio_Buffered b \<le> int (length (stream rest b))"
    using buffered_ok(2) [OF assms] by (simp add: stream_def)
qed

lemma call_BReset:
  assumes "ok b" "reader_inv r"
  shows "ok (Bufio_Reset z b False r)" "Bufio_Size (Bufio_Reset z b False r) = Bufio_Size b"
    "stream rest (Bufio_Reset z b False r) = rest r"
  using assms bufio_fresh_ok [of "br_buf b" reader_inv r rest stop]
  by (auto simp: Bufio_Reset_def bufio_ok_def Bufio_Size_def bufio_reset_def)

lemma bufio_call_ok:
  assumes "ok b" "bufio_valid reader_inv op"
  shows "\<exists>res b'. bufio_call z read_call op b = Some (Inr (res, b')) \<and> ok b' \<and> Bufio_Size b' = Bufio_Size b
    \<and> stream_step stop rest (Bufio_Size b) op (stream rest b) res (stream rest b')"
proof (cases op)
  case BBuffered
  with assms(1) call_BBuffered show ?thesis by simp
next
  case (BReset r)
  with assms call_BReset [OF assms(1), of r z] show ?thesis by (simp add: stream_step.reset)
qed (use call_BRead call_BReadItem call_BPeek call_BDiscard call_BReadSlice assms(1) in blast)+

lemma bufio_trace_ok:
  assumes "bufio_trace z read_call reader_inv b tr b'" "ok b"
  shows "ok b' \<and> Bufio_Size b' = Bufio_Size b
    \<and> stream_trace stop rest (Bufio_Size b) (stream rest b) tr (stream rest b')"
  using assms(1)
proof induction
  case (call tr b1 op res b2)
  then have b1: "ok b1" "Bufio_Size b1 = Bufio_Size b" by simp_all
  from bufio_call_ok [OF b1(1) call.hyps(2), of z] call.hyps(3) have
    "ok b2" "Bufio_Size b2 = Bufio_Size b" "stream_step stop rest (Bufio_Size b) op (stream rest b1) res (stream rest b2)"
    by (auto simp: b1(2))
  with call.IH show ?case by (blast intro: stream_trace.call)
qed (use assms(2) in \<open>simp add: stream_trace.start\<close>)

end

text \<open>
  C25: Any sequence of \<open>Read\<close>, \<open>ReadItem\<close>, \<open>Peek\<close>, \<open>Discard\<close>, \<open>ReadSlice\<close>, \<open>Buffered\<close> and \<open>Reset\<close> calls on
  a buffered reader, in any order and with any arguments, negative ones included, refines taking items
  from the front of one stream, whatever the size of the buffer and however the source delivers:
  every call returns and none panics.  Where nothing is discarded and there is no \<open>Reset\<close>, what the
  calls hand out, put together, is the front of the stream: no item is lost, repeated or reordered
  between them.
\<close>

theorem Bufio_refines_stream:
  assumes "gio_source rc rest ri stop" "bufio_ok rest ri stop b" "bufio_trace z rc ri b tr b'"
  shows "stream_trace stop rest (Bufio_Size b) (stream rest b) tr (stream rest b')
    \<and> (keeps_all tr \<longrightarrow> stream rest b = concat (map delivered tr) @ stream rest b')
    \<and> (\<forall>op. bufio_valid ri op \<longrightarrow> (\<exists>res b2. bufio_call z rc op b' = Some (Inr (res, b2))
        \<and> stream_step stop rest (Bufio_Size b) op (stream rest b') res (stream rest b2)))"
proof -
  note tr = gio_source.bufio_trace_ok [OF assms(1,3,2)]
  then show ?thesis using gio_source.bufio_call_ok [OF assms(1), of b' _ z] stream_trace_delivers by metis
qed

lemma Bufio_refines_stream_witness:
  "\<exists>b'. bufio_trace 0 Reader_Read reader_ok (bufio_over [1, 2, 3])
      [(BPeek 2, BItems [1, 2] None), (BReadItem, BItem 1 None)] b'
    \<and> stream_trace at_eof ahead 16 [1, 2, 3] [(BPeek 2, BItems [1, 2] None), (BReadItem, BItem 1 None)] (stream ahead b')
    \<and> [1, 2, 3] = [1] @ stream ahead b'"
proof -
  have over: "bufio_ok ahead reader_ok at_eof (bufio_over [1, 2, 3])" "stream ahead (bufio_over [1, 2, 3]) = [1, 2, 3]"
    "Bufio_Size (bufio_over [1, 2, 3]) = 16" using bufio_over_ok [of "[1, 2, 3]"] by (simp_all add: maxInt_def)
  obtain b1 where b1: "Bufio_Peek Reader_Read (bufio_over [1, 2, 3]) 2 = Some (Inr (([1, 2], None), b1))"
    "bufio_ok ahead reader_ok at_eof b1" "stream ahead b1 = [1, 2, 3]"
    using slice_reader.Peek_next [OF over(1), of 2] over(2,3) by auto
  obtain b2 where b2: "Bufio_ReadItem 0 Reader_Read b1 = Some (Inr ((1, None), b2))"
    using slice_reader.ReadItem_next [OF b1(2), of 0] b1(3) by auto
  have 1: "bufio_call 0 Reader_Read (BPeek 2) (bufio_over [1, 2, 3]) = Some (Inr (BItems [1, 2] None, b1))"
    "bufio_call 0 Reader_Read BReadItem b1 = Some (Inr (BItem 1 None, b2))" using b1(1) b2 by simp_all
  have tr: "bufio_trace 0 Reader_Read reader_ok (bufio_over [1, 2, 3])
      [(BPeek 2, BItems [1, 2] None), (BReadItem, BItem 1 None)] b2"
    using bufio_trace.call [OF bufio_trace.call [OF bufio_trace.start _ 1(1)] _ 1(2)] by simp
  from Bufio_refines_stream [OF slice_reader.gio_source_axioms over(1) tr] tr show ?thesis
    by (auto simp: over(2,3) keeps_all_def)
qed

end
