(* ===== verification/BufioWriter.thy ===== *)
theory BufioWriter
  imports BufioReader
begin

text \<open>
  \<open>gbufio/writer.go\<close>: the buffered \<open>Writer[T]\<close> over a client's \<open>gio.Writer[T]\<close>, and the
  \<open>ReadWriter\<close> of \<open>bufio.go\<close>.  The contract: what the client's writer has accepted followed by
  what is in the buffer is the sequence of the items written so far; an error stops everything
  and stays.
\<close>

section \<open>The writer\<close>

record ('w, 'a) bufio_writer =
  bw_err :: "go_error option"
  bw_buf :: "'a list"
  bw_n :: int
  bw_wr :: 'w

text \<open>\<open>asWriter\<close> is the type assertion \<open>w.(*Writer[T])\<close> on the dynamic value \<open>w\<close>.\<close>

definition newWriter ::
  "'a \<Rightarrow> ('w \<Rightarrow> ('w, 'a) bufio_writer option) \<Rightarrow> 'w \<Rightarrow> int \<Rightarrow> ('w, 'a) bufio_writer" where
  "newWriter z asWriter w sz =
     (let sz' = (if sz \<le> 0 then defaultBufSize else sz);
          fresh = \<lparr>bw_err = None, bw_buf = replicate (nat sz') z, bw_n = 0, bw_wr = w\<rparr>
      in case asWriter w of
           Some b \<Rightarrow> if int (length (bw_buf b)) \<ge> sz then b else fresh
         | None \<Rightarrow> fresh)"

definition BufWriter_Size :: "('w, 'a) bufio_writer \<Rightarrow> int" where
  "BufWriter_Size b = int (length (bw_buf b))"

definition BufWriter_Reset :: "'a \<Rightarrow> ('w, 'a) bufio_writer \<Rightarrow> bool \<Rightarrow> 'w \<Rightarrow> ('w, 'a) bufio_writer" where
  "BufWriter_Reset z b self w =
     (if self then b
      else
        let b1 = (if bw_buf b = [] then b\<lparr>bw_buf := replicate (nat defaultBufSize) z\<rparr> else b)
        in b1\<lparr>bw_err := None, bw_n := 0, bw_wr := w\<rparr>)"

definition BufWriter_Flush ::
  "('w, 'a) writer_fn \<Rightarrow> ('w, 'a) bufio_writer \<Rightarrow> go_panic + (go_error option \<times> ('w, 'a) bufio_writer)" where
  "BufWriter_Flush wr b =
     (if bw_err b \<noteq> None then Inr (bw_err b, b)
      else if bw_n b = 0 then Inr (None, b)
      else
        andThen (go_slice (bw_buf b) 0 (bw_n b)) (\<lambda>p.
        andThen (wr (bw_wr b) p) (\<lambda>((n, e), w).
          let b1 = b\<lparr>bw_wr := w\<rparr>;
              err = (if n < bw_n b1 \<and> e = None then Some ErrShortWrite else e)
          in if err \<noteq> None then
               andThen
                 (if n > 0 \<and> n < bw_n b1 then
                    andThen (go_slice (bw_buf b1) n (bw_n b1)) (\<lambda>ys.
                    andThen (go_copy (bw_buf b1) 0 (bw_n b1 - n) ys) (\<lambda>(_, xs).
                      Inr (b1\<lparr>bw_buf := xs\<rparr>)))
                  else Inr b1) (\<lambda>b2.
                 Inr (err, b2\<lparr>bw_n := bw_n b2 - n, bw_err := err\<rparr>))
             else Inr (None, b1\<lparr>bw_n := 0\<rparr>))))"

definition BufWriter_Available :: "('w, 'a) bufio_writer \<Rightarrow> int" where
  "BufWriter_Available b = int (length (bw_buf b)) - bw_n b"

text \<open>\<open>b.buf[b.n:][:0]\<close>: no items, but room for \<open>Available\<close> ones.\<close>

definition BufWriter_AvailableBuffer :: "('w, 'a) bufio_writer \<Rightarrow> go_panic + 'a slice" where
  "BufWriter_AvailableBuffer b =
     andThen (go_slice (bw_buf b) (bw_n b) (BufWriter_Size b)) (\<lambda>xs. Inr (slice_of xs 0))"

definition BufWriter_Buffered :: "('w, 'a) bufio_writer \<Rightarrow> int" where
  "BufWriter_Buffered b = bw_n b"

text \<open>The loop of \<open>Write\<close>: the items still to write, the count so far and the writer.\<close>

partial_function (option) BufWriter_Write_loop ::
  "('w, 'a) writer_fn \<Rightarrow> 'a list \<Rightarrow> int \<Rightarrow> ('w, 'a) bufio_writer
   \<Rightarrow> (go_panic + ('a list \<times> int \<times> ('w, 'a) bufio_writer)) option" where
  "BufWriter_Write_loop wr p nn b =
     (if int (length p) > BufWriter_Available b \<and> bw_err b = None then
        (case
           (if BufWriter_Buffered b = 0 then
              andThen (wr (bw_wr b) p) (\<lambda>((n, e), w). Inr (n, b\<lparr>bw_err := e, bw_wr := w\<rparr>))
            else
              andThen (go_copy (bw_buf b) (bw_n b) (BufWriter_Size b) p) (\<lambda>(n, xs).
              andThen (BufWriter_Flush wr (b\<lparr>bw_buf := xs, bw_n := bw_n b + n\<rparr>)) (\<lambda>(_, b1). Inr (n, b1)))) of
           Inl f \<Rightarrow> Some (Inl f)
         | Inr (n, b1) \<Rightarrow>
             (case go_slice p n (int (length p)) of
                Inl f \<Rightarrow> Some (Inl f)
              | Inr p' \<Rightarrow> BufWriter_Write_loop wr p' (nn + n) b1))
      else Some (Inr (p, nn, b)))"

definition BufWriter_Write ::
  "('w, 'a) writer_fn \<Rightarrow> ('w, 'a) bufio_writer \<Rightarrow> 'a list
   \<Rightarrow> (go_panic + ((int \<times> go_error option) \<times> ('w, 'a) bufio_writer)) option" where
  "BufWriter_Write wr b p =
     map_option (\<lambda>m. andThen m (\<lambda>(p', nn, b1).
       if bw_err b1 \<noteq> None then Inr ((nn, bw_err b1), b1)
       else
         andThen (go_copy (bw_buf b1) (bw_n b1) (BufWriter_Size b1) p') (\<lambda>(n, xs).
           Inr ((nn + n, None), b1\<lparr>bw_buf := xs, bw_n := bw_n b1 + n\<rparr>))))
       (BufWriter_Write_loop wr p 0 b)"

definition BufWriter_WriteItem ::
  "('w, 'a) writer_fn \<Rightarrow> ('w, 'a) bufio_writer \<Rightarrow> 'a \<Rightarrow> go_panic + (go_error option \<times> ('w, 'a) bufio_writer)" where
  "BufWriter_WriteItem wr b c =
     (if bw_err b \<noteq> None then Inr (bw_err b, b)
      else
        andThen (if BufWriter_Available b \<le> 0 then BufWriter_Flush wr b else Inr (None, b)) (\<lambda>(e, b1).
          if e \<noteq> None then Inr (bw_err b1, b1)
          else
            andThen (go_update (bw_buf b1) (bw_n b1) c) (\<lambda>xs.
              Inr (None, b1\<lparr>bw_buf := xs, bw_n := bw_n b1 + 1\<rparr>))))"

text \<open>
  The attempts of \<open>ReadFrom\<close> to read into \<open>b.buf[b.n:]\<close>, \<open>i\<close> of them left: the count and the
  error of the first that delivers something, \<open>None\<close> when all failed.
\<close>

fun read_tries ::
  "nat \<Rightarrow> ('r, 'a) reader_fn \<Rightarrow> 'r \<Rightarrow> 'a list \<Rightarrow> int
   \<Rightarrow> go_panic + ((int \<times> go_error option) option \<times> 'r \<times> 'a list)" where
  "read_tries 0 rd r xs n = Inr (None, r, xs)"
| "read_tries (Suc i) rd r xs n =
     andThen (go_slice xs n (int (length xs))) (\<lambda>p.
     andThen (rd r p) (\<lambda>((m, e, q), r').
       let xs' = overlay xs (nat n) q
       in if m \<noteq> 0 \<or> e \<noteq> None then Inr (Some (m, e), r', xs') else read_tries i rd r' xs' n))"

text \<open>\<open>rf\<close> is the type assertion \<open>b.wr.(gio.ReaderFrom[T])\<close>.\<close>

partial_function (option) BufWriter_ReadFrom_loop ::
  "('w, 'a) writer_fn \<Rightarrow> ('r, 'a) reader_fn
   \<Rightarrow> ('w \<Rightarrow> 'r \<Rightarrow> (go_panic + ((int \<times> go_error option) \<times> 'r \<times> 'w)) option) option
   \<Rightarrow> ('w, 'a) bufio_writer \<Rightarrow> 'r \<Rightarrow> int
   \<Rightarrow> (go_panic + ((int \<times> go_error option) \<times> 'r \<times> ('w, 'a) bufio_writer)) option" where
  "BufWriter_ReadFrom_loop wr rd rf b r n =
     (case (if BufWriter_Available b = 0 then BufWriter_Flush wr b else Inr (None, b)) of
        Inl f \<Rightarrow> Some (Inl f)
      | Inr (err1, b1) \<Rightarrow>
          if err1 \<noteq> None then Some (Inr ((n, err1), r, b1))
          else if rf \<noteq> None \<and> BufWriter_Buffered b1 = 0 then
            map_option (\<lambda>x. andThen x (\<lambda>((nn, err), r', w).
                Inr ((n + nn, err), r', b1\<lparr>bw_wr := w, bw_err := err\<rparr>)))
              (the rf (bw_wr b1) r)
          else
            (case read_tries maxConsecutiveEmptyReads rd r (bw_buf b1) (bw_n b1) of
               Inl f \<Rightarrow> Some (Inl f)
             | Inr (None, r', xs) \<Rightarrow> Some (Inr ((n, Some ErrNoProgress), r', b1\<lparr>bw_buf := xs\<rparr>))
             | Inr (Some (m, err), r', xs) \<Rightarrow>
                 let b2 = b1\<lparr>bw_buf := xs, bw_n := bw_n b1 + m\<rparr>
                 in if err = None then BufWriter_ReadFrom_loop wr rd rf b2 r' (n + m)
                    else if err = Some EOF then
                      if BufWriter_Available b2 = 0 then
                        Some (andThen (BufWriter_Flush wr b2) (\<lambda>(e, b3). Inr ((n + m, e), r', b3)))
                      else Some (Inr ((n + m, None), r', b2))
                    else Some (Inr ((n + m, err), r', b2))))"

definition BufWriter_ReadFrom ::
  "('w, 'a) writer_fn \<Rightarrow> ('r, 'a) reader_fn
   \<Rightarrow> ('w \<Rightarrow> 'r \<Rightarrow> (go_panic + ((int \<times> go_error option) \<times> 'r \<times> 'w)) option) option
   \<Rightarrow> ('w, 'a) bufio_writer \<Rightarrow> 'r
   \<Rightarrow> (go_panic + ((int \<times> go_error option) \<times> 'r \<times> ('w, 'a) bufio_writer)) option" where
  "BufWriter_ReadFrom wr rd rf b r =
     (if bw_err b \<noteq> None then Some (Inr ((0, bw_err b), r, b))
      else BufWriter_ReadFrom_loop wr rd rf b r 0)"

section \<open>ReadWriter\<close>

record ('r, 'w, 'a) bufio_ReadWriter =
  rw_Reader :: "('r, 'a) bufio_reader"
  rw_Writer :: "('w, 'a) bufio_writer"

definition NewReadWriter ::
  "('r, 'a) bufio_reader \<Rightarrow> ('w, 'a) bufio_writer \<Rightarrow> ('r, 'w, 'a) bufio_ReadWriter" where
  "NewReadWriter r w = \<lparr>rw_Reader = r, rw_Writer = w\<rparr>"

section \<open>The written items\<close>

text \<open>\<open>bufw xs w n e\<close>: the writer whose buffer \<open>xs\<close> holds \<open>n\<close> items that were not flushed.\<close>

definition bufw :: "'a list \<Rightarrow> 'w \<Rightarrow> nat \<Rightarrow> go_error option \<Rightarrow> ('w, 'a) bufio_writer" where
  "bufw xs w n e = \<lparr>bw_err = e, bw_buf = xs, bw_n = int n, bw_wr = w\<rparr>"

definition flow :: "('w \<Rightarrow> 'a list) \<Rightarrow> ('w, 'a) bufio_writer \<Rightarrow> 'a list" where
  "flow got b = got (bw_wr b) @ take (nat (bw_n b)) (bw_buf b)"

definition bufw_ok :: "('w \<Rightarrow> bool) \<Rightarrow> ('w, 'a) bufio_writer \<Rightarrow> bool" where
  "bufw_ok wi b \<longleftrightarrow> 0 \<le> bw_n b \<and> bw_n b \<le> BufWriter_Size b \<and> 0 < BufWriter_Size b \<and> wi (bw_wr b)"

lemma bufw_sel [simp]:
  "bw_err (bufw xs w n e) = e" "bw_buf (bufw xs w n e) = xs" "bw_n (bufw xs w n e) = int n"
  "bw_wr (bufw xs w n e) = w" "BufWriter_Size (bufw xs w n e) = int (length xs)"
  "BufWriter_Buffered (bufw xs w n e) = int n"
  "BufWriter_Available (bufw xs w n e) = int (length xs) - int n"
  "flow got (bufw xs w n e) = got w @ take n xs"
  "bufw_ok wi (bufw xs w n e) \<longleftrightarrow> n \<le> length xs \<and> xs \<noteq> [] \<and> wi w"
  by (auto simp: bufw_def BufWriter_Size_def BufWriter_Buffered_def BufWriter_Available_def flow_def bufw_ok_def)

lemma bufw_upd [simp]:
  "bufw xs w n e\<lparr>bw_err := e'\<rparr> = bufw xs w n e'" "bufw xs w n e\<lparr>bw_buf := ys\<rparr> = bufw ys w n e"
  "bufw xs w n e\<lparr>bw_n := int m\<rparr> = bufw xs w m e" "bufw xs w n e\<lparr>bw_n := 0\<rparr> = bufw xs w 0 e"
  "bufw xs w n e\<lparr>bw_n := 1 + int m\<rparr> = bufw xs w (Suc m) e"
  "bufw xs w n e\<lparr>bw_n := int m + 1\<rparr> = bufw xs w (Suc m) e"
  "bufw xs w n e\<lparr>bw_wr := w'\<rparr> = bufw xs w' n e"
  by (simp_all add: bufw_def)

lemma bufw_okE:
  assumes "bufw_ok wi b"
  obtains xs w n e where "b = bufw xs w n e" "n \<le> length xs" "xs \<noteq> []" "wi w"
proof -
  have "b = bufw (bw_buf b) (bw_wr b) (nat (bw_n b)) (bw_err b)"
    using assms by (simp add: bufw_ok_def bufw_def)
  then obtain xs w n e where b: "b = bufw xs w n e" by blast
  show thesis by (rule that [OF b]) (use assms in \<open>simp_all add: b\<close>)
qed

text \<open>A later state of the same writer: the buffer keeps its size, and the client's writer has got more.\<close>

definition bufw_later :: "('w \<Rightarrow> 'a list) \<Rightarrow> ('w, 'a) bufio_writer \<Rightarrow> ('w, 'a) bufio_writer \<Rightarrow> bool" where
  "bufw_later got b b' \<longleftrightarrow> BufWriter_Size b' = BufWriter_Size b \<and> (\<exists>ys. got (bw_wr b') = got (bw_wr b) @ ys)"

lemma bufw_later_refl [simp]: "bufw_later got b b"
  by (simp add: bufw_later_def)

lemma bufw_later_trans [trans]: "bufw_later got a b \<Longrightarrow> bufw_later got b c \<Longrightarrow> bufw_later got a c"
  by (auto simp: bufw_later_def)

lemma bufw_later_bufw [simp]:
  "bufw_later got (bufw xs w n e) (bufw ys w' m e') \<longleftrightarrow> length ys = length xs \<and> (\<exists>zs. got w' = got w @ zs)"
  by (simp add: bufw_later_def)

text \<open>A step that panics with one of \<open>F\<close> or gives a result with \<open>P\<close>.\<close>

definition panics_or :: "go_panic set \<Rightarrow> ('x \<Rightarrow> bool) \<Rightarrow> go_panic + 'x \<Rightarrow> bool" where
  "panics_or F P m \<longleftrightarrow> (case m of Inl f \<Rightarrow> f \<in> F | Inr x \<Rightarrow> P x)"

lemma panics_or_simps [simp]: "panics_or F P (Inl f) \<longleftrightarrow> f \<in> F" "panics_or F P (Inr x) \<longleftrightarrow> P x"
  by (simp_all add: panics_or_def)

lemma panics_or_andThen:
  "panics_or F P m \<Longrightarrow> (\<And>x. P x \<Longrightarrow> panics_or F Q (f x)) \<Longrightarrow> panics_or F Q (andThen m f)"
  by (cases m) auto

context gio_sink
begin

lemma Flush_ok:
  assumes "bufw_ok writer_inv b"
  shows "panics_or faults (\<lambda>(e, b'). bufw_ok writer_inv b' \<and> flow got b' = flow got b
      \<and> e = bw_err b' \<and> bufw_later got b b'
      \<and> (bw_err b \<noteq> None \<longrightarrow> b' = b) \<and> (e = None \<longrightarrow> bw_n b' = 0)) (BufWriter_Flush write_call b)"
proof -
  obtain xs w n e where b: "b = bufw xs w n e" "n \<le> length xs" "xs \<noteq> []" "writer_inv w"
    by (rule bufw_okE [OF assms]) (rule that)
  show ?thesis
  proof (cases "e \<noteq> None \<or> n = 0")
    case True
    with b show ?thesis by (auto simp: BufWriter_Flush_def)
  next
    case False
    show ?thesis
    proof (cases "write_call w (take n xs)")
      case (Inl f)
      with False b sink_panic [OF b(4) Inl] show ?thesis
        by (auto simp: BufWriter_Flush_def go_slice_def sub_from_start)
    next
      case (Inr y)
      then obtain m e1 w1 where wr: "write_call w (take n xs) = Inr ((m, e1), w1)" by (cases y) auto
      obtain k where k: "m = int k" "k \<le> n" "writer_inv w1" "got w1 = got w @ take k (take n xs)"
        "k < n \<longrightarrow> e1 \<noteq> None" using sink_ok [OF b(4) wr] b(2) by auto
      show ?thesis
      proof (cases "e1 = None")
        case True
        with False b wr k show ?thesis
          by (auto simp: BufWriter_Flush_def go_slice_def sub_from_start)
      next
        case e1: False
        define ys where "ys = (if 0 < k \<and> k < n then overlay xs 0 (sub xs k n) else xs)"
        have ys: "length ys = length xs" "take (n - k) ys = sub xs k n"
          using b(2) k(2) overlay_take_fits [of 0 "sub xs k n" xs]
          by (auto simp: ys_def sub_def)
        have "BufWriter_Flush write_call b = Inr (e1, bufw ys w1 (n - k) e1)"
          using False b wr k(1,2) e1
          by (auto simp: BufWriter_Flush_def go_slice_def sub_from_start go_copy_def ys_def min_def
              simp flip: of_nat_diff)
        moreover have "take n xs = take k xs @ sub xs k n"
          using sub_append [of 0 k n xs] k(2) by (simp add: sub_from_start)
        ultimately show ?thesis using b k(2-4) e1 ys False by (auto simp: min_def)
      qed
    qed
  qed
qed

end

text \<open>The same for a call that also has to return.\<close>

definition returns_or :: "go_panic set \<Rightarrow> ('x \<Rightarrow> bool) \<Rightarrow> (go_panic + 'x) option \<Rightarrow> bool" where
  "returns_or F P m \<longleftrightarrow> (\<exists>x. m = Some x \<and> panics_or F P x)"

lemma returns_or_simps [simp]: "returns_or F P (Some x) \<longleftrightarrow> panics_or F P x" "\<not> returns_or F P None"
  by (simp_all add: returns_or_def)

lemma panics_or_mono: "panics_or F P m \<Longrightarrow> (\<And>x. P x \<Longrightarrow> Q x) \<Longrightarrow> panics_or F Q m"
  by (cases m) auto

lemma returns_or_mono: "returns_or F P m \<Longrightarrow> (\<And>x. P x \<Longrightarrow> Q x) \<Longrightarrow> returns_or F Q m"
  by (auto simp: returns_or_def intro: panics_or_mono)

lemma returns_or_map:
  "returns_or F P m \<Longrightarrow> (\<And>x. P x \<Longrightarrow> panics_or F Q (f x)) \<Longrightarrow> returns_or F Q (map_option (\<lambda>x. andThen x f) m)"
  by (auto simp: returns_or_def intro: panics_or_andThen)

lemma go_slice_from: "k \<le> length p \<Longrightarrow> go_slice p (int k) (int (length p)) = Inr (drop k p)"
  by (simp add: go_slice_def sub_to_end)

text \<open>Copying items behind the buffered ones.\<close>

lemma copy_in:
  assumes "n \<le> length xs" "k = min (length xs - n) (length p)"
  shows "go_copy xs (int n) (int (length xs)) p = Inr (int k, overlay xs n (take k p))"
    and "take (n + k) (overlay xs n (take k p)) = take n xs @ take k p"
proof -
  have k: "take (length xs - n) p = take k p" using assms(2) by (simp add: min_def)
  show "go_copy xs (int n) (int (length xs)) p = Inr (int k, overlay xs n (take k p))"
    using assms by (simp add: go_copy_def k flip: of_nat_diff of_nat_min)
  have "n + length (take k p) = n + k" using assms(2) by simp
  with overlay_take_fits [of n "take k p" xs] assms
  show "take (n + k) (overlay xs n (take k p)) = take n xs @ take k p" by simp
qed

context gio_sink
begin

abbreviation wok :: "('w, 'a) bufio_writer \<Rightarrow> bool" where
  "wok \<equiv> bufw_ok writer_inv"

text \<open>What the loop of \<open>Write\<close> achieves: some front of \<open>p\<close> is written, the rest fits or there is an error.\<close>

definition partly :: "'a list \<Rightarrow> int \<Rightarrow> ('w, 'a) bufio_writer \<Rightarrow> 'a list \<times> int \<times> ('w, 'a) bufio_writer \<Rightarrow> bool" where
  "partly p nn b res \<longleftrightarrow> (case res of (p', nn', b') \<Rightarrow>
     \<exists>k. k \<le> length p \<and> p' = drop k p \<and> nn' = nn + int k \<and> wok b' \<and> flow got b' = flow got b @ take k p
       \<and> bufw_later got b b' \<and> (bw_err b' \<noteq> None \<or> int (length p') \<le> BufWriter_Available b')
       \<and> (bw_err b \<noteq> None \<longrightarrow> b' = b \<and> k = 0))"

lemma partly_step:
  assumes "partly (drop k p) (nn + int k) b1 res" "k \<le> length p" "flow got b1 = flow got b @ take k p" "bw_err b = None"
    "bufw_later got b b1"
  shows "partly p nn b res"
proof -
  from assms(1) obtain j b' where res: "res = (drop j (drop k p), nn + int k + int j, b')"
    "j \<le> length (drop k p)" "wok b'" "flow got b' = flow got b1 @ take j (drop k p)"
    "bw_err b' \<noteq> None \<or> int (length (drop j (drop k p))) \<le> BufWriter_Available b'" "bufw_later got b b'"
    unfolding partly_def using bufw_later_trans [OF assms(5)] by blast
  then show ?thesis
    using assms(2-4) unfolding partly_def res(1) prod.case
    by (intro exI [of _ "k + j"])
      (simp add: take_add [of k j] drop_drop [of j k] add.commute [of j k] del: drop_drop)
qed

lemma Write_loop_stop:
  assumes "wok b" "bw_err b \<noteq> None \<or> int (length p) \<le> BufWriter_Available b"
  shows "returns_or faults (partly p nn b) (BufWriter_Write_loop write_call p nn b)"
proof -
  have "BufWriter_Write_loop write_call p nn b = Some (Inr (p, nn, b))"
    using assms(2) by (subst BufWriter_Write_loop.simps) auto
  then show ?thesis using assms by (auto simp: partly_def)
qed

lemma Write_loop_direct:
  assumes "wok b" "bw_n b = 0"
  shows "returns_or faults (partly p nn b) (BufWriter_Write_loop write_call p nn b)"
proof (cases "bw_err b \<noteq> None \<or> int (length p) \<le> BufWriter_Available b")
  case True
  with assms(1) show ?thesis by (rule Write_loop_stop)
next
  case False
  obtain xs w n e where b: "b = bufw xs w n e" "n \<le> length xs" "xs \<noteq> []" "writer_inv w"
    by (rule bufw_okE [OF assms(1)]) (rule that)
  with False assms(2) have e: "e = None" "n = 0" by auto
  show ?thesis
  proof (cases "write_call w p")
    case (Inl f)
    with False b e have "BufWriter_Write_loop write_call p nn b = Some (Inl f)"
      by (subst BufWriter_Write_loop.simps) simp
    with sink_panic [OF b(4) Inl] show ?thesis by simp
  next
    case (Inr y)
    then obtain m e1 w1 where wr: "write_call w p = Inr ((m, e1), w1)" by (cases y) auto
    obtain k where k: "m = int k" "k \<le> length p" "writer_inv w1" "got w1 = got w @ take k p"
      "k < length p \<longrightarrow> e1 \<noteq> None" using sink_ok [OF b(4) wr] by auto
    define b1 where "b1 = bufw xs w1 0 e1"
    have run: "BufWriter_Write_loop write_call p nn b = BufWriter_Write_loop write_call (drop k p) (nn + int k) b1"
      using False b e wr k(1,2) by (subst BufWriter_Write_loop.simps) (simp add: go_slice_from b1_def)
    have "wok b1" "bw_err b1 \<noteq> None \<or> int (length (drop k p)) \<le> BufWriter_Available b1"
      using b k(2,3,5) by (auto simp: b1_def)
    from Write_loop_stop [OF this, of "nn + int k"] show ?thesis
      unfolding run by (rule returns_or_mono) (rule partly_step, use k b e in \<open>auto simp: b1_def\<close>)
  qed
qed

lemma Write_loop_ok:
  assumes "wok b"
  shows "returns_or faults (partly p nn b) (BufWriter_Write_loop write_call p nn b)"
proof (cases "bw_err b \<noteq> None \<or> int (length p) \<le> BufWriter_Available b \<or> bw_n b = 0")
  case True
  with Write_loop_stop [OF assms] Write_loop_direct [OF assms] show ?thesis by blast
next
  case False
  obtain xs w n e where b: "b = bufw xs w n e" "n \<le> length xs" "xs \<noteq> []" "writer_inv w"
    by (rule bufw_okE [OF assms]) (rule that)
  with False have e: "e = None" "0 < n" "length xs - n < length p" by auto
  define k where "k = length xs - n"
  have k: "k = min (length xs - n) (length p)" "k \<le> length p" "n + k = length xs" using e(3) b(2) by (auto simp: k_def)
  define b0 where "b0 = bufw (overlay xs n (take k p)) w (n + k) None"
  have b0: "wok b0" "flow got b0 = flow got b @ take k p" "bufw_later got b b0"
    using b k copy_in(2) [OF b(2) k(1)] length_overlay [OF b(2), of "take k p"]
    by (auto simp: b0_def simp del: length_overlay)
  have run: "BufWriter_Write_loop write_call p nn b =
      (case BufWriter_Flush write_call b0 of Inl f \<Rightarrow> Some (Inl f)
       | Inr (_, b1) \<Rightarrow> BufWriter_Write_loop write_call (drop k p) (nn + int k) b1)"
    using False b(1) e copy_in(1) [OF b(2) k(1)] k(2)
    by (subst BufWriter_Write_loop.simps)
      (auto simp: go_slice_from b0_def andThen_def split: sum.split simp flip: of_nat_add)
  show ?thesis
  proof (cases "BufWriter_Flush write_call b0")
    case (Inl f)
    with Flush_ok [OF b0(1)] run show ?thesis by simp
  next
    case (Inr y)
    then obtain e1 b1 where fl: "BufWriter_Flush write_call b0 = Inr (e1, b1)" by (cases y) auto
    with Flush_ok [OF b0(1)] have b1: "wok b1" "flow got b1 = flow got b @ take k p"
      "bw_err b1 \<noteq> None \<or> bw_n b1 = 0" "bufw_later got b b1"
      using bufw_later_trans [OF b0(3)] by (auto simp: b0(2))
    then have "returns_or faults (partly (drop k p) (nn + int k) b1)
        (BufWriter_Write_loop write_call (drop k p) (nn + int k) b1)"
      using Write_loop_stop Write_loop_direct by blast
    then show ?thesis
      unfolding run fl by (simp, elim returns_or_mono) (rule partly_step, use k b e b1 in auto)
  qed
qed

lemma Write_ok:
  assumes "wok b"
  shows "returns_or faults (\<lambda>((n, e), b'). wok b' \<and> e = bw_err b' \<and> bufw_later got b b'
      \<and> (\<exists>k. n = int k \<and> k \<le> length p \<and> flow got b' = flow got b @ take k p \<and> (e = None \<longrightarrow> k = length p))
      \<and> (bw_err b \<noteq> None \<longrightarrow> b' = b \<and> n = 0)) (BufWriter_Write write_call b p)"
  unfolding BufWriter_Write_def
proof (rule returns_or_map [OF Write_loop_ok [OF assms]])
  fix res
  assume "partly p 0 b res"
  then obtain p' nn' b' k where res: "res = (p', nn', b')" "k \<le> length p" "p' = drop k p" "nn' = int k"
    "wok b'" "flow got b' = flow got b @ take k p"
    "bw_err b' \<noteq> None \<or> int (length p') \<le> BufWriter_Available b'" "bw_err b \<noteq> None \<longrightarrow> b' = b \<and> k = 0"
    "bufw_later got b b'" by (auto simp: partly_def)
  obtain xs w n e where b': "b' = bufw xs w n e" "n \<le> length xs" "xs \<noteq> []" "writer_inv w"
    by (rule bufw_okE [OF res(5)]) (rule that)
  show "panics_or faults (\<lambda>((n, e), b'). wok b' \<and> e = bw_err b' \<and> bufw_later got b b'
      \<and> (\<exists>k. n = int k \<and> k \<le> length p \<and> flow got b' = flow got b @ take k p \<and> (e = None \<longrightarrow> k = length p))
      \<and> (bw_err b \<noteq> None \<longrightarrow> b' = b \<and> n = 0))
    (case res of (p', nn, b1) \<Rightarrow> if bw_err b1 \<noteq> None then Inr ((nn, bw_err b1), b1)
       else andThen (go_copy (bw_buf b1) (bw_n b1) (BufWriter_Size b1) p') (\<lambda>(n, xs).
         Inr ((nn + n, None), b1\<lparr>bw_buf := xs, bw_n := bw_n b1 + n\<rparr>)))"
  proof (cases "e = None")
    case False
    with res b' show ?thesis by auto
  next
    case True
    define m where "m = length p'"
    have m: "m = min (length xs - n) (length p')" "n + m \<le> length xs" "take m p' = p'"
      using res(7) True b' by (auto simp: m_def)
    have "overlay xs n p' \<noteq> []" using b'(2,3) by (metis length_overlay list.size(3) length_0_conv)
    moreover have "bw_err b = None" using res(8) True b'(1) by auto
    moreover have "take (n + m) (overlay xs n p') = take n xs @ p'"
      using copy_in(2) [OF b'(2) m(1)] by (simp add: m(3))
    moreover have "(case res of (p', nn, b1) \<Rightarrow> if bw_err b1 \<noteq> None then Inr ((nn, bw_err b1), b1)
       else andThen (go_copy (bw_buf b1) (bw_n b1) (BufWriter_Size b1) p') (\<lambda>(n, xs).
         Inr ((nn + n, None), b1\<lparr>bw_buf := xs, bw_n := bw_n b1 + n\<rparr>)))
      = Inr ((int (k + m), None), bufw (overlay xs n p') w (n + m) None)"
      using copy_in(1) [OF b'(2) m(1)] by (simp add: res(1,4) b'(1) True m(3) flip: of_nat_add)
    moreover have "got w @ take n xs @ p' = flow got b @ p" 
      using res(3,6) b'(1) append_take_drop_id [of k p] by (metis append.assoc bufw_sel(8))
    moreover have "k + m = length p" using res(2,3) by (simp add: m_def)
    moreover have "bufw_later got b (bufw (overlay xs n p') w (n + m) None)"
      using res(9) by (rule bufw_later_trans) (use b' in simp)
    ultimately show ?thesis using b' m(2) by simp
  qed
qed

end

context gio_sink
begin

text \<open>Flushing a full buffer makes room for an item.\<close>

lemma room_ok:
  assumes "wok b" "bw_err b = None"
  shows "panics_or faults (\<lambda>(e, b'). wok b' \<and> flow got b' = flow got b \<and> e = bw_err b' \<and> bufw_later got b b'
      \<and> (e = None \<longrightarrow> bw_n b' < BufWriter_Size b'))
    (if BufWriter_Available b = 0 then BufWriter_Flush write_call b else Inr (None, b))"
proof (cases "BufWriter_Available b = 0")
  case True
  then show ?thesis by (simp, intro panics_or_mono [OF Flush_ok [OF assms(1)]]) (auto simp: bufw_ok_def)
next
  case False
  with assms show ?thesis by (simp add: bufw_ok_def BufWriter_Available_def BufWriter_Size_def)
qed

lemma WriteItem_ok:
  assumes "wok b"
  shows "panics_or faults (\<lambda>(e, b'). wok b' \<and> e = bw_err b' \<and> bufw_later got b b'
      \<and> flow got b' = (if e = None then flow got b @ [c] else flow got b)
      \<and> (bw_err b \<noteq> None \<longrightarrow> b' = b)) (BufWriter_WriteItem write_call b c)" (is "panics_or faults ?P _")
proof (cases "bw_err b = None")
  case False
  with assms show ?thesis by (simp add: BufWriter_WriteItem_def)
next
  case True
  have "BufWriter_Available b \<le> 0 \<longleftrightarrow> BufWriter_Available b = 0"
    using assms by (auto simp: bufw_ok_def BufWriter_Available_def BufWriter_Size_def)
  then have run: "BufWriter_WriteItem write_call b c =
      andThen (if BufWriter_Available b = 0 then BufWriter_Flush write_call b else Inr (None, b)) (\<lambda>(e, b1).
        if e \<noteq> None then Inr (bw_err b1, b1)
        else andThen (go_update (bw_buf b1) (bw_n b1) c) (\<lambda>xs. Inr (None, b1\<lparr>bw_buf := xs, bw_n := bw_n b1 + 1\<rparr>)))"
    (is "_ = andThen _ ?put") using True by (simp add: BufWriter_WriteItem_def)
  show ?thesis unfolding run
  proof (rule panics_or_andThen [OF room_ok [OF assms True]])
    fix x
    assume "case x of (e, b') \<Rightarrow> wok b' \<and> flow got b' = flow got b \<and> e = bw_err b' \<and> bufw_later got b b'
      \<and> (e = None \<longrightarrow> bw_n b' < BufWriter_Size b')"
    then obtain b1 where x: "x = (bw_err b1, b1)" "wok b1" "flow got b1 = flow got b" "bufw_later got b b1"
      "bw_err b1 = None \<longrightarrow> bw_n b1 < BufWriter_Size b1" by auto
    obtain xs w n e1 where b1: "b1 = bufw xs w n e1" "n \<le> length xs" "xs \<noteq> []" "writer_inv w"
      by (rule bufw_okE [OF x(2)]) (rule that)
    have "bufw_later got b (bufw (xs[n := c]) w (Suc n) e1)" using x(4) by (rule bufw_later_trans) (simp add: b1(1))
    moreover have "take (Suc n) (xs[n := c]) = take n xs @ [c]" if "n < length xs"
      using that by (simp add: take_Suc_conv_app_nth)
    ultimately show "panics_or faults ?P (?put x)"
      using x b1 True by (auto simp: go_update_def)
  qed
qed

end

text \<open>\<open>ReadFrom\<close> has a source and a sink.\<close>

locale gio_pipe = gio_source read_call rest reader_inv stop + gio_sink write_call got writer_inv faults
  for read_call :: "('r, 'a) reader_fn" and rest reader_inv stop
    and write_call :: "('w, 'a) writer_fn" and got writer_inv faults
begin

lemma read_tries_ok:
  assumes "n < length xs" "reader_inv r" "k = 0 \<Longrightarrow> stop ErrNoProgress (rest r)"
  shows "\<exists>res r' ys. read_tries k read_call r xs (int n) = Inr (res, r', ys) \<and> reader_inv r'
    \<and> length ys = length xs \<and> take n ys = take n xs
    \<and> (case res of
         None \<Rightarrow> rest r' = rest r \<and> stop ErrNoProgress (rest r')
       | Some (m, e) \<Rightarrow> \<exists>j. m = int j \<and> n + j \<le> length xs \<and> j \<le> length (rest r)
           \<and> take (n + j) ys = take n xs @ take j (rest r) \<and> rest r' = drop j (rest r)
           \<and> (e = None \<longrightarrow> 0 < j) \<and> (\<forall>x. e = Some x \<longrightarrow> stop x (rest r')))"
  using assms
proof (induction k arbitrary: xs r)
  case 0
  then show ?case by simp
next
  case (Suc k)
  let ?p = "sub xs n (length xs)"
  have p: "?p \<noteq> []" "length ?p = length xs - n" using Suc.prems(1) by (auto simp: sub_def)
  obtain j e q r1 where rd: "read_call r ?p = Inr ((int j, e, q), r1)" "reader_inv r1"
    "j \<le> length xs - n" "j \<le> length (rest r)" "length q = length xs - n"
    "take j q = take j (rest r)" "rest r1 = drop j (rest r)" "\<forall>x. e = Some x \<longrightarrow> stop x (rest r1)"
    "j = 0 \<and> e = None \<longrightarrow> stop ErrNoProgress (rest r1)"
    using source_ok [OF Suc.prems(2) p(1)] unfolding p(2) by blast
  define ys where "ys = overlay xs n q"
  have len: "length ys = length xs" "take n ys = take n xs"
    using Suc.prems(1) by (simp_all add: ys_def)
  have "take (n + j) ys = take n ys @ sub ys n (n + j)"
    using sub_append [of 0 n "n + j" ys] by (simp add: sub_from_start)
  also have "sub ys n (n + j) = take j (rest r)"
    using Suc.prems(1) rd(3,5,6) by (simp add: ys_def overlay_sub)
  finally have got: "take (n + j) ys = take n xs @ take j (rest r)" by (simp add: len(2))
  have run: "read_tries (Suc k) read_call r xs (int n) =
      (if j \<noteq> 0 \<or> e \<noteq> None then Inr (Some (int j, e), r1, ys) else read_tries k read_call r1 ys (int n))"
    using Suc.prems(1) rd(1) by (simp add: go_slice_def ys_def Let_def)
  show ?case
  proof (cases "j = 0 \<and> e = None")
    case True
    then have "rest r1 = rest r" using rd(7) by simp
    with Suc.IH [of ys r1, unfolded len this] Suc.prems(1) rd(2,9) True show ?thesis
      unfolding run by simp
  next
    case False
    with rd len got Suc.prems(1) show ?thesis unfolding run by auto
  qed
qed

text \<open>What \<open>ReadFrom\<close> achieves when it does not panic.\<close>

definition moved :: "('w, 'a) bufio_writer \<Rightarrow> 'r \<Rightarrow> int \<Rightarrow> (int \<times> go_error option) \<times> 'r \<times> ('w, 'a) bufio_writer \<Rightarrow> bool" where
  "moved b r n res \<longleftrightarrow> (case res of ((n', e), r', b') \<Rightarrow>
     \<exists>k. n' = n + int k \<and> k \<le> length (rest r) \<and> wok b' \<and> reader_inv r' \<and> bufw_later got b b'
       \<and> flow got b' = flow got b @ take k (rest r) \<and> rest r' = drop k (rest r)
       \<and> (e = bw_err b' \<and> (e = None \<longrightarrow> stop EOF (rest r'))
          \<or> bw_err b' = None \<and> (\<exists>x. e = Some x \<and> x \<noteq> EOF \<and> stop x (rest r'))))"

lemma moved_step:
  assumes "moved b1 r1 (n + int j) res" "j \<le> length (rest r)"
    "flow got b1 = flow got b @ take j (rest r)" "rest r1 = drop j (rest r)" "bufw_later got b b1"
  shows "moved b r n res"
proof -
  obtain n' e r' b' where res0: "res = ((n', e), r', b')" by (metis prod.exhaust)
  obtain k where res: "n' = n + int j + int k" "k \<le> length (rest r1)"
    "wok b'" "reader_inv r'" "bufw_later got b1 b'" "flow got b' = flow got b1 @ take k (rest r1)"
    "rest r' = drop k (rest r1)"
    "e = bw_err b' \<and> (e = None \<longrightarrow> stop EOF (rest r'))
      \<or> bw_err b' = None \<and> (\<exists>x. e = Some x \<and> x \<noteq> EOF \<and> stop x (rest r'))"
    using assms(1) unfolding moved_def res0 prod.case by (elim exE conjE) (rule that)
  have "rest r' = drop (j + k) (rest r)" using res(7) assms(4) by (simp add: add.commute)
  with res(1-4,6,8) bufw_later_trans [OF assms(5) res(5)] show ?thesis
    using assms(2-4) unfolding moved_def res0 prod.case
    by (intro exI [of _ "j + k"]) (simp add: take_add [of j k])
qed

text \<open>One round: it ends the loop, or items \<open>j\<close> of them and an error \<open>x\<close> came from the reader.\<close>

lemma pipe_round:
  assumes "wok b" "bw_err b = None" "reader_inv r"
    and rf: "\<forall>m. rf = Some m \<longrightarrow> gio_reader_from m rest reader_inv stop got writer_inv faults"
  obtains (ends) "returns_or faults (moved b r n) (BufWriter_ReadFrom_loop write_call read_call rf b r n)"
  | (got) j x r' b2 where
    "BufWriter_ReadFrom_loop write_call read_call rf b r n =
      (if x = None then BufWriter_ReadFrom_loop write_call read_call rf b2 r' (n + int j)
       else if x = Some EOF then
         if BufWriter_Available b2 = 0 then
           Some (andThen (BufWriter_Flush write_call b2) (\<lambda>(e, b3). Inr ((n + int j, e), r', b3)))
         else Some (Inr ((n + int j, None), r', b2))
       else Some (Inr ((n + int j, x), r', b2)))"
    "wok b2" "bw_err b2 = None" "bufw_later got b b2" "flow got b2 = flow got b @ take j (rest r)" "reader_inv r'"
    "j \<le> length (rest r)" "rest r' = drop j (rest r)" "x = None \<Longrightarrow> 0 < j" "\<And>y. x = Some y \<Longrightarrow> stop y (rest r')"
proof (cases "if BufWriter_Available b = 0 then BufWriter_Flush write_call b else Inr (None, b)")
  case (Inl f)
  then have "BufWriter_ReadFrom_loop write_call read_call rf b r n = Some (Inl f)"
    by (subst BufWriter_ReadFrom_loop.simps) simp
  with room_ok [OF assms(1,2)] Inl show thesis by (intro ends) simp
next
  case (Inr y)
  then obtain e1 b1 where st: "(if BufWriter_Available b = 0 then BufWriter_Flush write_call b else Inr (None, b))
    = Inr (e1, b1)" by (cases y) auto
  with room_ok [OF assms(1,2)] have b1: "wok b1" "flow got b1 = flow got b" "e1 = bw_err b1" "bufw_later got b b1"
    "e1 = None \<Longrightarrow> bw_n b1 < BufWriter_Size b1" by auto
  obtain xs w m e where w: "b1 = bufw xs w m e" "m \<le> length xs" "xs \<noteq> []" "writer_inv w"
    by (rule bufw_okE [OF b1(1)]) (rule that)
  show thesis
  proof (cases "e1 = None")
    case False
    then have "BufWriter_ReadFrom_loop write_call read_call rf b r n = Some (Inr ((n, e1), r, b1))"
      by (subst BufWriter_ReadFrom_loop.simps) (simp add: st)
    with False b1 assms(3) show thesis by (intro ends) (auto simp: moved_def)
  next
    case True
    have e: "e = None" "m < length xs" using w(1) b1(3,5) True by auto
    show thesis
    proof (cases "rf \<noteq> None \<and> m = 0")
      case True
      then obtain mv where mv: "rf = Some mv" "m = 0" by auto
      have run: "BufWriter_ReadFrom_loop write_call read_call rf b r n =
          map_option (\<lambda>x. andThen x (\<lambda>((nn, err), r', w2). Inr ((n + nn, err), r', bufw xs w2 0 err))) (mv w r)"
        using \<open>e1 = None\<close> by (subst BufWriter_ReadFrom_loop.simps) (simp add: st w(1) mv e(1))
      from gio_reader_from.read_from_ok [OF rf [rule_format, OF mv(1)] assms(3) w(4)]
      have "returns_or faults (moved b r n) (BufWriter_ReadFrom_loop write_call read_call rf b r n)"
      proof (elim disjE exE conjE)
        fix nn x r' w2
        assume res: "mv w r = Some (Inr ((nn, x), r', w2))" "x = None \<longrightarrow> stop EOF (rest r')"
          and "transfers rest reader_inv got writer_inv r w nn r' w2"
        then obtain k where k: "nn = int k" "k \<le> length (rest r)" "reader_inv r'" "writer_inv w2"
          "rest r' = drop k (rest r)" "got w2 = got w @ take k (rest r)" by (auto simp: transfers_def)
        have "bufw_later got b (bufw xs w2 0 x)"
          using b1(4) by (rule bufw_later_trans) (simp add: w(1) k(6))
        with k res b1(2) w show ?thesis by (auto simp: run moved_def mv(2))
      qed (simp add: run)
      then show thesis by (rule ends)
    next
      case own: False
      obtain res r' ys where tr: "read_tries maxConsecutiveEmptyReads read_call r xs (int m) = Inr (res, r', ys)"
        "reader_inv r'" "length ys = length xs" "take m ys = take m xs"
        "case res of None \<Rightarrow> rest r' = rest r \<and> stop ErrNoProgress (rest r')
         | Some (i, x) \<Rightarrow> \<exists>j. i = int j \<and> m + j \<le> length xs \<and> j \<le> length (rest r)
           \<and> take (m + j) ys = take m xs @ take j (rest r) \<and> rest r' = drop j (rest r)
           \<and> (x = None \<longrightarrow> 0 < j) \<and> (\<forall>y. x = Some y \<longrightarrow> stop y (rest r'))"
        using read_tries_ok [OF e(2) assms(3), of maxConsecutiveEmptyReads]
        by (auto simp: maxConsecutiveEmptyReads_def)
      have ne: "ys \<noteq> []" using tr(3) w(3) by auto
      have later: "bufw_later got b (bufw ys w k None)" for k
        using b1(4) by (rule bufw_later_trans) (simp add: w(1) tr(3))
      show thesis
      proof (cases res)
        case None
        then have "BufWriter_ReadFrom_loop write_call read_call rf b r n
            = Some (Inr ((n, Some ErrNoProgress), r', bufw ys w m None))"
          using True tr(1) own by (subst BufWriter_ReadFrom_loop.simps) (auto simp: st w(1) e(1))
        with None tr w e b1(2) ne later show thesis by (intro ends) (auto simp: moved_def)
      next
        case (Some z)
        then obtain x j where res: "res = Some (int j, x)" and j: "m + j \<le> length xs" "j \<le> length (rest r)"
          "take (m + j) ys = take m xs @ take j (rest r)" "rest r' = drop j (rest r)"
          "x = None \<longrightarrow> 0 < j" "\<forall>y. x = Some y \<longrightarrow> stop y (rest r')"
          using tr(5) by (cases z) auto
        show thesis
        proof (rule got [of x "bufw ys w (m + j) None" r' j])
          show "BufWriter_ReadFrom_loop write_call read_call rf b r n =
              (if x = None then BufWriter_ReadFrom_loop write_call read_call rf (bufw ys w (m + j) None) r' (n + int j)
               else if x = Some EOF then
                 if BufWriter_Available (bufw ys w (m + j) None) = 0 then
                   Some (andThen (BufWriter_Flush write_call (bufw ys w (m + j) None))
                     (\<lambda>(e, b3). Inr ((n + int j, e), r', b3)))
                 else Some (Inr ((n + int j, None), r', bufw ys w (m + j) None))
               else Some (Inr ((n + int j, x), r', bufw ys w (m + j) None)))"
            using True tr(1) own
            by (subst BufWriter_ReadFrom_loop.simps) (cases "rf = None"; simp add: st w(1) e(1) res Let_def flip: of_nat_add)
        qed (use w e b1(2) j tr(2,3) ne later in auto)
      qed
    qed
  qed
qed

lemma ReadFrom_loop_ok:
  assumes "wok b" "bw_err b = None" "reader_inv r"
    and rf: "\<forall>m. rf = Some m \<longrightarrow> gio_reader_from m rest reader_inv stop got writer_inv faults"
  shows "returns_or faults (moved b r n) (BufWriter_ReadFrom_loop write_call read_call rf b r n)"
  using assms(1-3)
proof (induction "length (rest r)" arbitrary: b r n rule: less_induct)
  case less
  show ?case
  proof (cases rule: pipe_round [OF less.prems rf, of n, case_names ends got])
    case (got j x r' b2)
    consider (more) "x = None" | (eof) "x = Some EOF" | (err) y where "x = Some y" "y \<noteq> EOF" by (cases x) auto
    then show ?thesis
    proof cases
      case more
      then have "length (rest r') < length (rest r)" using got(7-9) by simp
      from less.hyps [OF this got(2,3,6), of "n + int j"] more show ?thesis
        unfolding got(1) by simp (erule returns_or_mono, rule moved_step, use got in auto)
    next
      case eof
      have "panics_or faults (\<lambda>(e, b3). moved b r n ((n + int j, e), r', b3)) (BufWriter_Flush write_call b2)"
        by (rule panics_or_mono [OF Flush_ok [OF got(2)]])
          (use got eof bufw_later_trans [OF got(4)] in \<open>auto simp: moved_def\<close>)
      then have "panics_or faults (moved b r n)
          (andThen (BufWriter_Flush write_call b2) (\<lambda>(e, b3). Inr ((n + int j, e), r', b3)))"
        by (rule panics_or_andThen) auto
      with eof got show ?thesis by (auto simp: moved_def)
    next
      case err
      with got show ?thesis by (auto simp: moved_def)
    qed
  qed
qed

end

interpretation bufio_pipe:
  gio_pipe "Bufio_Read Reader_Read" "stream ahead" "bufio_ok ahead reader_ok at_eof" at_eof
    "Buffer_Write rt" unread "\<lambda>b. runtime_ok rt \<and> buf_inv b" "{PanicErr ErrBufferTooLarge}"
  for rt :: "'a runtime"
  by unfold_locales

section \<open>Correctness of the buffered writer\<close>

text \<open>
  Over any writer that reports its counts truthfully, \<open>Write\<close> always returns (or panics as
  that writer does).  It takes the front of \<open>p\<close> it reports, in order, behind everything written
  before; that is all of \<open>p\<close> unless there is an error, which stays.
\<close>

theorem BufWriter_Write_appends:
  assumes "gio_sink wr got wi faults" "bufw_ok wi b"
  shows "returns_or faults (\<lambda>((n, e), b'). bufw_ok wi b' \<and> e = bw_err b'
      \<and> (\<exists>k. n = int k \<and> k \<le> length p \<and> flow got b' = flow got b @ take k p \<and> (e = None \<longrightarrow> k = length p)))
    (BufWriter_Write wr b p)"
  by (rule returns_or_mono [OF gio_sink.Write_ok [OF assms]]) auto

text \<open>
  \<open>WriteItem\<close> appends one item or reports the error that stays; \<open>Flush\<close> changes nothing of
  what was written in all, and when it reports no error, the client's writer has accepted all of
  it.  An error, also a short write that the client's writer does not report, leaves exactly the
  items not accepted in the buffer.
\<close>

theorem BufWriter_WriteItem_Flush:
  assumes "gio_sink wr got wi faults" "bufw_ok wi b"
  shows "panics_or faults (\<lambda>(e, b'). bufw_ok wi b' \<and> e = bw_err b'
        \<and> flow got b' = (if e = None then flow got b @ [c] else flow got b)) (BufWriter_WriteItem wr b c)
    \<and> panics_or faults (\<lambda>(e, b'). bufw_ok wi b' \<and> e = bw_err b' \<and> flow got b' = flow got b
        \<and> (e = None \<longrightarrow> got (bw_wr b') = flow got b)) (BufWriter_Flush wr b)"
proof
  show "panics_or faults (\<lambda>(e, b'). bufw_ok wi b' \<and> e = bw_err b'
        \<and> flow got b' = (if e = None then flow got b @ [c] else flow got b)) (BufWriter_WriteItem wr b c)"
    by (rule panics_or_mono [OF gio_sink.WriteItem_ok [OF assms]]) auto
  show "panics_or faults (\<lambda>(e, b'). bufw_ok wi b' \<and> e = bw_err b' \<and> flow got b' = flow got b
        \<and> (e = None \<longrightarrow> got (bw_wr b') = flow got b)) (BufWriter_Flush wr b)"
    by (rule panics_or_mono [OF gio_sink.Flush_ok [OF assms]]) (auto simp: flow_def)
qed

text \<open>
  C33: After an error every operation that writes refuses with it: nothing is accepted, the state
  stays as it is, and neither the client's writer nor the reader of \<open>ReadFrom\<close> is called (the
  equations hold for all functions \<open>wr\<close>, \<open>rd\<close> and \<open>rf\<close>).
\<close>

theorem BufWriter_error_sticks:
  assumes "bw_err b = Some x"
  shows "BufWriter_Write wr b p = Some (Inr ((0, Some x), b)) \<and> BufWriter_WriteItem wr b c = Inr (Some x, b)
    \<and> BufWriter_Flush wr b = Inr (Some x, b) \<and> BufWriter_ReadFrom wr rd rf b r = Some (Inr ((0, Some x), r, b))"
proof -
  have "BufWriter_Write_loop wr p 0 b = Some (Inr (p, 0, b))"
    using assms by (subst BufWriter_Write_loop.simps) simp
  with assms show ?thesis
    by (simp add: BufWriter_Write_def BufWriter_WriteItem_def BufWriter_Flush_def BufWriter_ReadFrom_def)
qed

text \<open>
  C34: \<open>ReadFrom\<close> on a writer that has no error yet, from a reader that keeps the \<open>gio_reader\<close>
  contract, returns, or panics as the client's writer does.  The count says how many items were taken
  from the reader; these, its front, are behind everything written before, in the buffer or already
  with the client's writer.  Without an error that is all the reader had; the error, if there is one,
  is the one that stays in the writer.  This holds for client's writers without a \<open>ReadFrom\<close> of their
  own and for those with one (\<open>rf\<close>), which is called whenever the buffer is empty, where that method
  passes the front of the reader on, and without an error all of it.
\<close>

theorem BufWriter_ReadFrom_drains:
  assumes "gio_reader rc rest ri" "gio_sink wr got wi faults"
    and "bufw_ok wi b" "bw_err b = None" "ri r"
    and "\<forall>m. rf = Some m \<longrightarrow> gio_reader_from m rest ri at_eof got wi faults"
  shows "returns_or faults (\<lambda>((n, e), r', b'). bufw_ok wi b' \<and> ri r' \<and> e = bw_err b'
      \<and> (\<exists>k. n = int k \<and> k \<le> length (rest r) \<and> flow got b' = flow got b @ take k (rest r)
          \<and> rest r' = drop k (rest r) \<and> (e = None \<longrightarrow> k = length (rest r))))
    (BufWriter_ReadFrom wr rc rf b r)"
proof -
  have pipe: "gio_pipe rc rest ri at_eof wr got wi faults"
    using gio_reader.reader_is_source [OF assms(1)] assms(2) by (rule gio_pipe.intro)
  have "returns_or faults (gio_pipe.moved rest ri at_eof got wi b r 0) (BufWriter_ReadFrom wr rc rf b r)"
    using gio_pipe.ReadFrom_loop_ok [OF pipe assms(3-6)] assms(4) by (simp add: BufWriter_ReadFrom_def)
  then show ?thesis
    by (rule returns_or_mono) (auto simp: gio_pipe.moved_def [OF pipe] at_eof_def)
qed

section \<open>Concrete runs\<close>

text \<open>Where nothing panics.\<close>

lemma no_panic: "panics_or {} P m \<Longrightarrow> \<exists>x. m = Inr x \<and> P x"
  by (cases m) auto

lemma no_panic_returns: "returns_or {} P m \<Longrightarrow> \<exists>x. m = Some (Inr x) \<and> P x"
  by (auto simp: returns_or_def dest: no_panic)

text \<open>A client's writer that takes one item per call, and says so with an error when there were more.\<close>

definition first_only :: "(int list, int) writer_fn" where
  "first_only w p =
     Inr ((int (length (take 1 p)), if length p \<le> 1 then None else Some (Foreign 0)), w @ take 1 p)"

interpretation first_only: gio_sink first_only "\<lambda>w. w" "\<lambda>_. True" "{}"
  by unfold_locales (auto simp: first_only_def intro!: exI [of _ "length (take 1 _)"] split: if_splits)

abbreviation demo_writer :: "(int list, int) bufio_writer" where
  "demo_writer \<equiv> newWriter 0 (\<lambda>_. None) [] 2"

lemma demo_writer_ok:
  "bufw_ok (\<lambda>_. True) demo_writer" "flow (\<lambda>w. w) demo_writer = []" "bw_err demo_writer = None"
  by (simp_all add: newWriter_def bufw_ok_def BufWriter_Size_def flow_def)

lemma BufWriter_Write_appends_witness:
  "\<exists>n e b'. BufWriter_Write first_only demo_writer [1, 2, 3] = Some (Inr ((n, e), b'))
    \<and> (\<exists>k. n = int k \<and> flow (\<lambda>w. w) b' = take k [1, 2, 3] \<and> (e = None \<longrightarrow> k = 3))"
  using no_panic_returns [OF BufWriter_Write_appends [OF first_only.gio_sink_axioms demo_writer_ok(1), of "[1, 2, 3]"]]
    demo_writer_ok(2) by fastforce

lemma BufWriter_WriteItem_Flush_witness:
  "\<exists>e b'. BufWriter_WriteItem first_only demo_writer 5 = Inr (e, b')
    \<and> flow (\<lambda>w. w) b' = (if e = None then [5] else [])"
  using no_panic [OF BufWriter_WriteItem_Flush [OF first_only.gio_sink_axioms demo_writer_ok(1), of 5, THEN conjunct1]]
    demo_writer_ok(2) by fastforce

lemma BufWriter_error_sticks_witness:
  "BufWriter_Write first_only (demo_writer\<lparr>bw_err := Some ErrShortWrite\<rparr>) [1, 2]
    = Some (Inr ((0, Some ErrShortWrite), demo_writer\<lparr>bw_err := Some ErrShortWrite\<rparr>))"
  by (rule BufWriter_error_sticks [THEN conjunct1]) simp

text \<open>
  From a slice through a buffered reader and a buffered writer into a \<open>Buffer\<close>, which has a
  \<open>ReadFrom\<close> of its own.
\<close>

interpretation buffer_from_bufio:
  gio_full_reader_from "\<lambda>b r. Buffer_ReadFrom (Suc (length (stream ahead r))) rt (Bufio_Read Reader_Read) b r"
    "stream ahead" "bufio_ok ahead reader_ok at_eof" at_eof
    unread "\<lambda>b. runtime_ok rt \<and> buf_inv b" "{PanicErr ErrBufferTooLarge}"
  for rt :: "'a runtime"
  by (rule Buffer_reader_from [OF bufio_slice.gio_reader_axioms])

lemma BufWriter_ReadFrom_drains_witness:
  "returns_or {PanicErr ErrBufferTooLarge} (\<lambda>((n, e), r', b'). e = bw_err b'
      \<and> (e = None \<longrightarrow> n = 2 \<and> flow unread b' = [1, 2]))
    (BufWriter_ReadFrom (Buffer_Write int_runtime) (Bufio_Read Reader_Read)
      (Some (\<lambda>b r. Buffer_ReadFrom (Suc (length (stream ahead r))) int_runtime (Bufio_Read Reader_Read) b r))
      (newWriter 0 (\<lambda>_. None) zero_Buffer 4) (bufio_over [1, 2]))"
proof -
  have z: "buf_inv (zero_Buffer :: int Buffer)" "unread (zero_Buffer :: int Buffer) = []" by (rule buf_inv_zero)+
  have w: "bufw_ok (\<lambda>b. runtime_ok int_runtime \<and> buf_inv b) (newWriter 0 (\<lambda>_. None) (zero_Buffer :: int Buffer) 4)"
    "bw_err (newWriter 0 (\<lambda>_. None) (zero_Buffer :: int Buffer) 4) = None"
    "flow unread (newWriter 0 (\<lambda>_. None) (zero_Buffer :: int Buffer) 4) = []"
    using z int_runtime_ok by (simp_all add: newWriter_def bufw_ok_def BufWriter_Size_def flow_def)
  have r: "bufio_ok ahead reader_ok at_eof (bufio_over [1, 2])" "stream ahead (bufio_over [1, 2]) = [1, 2]"
    using bufio_over_ok [of "[1, 2]"] by (simp_all add: maxInt_def)
  show ?thesis
    by (rule returns_or_mono [OF BufWriter_ReadFrom_drains [OF bufio_slice.gio_reader_axioms
            buffer_writer.gio_sink_axioms w(1,2) r(1)]])
      (use w(3) r(2) buffer_from_bufio.gio_reader_from_axioms in auto)
qed

end
