(* ===== verification/BufioWriterSteps.thy ===== *)
theory BufioWriterSteps
  imports BufioWriter
begin

text \<open>
  The buffered writers of \<open>gbufio\<close> as a whole: any sequence of calls refines a bounded queue in
  front of the client's writer.  The specification leaves open when items are passed on; it says
  that they are passed on in order, that never more than the size of the buffer are held back, and
  that an error is the last thing that happens until a \<open>Reset\<close>.
\<close>

section \<open>The calls as data\<close>

datatype ('r, 'w, 'a) bufw_op = WWrite "'a list" | WItem 'a | WFlush | WReadFrom 'r | WReset 'w

datatype 'r bufw_res = WCount int "go_error option" | WErr "go_error option" | WRead int "go_error option" 'r | WDone

text \<open>
  \<open>rf\<close> is the \<open>ReadFrom\<close> of the client's writer, if its type has one.  \<open>WReset w\<close> is a \<open>Reset\<close> to a writer \<open>w\<close> other than the buffered writer itself.
\<close>

fun bufw_call ::
  "'a \<Rightarrow> ('w, 'a) writer_fn \<Rightarrow> ('r, 'a) reader_fn \<Rightarrow> ('w, 'r) read_from_fn option \<Rightarrow> ('r, 'w, 'a) bufw_op \<Rightarrow> ('w, 'a) bufio_writer
   \<Rightarrow> (go_panic + ('r bufw_res \<times> ('w, 'a) bufio_writer)) option" where
  "bufw_call z wr rd rf (WWrite p) b =
     map_option (\<lambda>m. andThen m (\<lambda>((n, e), b'). Inr (WCount n e, b'))) (BufWriter_Write wr b p)"
| "bufw_call z wr rd rf (WItem c) b = Some (andThen (BufWriter_WriteItem wr b c) (\<lambda>(e, b'). Inr (WErr e, b')))"
| "bufw_call z wr rd rf WFlush b = Some (andThen (BufWriter_Flush wr b) (\<lambda>(e, b'). Inr (WErr e, b')))"
| "bufw_call z wr rd rf (WReadFrom r) b =
     map_option (\<lambda>m. andThen m (\<lambda>((n, e), r', b'). Inr (WRead n e r', b'))) (BufWriter_ReadFrom wr rd rf b r)"
| "bufw_call z wr rd rf (WReset w) b = Some (Inr (WDone, BufWriter_Reset z b False w))"

text \<open>The readers and writers that a call hands over have to keep their contracts.\<close>

fun bufw_valid :: "('r \<Rightarrow> bool) \<Rightarrow> ('w \<Rightarrow> bool) \<Rightarrow> ('r, 'w, 'a) bufw_op \<Rightarrow> bool" where
  "bufw_valid ri wi (WReadFrom r) = ri r"
| "bufw_valid ri wi (WReset w) = wi w"
| "bufw_valid ri wi _ = True"

inductive bufw_trace ::
  "'a \<Rightarrow> ('w, 'a) writer_fn \<Rightarrow> ('r, 'a) reader_fn \<Rightarrow> ('w, 'r) read_from_fn option \<Rightarrow> ('r \<Rightarrow> bool) \<Rightarrow> ('w \<Rightarrow> bool) \<Rightarrow> ('w, 'a) bufio_writer
   \<Rightarrow> (('r, 'w, 'a) bufw_op \<times> 'r bufw_res) list \<Rightarrow> ('w, 'a) bufio_writer \<Rightarrow> bool"
  for z wr rd rf ri wi b where
  start: "bufw_trace z wr rd rf ri wi b [] b"
| call: "bufw_trace z wr rd rf ri wi b tr b1 \<Longrightarrow> bufw_valid ri wi op \<Longrightarrow>
    bufw_call z wr rd rf op b1 = Some (Inr (res, b2)) \<Longrightarrow> bufw_trace z wr rd rf ri wi b (tr @ [(op, res)]) b2"

section \<open>The specification\<close>

text \<open>
  A state is what the client's writer has accepted, what is held back, and the error, if there was
  one.  \<open>passed sz acc ws acc' held\<close>: of the items \<open>ws\<close>, which begin with \<open>acc\<close>, the writer has
  accepted \<open>acc'\<close> and \<open>held\<close> are held back.
\<close>

type_synonym 'a sink_state = "'a list \<times> 'a list \<times> go_error option"

definition passed :: "int \<Rightarrow> 'a list \<Rightarrow> 'a list \<Rightarrow> 'a list \<Rightarrow> 'a list \<Rightarrow> bool" where
  "passed sz acc ws acc' held \<longleftrightarrow> acc' @ held = ws \<and> (\<exists>ys. acc' = acc @ ys) \<and> int (length held) \<le> sz"

inductive sink_step ::
  "(go_error \<Rightarrow> 'a list \<Rightarrow> bool) \<Rightarrow> ('r \<Rightarrow> 'a list) \<Rightarrow> ('w \<Rightarrow> 'a list) \<Rightarrow> int
   \<Rightarrow> ('r, 'w, 'a) bufw_op \<Rightarrow> 'a sink_state \<Rightarrow> 'r bufw_res \<Rightarrow> 'a sink_state \<Rightarrow> bool"
  for stop rest got sz where
  accept: "k \<le> length p \<Longrightarrow> e = None \<longrightarrow> k = length p \<Longrightarrow> passed sz acc (acc @ held @ take k p) acc' held' \<Longrightarrow>
    sink_step stop rest got sz (WWrite p) (acc, held, None) (WCount (int k) e) (acc', held', e)"
| item: "passed sz acc (acc @ held @ (if e = None then [c] else [])) acc' held' \<Longrightarrow>
    sink_step stop rest got sz (WItem c) (acc, held, None) (WErr e) (acc', held', e)"
| flush: "e = None \<longrightarrow> held' = [] \<Longrightarrow> passed sz acc (acc @ held) acc' held' \<Longrightarrow>
    sink_step stop rest got sz WFlush (acc, held, None) (WErr e) (acc', held', e)"
| read_all: "k \<le> length (rest r) \<Longrightarrow> rest r' = drop k (rest r) \<Longrightarrow> e = None \<longrightarrow> stop EOF (rest r') \<Longrightarrow>
    passed sz acc (acc @ held @ take k (rest r)) acc' held' \<Longrightarrow>
    sink_step stop rest got sz (WReadFrom r) (acc, held, None) (WRead (int k) e r') (acc', held', e)"
| read_stop: "k \<le> length (rest r) \<Longrightarrow> rest r' = drop k (rest r) \<Longrightarrow> x \<noteq> EOF \<Longrightarrow> stop x (rest r') \<Longrightarrow>
    passed sz acc (acc @ held @ take k (rest r)) acc' held' \<Longrightarrow>
    sink_step stop rest got sz (WReadFrom r) (acc, held, None) (WRead (int k) (Some x) r') (acc', held', None)"
| refuse_write: "sink_step stop rest got sz (WWrite p) (acc, held, Some x) (WCount 0 (Some x)) (acc, held, Some x)"
| refuse_item: "sink_step stop rest got sz (WItem c) (acc, held, Some x) (WErr (Some x)) (acc, held, Some x)"
| refuse_flush: "sink_step stop rest got sz WFlush (acc, held, Some x) (WErr (Some x)) (acc, held, Some x)"
| refuse_read: "sink_step stop rest got sz (WReadFrom r) (acc, held, Some x) (WRead 0 (Some x) r) (acc, held, Some x)"
| reset: "sink_step stop rest got sz (WReset w) s WDone (got w, [], None)"

inductive sink_trace ::
  "(go_error \<Rightarrow> 'a list \<Rightarrow> bool) \<Rightarrow> ('r \<Rightarrow> 'a list) \<Rightarrow> ('w \<Rightarrow> 'a list) \<Rightarrow> int
   \<Rightarrow> 'a sink_state \<Rightarrow> (('r, 'w, 'a) bufw_op \<times> 'r bufw_res) list \<Rightarrow> 'a sink_state \<Rightarrow> bool"
  for stop rest got sz s where
  start: "sink_trace stop rest got sz s [] s"
| call: "sink_trace stop rest got sz s tr s1 \<Longrightarrow> sink_step stop rest got sz op s1 res s2 \<Longrightarrow>
    sink_trace stop rest got sz s (tr @ [(op, res)]) s2"

text \<open>The items that a call took, by what it reports.\<close>

fun taken :: "('r \<Rightarrow> 'a list) \<Rightarrow> ('r, 'w, 'a) bufw_op \<times> 'r bufw_res \<Rightarrow> 'a list" where
  "taken rest (WWrite p, WCount n e) = take (nat n) p"
| "taken rest (WItem c, WErr None) = [c]"
| "taken rest (WReadFrom r, WRead n e r') = take (nat n) (rest r)"
| "taken rest _ = []"

definition no_reset :: "(('r, 'w, 'a) bufw_op \<times> 'r bufw_res) list \<Rightarrow> bool" where
  "no_reset tr \<longleftrightarrow> list_all (\<lambda>(op, res). case op of WReset w \<Rightarrow> False | _ \<Rightarrow> True) tr"

lemma sink_step_takes:
  "sink_step stop rest got sz op s res s' \<Longrightarrow> no_reset [(op, res)] \<Longrightarrow>
    fst s' @ fst (snd s') = fst s @ fst (snd s) @ taken rest (op, res) \<and> (\<exists>ys. fst s' = fst s @ ys)"
  by (induction rule: sink_step.induct) (auto simp: no_reset_def passed_def)

lemma sink_trace_takes:
  "sink_trace stop rest got sz s tr s' \<Longrightarrow> no_reset tr \<Longrightarrow>
    fst s' @ fst (snd s') = fst s @ fst (snd s) @ concat (map (taken rest) tr) \<and> (\<exists>ys. fst s' = fst s @ ys)"
proof (induction rule: sink_trace.induct)
  case (call tr s1 op res s2)
  then have "no_reset tr" "no_reset [(op, res)]" by (simp_all add: no_reset_def)
  from call.IH [OF this(1)] sink_step_takes [OF call.hyps(2) this(2)] show ?case by auto
qed simp

section \<open>The writer as a queue\<close>

definition sink_view :: "('w \<Rightarrow> 'a list) \<Rightarrow> ('w, 'a) bufio_writer \<Rightarrow> 'a sink_state" where
  "sink_view got b = (got (bw_wr b), take (nat (bw_n b)) (bw_buf b), bw_err b)"

lemma passed_later:
  assumes "bufw_ok wi b'" "bufw_later got b b'" "flow got b' = flow got b @ ws"
  shows "passed (BufWriter_Size b) (got (bw_wr b)) (got (bw_wr b) @ take (nat (bw_n b)) (bw_buf b) @ ws)
    (got (bw_wr b')) (take (nat (bw_n b')) (bw_buf b'))"
  using assms by (auto simp: passed_def bufw_later_def flow_def bufw_ok_def)

lemma bufw_reset_ok:
  assumes "bufw_ok wi b" "wi w"
  shows "bufw_ok wi (BufWriter_Reset z b False w)" "BufWriter_Size (BufWriter_Reset z b False w) = BufWriter_Size b"
    "sink_view got (BufWriter_Reset z b False w) = (got w, [], None)"
  using assms by (auto simp: BufWriter_Reset_def bufw_ok_def BufWriter_Size_def sink_view_def)

section \<open>Every call is a step of the specification\<close>

text \<open>What is said of a call on \<open>b\<close> that gives \<open>res\<close> and \<open>b'\<close>.\<close>

definition bufw_refined ::
  "(go_error \<Rightarrow> 'a list \<Rightarrow> bool) \<Rightarrow> ('r \<Rightarrow> 'a list) \<Rightarrow> ('w \<Rightarrow> 'a list) \<Rightarrow> ('w \<Rightarrow> bool) \<Rightarrow> ('r, 'w, 'a) bufw_op
   \<Rightarrow> ('w, 'a) bufio_writer \<Rightarrow> 'r bufw_res \<times> ('w, 'a) bufio_writer \<Rightarrow> bool" where
  "bufw_refined stop rest got wi op b = (\<lambda>(res, b'). bufw_ok wi b' \<and> BufWriter_Size b' = BufWriter_Size b
     \<and> sink_step stop rest got (BufWriter_Size b) op (sink_view got b) res (sink_view got b'))"

text \<open>An error that is there already is the answer of every call.\<close>

lemma bufw_refuses:
  assumes "bw_err b = Some x" "bufw_ok wi b" "\<nexists>w. op = WReset w"
  shows "returns_or F (bufw_refined stop rest got wi op b) (bufw_call z wr rd rf op b)"
proof -
  have "BufWriter_Write_loop wr p 0 b = Some (Inr (p, 0, b))" for p
    using assms(1) by (subst BufWriter_Write_loop.simps) simp
  with assms show ?thesis
    by (cases op) (auto simp: BufWriter_Write_def BufWriter_WriteItem_def BufWriter_Flush_def BufWriter_ReadFrom_def
        bufw_refined_def sink_view_def intro: sink_step.intros)
qed

context gio_pipe
begin

lemma call_WWrite:
  assumes "wok b" "bw_err b = None"
  shows "returns_or faults (bufw_refined stop rest got writer_inv (WWrite p) b) (bufw_call z write_call read_call rf (WWrite p) b)"
  unfolding bufw_call.simps
proof (rule returns_or_map [OF Write_ok [OF assms(1)]], clarsimp simp: bufw_refined_def)
  fix b' k
  assume *: "wok b'" "bufw_later got b b'" "k \<le> length p" "flow got b' = flow got b @ take k p"
    "bw_err b' = None \<longrightarrow> k = length p"
  from sink_step.accept [OF *(3,5) passed_later [OF *(1,2,4)]] *(2)
  show "BufWriter_Size b' = BufWriter_Size b \<and> sink_step stop rest got (BufWriter_Size b) (WWrite p) (sink_view got b)
      (WCount (int k) (bw_err b')) (sink_view got b')"
    using assms(2) by (simp add: sink_view_def bufw_later_def)
qed

lemma call_WItem:
  assumes "wok b" "bw_err b = None"
  shows "returns_or faults (bufw_refined stop rest got writer_inv (WItem c) b) (bufw_call z write_call read_call rf (WItem c) b)"
  unfolding bufw_call.simps returns_or_simps
proof (rule panics_or_andThen [OF WriteItem_ok [OF assms(1)]], clarsimp simp: bufw_refined_def)
  fix b'
  assume *: "wok b'" "bufw_later got b b'" "flow got b' = (if bw_err b' = None then flow got b @ [c] else flow got b)"
  then have "flow got b' = flow got b @ (if bw_err b' = None then [c] else [])" by simp
  from sink_step.item [OF passed_later [OF *(1,2) this]] *(2)
  show "BufWriter_Size b' = BufWriter_Size b \<and> sink_step stop rest got (BufWriter_Size b) (WItem c) (sink_view got b)
      (WErr (bw_err b')) (sink_view got b')"
    using assms(2) by (simp add: sink_view_def bufw_later_def)
qed

lemma call_WFlush:
  assumes "wok b" "bw_err b = None"
  shows "returns_or faults (bufw_refined stop rest got writer_inv WFlush b) (bufw_call z write_call read_call rf WFlush b)"
  unfolding bufw_call.simps returns_or_simps
proof (rule panics_or_andThen [OF Flush_ok [OF assms(1)]], clarsimp simp: bufw_refined_def)
  fix b'
  assume *: "wok b'" "flow got b' = flow got b" "bufw_later got b b'" "bw_err b' = None \<longrightarrow> bw_n b' = 0"
  then have "flow got b' = flow got b @ []" by simp
  from passed_later [OF *(1,3) this] *(3,4)
  show "BufWriter_Size b' = BufWriter_Size b \<and> sink_step stop rest got (BufWriter_Size b) WFlush (sink_view got b)
      (WErr (bw_err b')) (sink_view got b')"
    using assms(2) by (simp add: sink_view_def bufw_later_def sink_step.flush)
qed

lemma call_WReadFrom:
  assumes "wok b" "bw_err b = None" "reader_inv r"
    and "\<forall>m. rf = Some m \<longrightarrow> gio_reader_from m rest reader_inv stop got writer_inv faults"
  shows "returns_or faults (bufw_refined stop rest got writer_inv (WReadFrom r) b)
    (bufw_call z write_call read_call rf (WReadFrom r) b)"
proof -
  have "returns_or faults (moved b r 0) (BufWriter_ReadFrom write_call read_call rf b r)"
    using ReadFrom_loop_ok [OF assms] assms(2) by (simp add: BufWriter_ReadFrom_def)
  then show ?thesis unfolding bufw_call.simps
  proof (rule returns_or_map)
    fix res
    assume "moved b r 0 res"
    then obtain k e r' b' where res: "res = ((int k, e), r', b')" and
      *: "k \<le> length (rest r)" "rest r' = drop k (rest r)" "wok b'" "bufw_later got b b'" "flow got b' = flow got b @ take k (rest r)"
      "e = bw_err b' \<and> (e = None \<longrightarrow> stop EOF (rest r'))
        \<or> bw_err b' = None \<and> (\<exists>x. e = Some x \<and> x \<noteq> EOF \<and> stop x (rest r'))"
      by (auto simp: moved_def)
    note pa = passed_later [OF *(3,4,5)]
    from *(6) have "sink_step stop rest got (BufWriter_Size b) (WReadFrom r) (sink_view got b) (WRead (int k) e r') (sink_view got b')"
    proof (elim disjE conjE exE)
      assume "e = bw_err b'" "e = None \<longrightarrow> stop EOF (rest r')"
      from sink_step.read_all [where rest = rest and stop = stop, OF *(1,2) this(2) pa] this(1) show ?thesis by (simp add: sink_view_def assms(2))
    next
      fix x
      assume "bw_err b' = None" "e = Some x" "x \<noteq> EOF" "stop x (rest r')"
      from sink_step.read_stop [where rest = rest and stop = stop, OF *(1,2) this(3,4) pa] this(1,2) show ?thesis by (simp add: sink_view_def assms(2))
    qed
    with *(3,4) show "panics_or faults (bufw_refined stop rest got writer_inv (WReadFrom r) b)
        (case res of (x, xa) \<Rightarrow> (case x of (n, e) \<Rightarrow> \<lambda>(r', b'). Inr (WRead n e r', b')) xa)"
      by (simp add: res bufw_refined_def bufw_later_def)
  qed
qed

lemma bufw_call_ok:
  assumes "wok b" "bufw_valid reader_inv writer_inv op"
    and "\<forall>m. rf = Some m \<longrightarrow> gio_reader_from m rest reader_inv stop got writer_inv faults"
  shows "returns_or faults (bufw_refined stop rest got writer_inv op b) (bufw_call z write_call read_call rf op b)"
proof (cases "\<exists>w. op = WReset w")
  case True
  with assms show ?thesis
    by (auto simp: bufw_refined_def bufw_reset_ok intro: sink_step.reset)
next
  case reset: False
  show ?thesis
  proof (cases "bw_err b")
    case None
    with reset assms call_WWrite call_WItem call_WFlush call_WReadFrom show ?thesis by (cases op) auto
  next
    case (Some x)
    with reset assms(1) show ?thesis by (intro bufw_refuses)
  qed
qed

lemma bufw_trace_ok:
  assumes "bufw_trace z write_call read_call rf reader_inv writer_inv b tr b'" "wok b"
    and "\<forall>m. rf = Some m \<longrightarrow> gio_reader_from m rest reader_inv stop got writer_inv faults"
  shows "wok b' \<and> BufWriter_Size b' = BufWriter_Size b
    \<and> sink_trace stop rest got (BufWriter_Size b) (sink_view got b) tr (sink_view got b')"
  using assms(1)
proof induction
  case (call tr b1 op res b2)
  then have b1: "wok b1" "BufWriter_Size b1 = BufWriter_Size b" by simp_all
  from bufw_call_ok [OF b1(1) call.hyps(2) assms(3), of z] call.hyps(3) have "bufw_refined stop rest got writer_inv op b1 (res, b2)"
    by simp
  with call.IH b1(2) show ?case by (auto simp: bufw_refined_def intro: sink_trace.call)
qed (use assms(2) in \<open>simp add: sink_trace.start\<close>)

end

text \<open>
  C31: Any sequence of \<open>Write\<close>, \<open>WriteItem\<close>, \<open>Flush\<close>, \<open>ReadFrom\<close> and \<open>Reset\<close> calls on a buffered writer
  refines a queue of bounded length in front of the client's writer, and every further call returns
  as the specification says or panics as the client's writer does.  Up to a \<open>Reset\<close>, what the client's
  writer has accepted only grows, and together with the items held back it is exactly what the calls
  report to have taken, in order, whatever errors there were in between.  The client's readers keep
  the \<open>gio_source\<close> contract and its writers the \<open>gio_sink\<close> contract; where these have a \<open>ReadFrom\<close> of
  their own (\<open>rf\<close>), to which an empty buffer delegates, it reports its counts truthfully too
  (\<open>gio_reader_from\<close>).
\<close>

theorem BufWriter_refines_queue:
  assumes "gio_source rc rest ri stop" "gio_sink wr got wi faults" "bufw_ok wi b"
    and "\<forall>m. rf = Some m \<longrightarrow> gio_reader_from m rest ri stop got wi faults"
    and "bufw_trace z wr rc rf ri wi b tr b'"
  shows "sink_trace stop rest got (BufWriter_Size b) (sink_view got b) tr (sink_view got b')
    \<and> (no_reset tr \<longrightarrow> flow got b' = flow got b @ concat (map (taken rest) tr)
        \<and> (\<exists>ys. got (bw_wr b') = got (bw_wr b) @ ys))
    \<and> (\<forall>op. bufw_valid ri wi op \<longrightarrow>
        returns_or faults (bufw_refined stop rest got wi op b') (bufw_call z wr rc rf op b'))"
proof -
  have pipe: "gio_pipe rc rest ri stop wr got wi faults" by (rule gio_pipe.intro [OF assms(1,2)])
  note tr = gio_pipe.bufw_trace_ok [OF pipe assms(5,3,4)]
  have "fst (sink_view got c) = got (bw_wr c)" "fst (sink_view got c) @ fst (snd (sink_view got c)) = flow got c" for c
    by (simp_all add: sink_view_def flow_def)
  with tr gio_pipe.bufw_call_ok [OF pipe, of b' _ rf z] assms(4) sink_trace_takes show ?thesis by (metis append.assoc)
qed

text \<open>
  A \<open>ReadFrom\<close> for the client's writer that takes one item per call: it takes one item of a slice
  \<open>Reader\<close>, and reports an error where there are more.
\<close>

definition first_from :: "(int list, int Reader) read_from_fn" where
  "first_from w r =
     (let k = length (take 1 (ahead r))
      in Some (Inr ((int k, if length (ahead r) \<le> 1 then None else Some (Foreign 0)),
           r\<lparr>prevRune := -1, rd_i := rd_i r + int k\<rparr>, w @ take 1 (ahead r))))"

interpretation first_from: gio_reader_from first_from ahead reader_ok at_eof "\<lambda>w. w" "\<lambda>_. True" "{}"
proof
  fix r :: "int Reader" and w :: "int list"
  assume r: "reader_ok r"
  define k where "k = length (take 1 (ahead r))"
  have k: "k \<le> length (ahead r)" "take k (ahead r) = take 1 (ahead r)" by (simp_all add: k_def min_def)
  have run: "first_from w r = Some (Inr ((int k, if length (ahead r) \<le> 1 then None else Some (Foreign 0)),
      r\<lparr>prevRune := -1, rd_i := rd_i r + int k\<rparr>, w @ take k (ahead r)))"
    unfolding first_from_def Let_def k_def [symmetric] k(2) ..
  have "reader_ok (r\<lparr>prevRune := -1, rd_i := rd_i r + int k\<rparr>)"
    using reader_ok_advance [OF r k(1)] r by (cases "k = 0") (simp_all add: reader_ok_def)
  moreover have "length (ahead r) \<le> 1 \<Longrightarrow> drop k (ahead r) = []" by (auto simp: k_def min_def)
  ultimately show "(\<exists>f. first_from w r = Some (Inl f) \<and> f \<in> {})
    \<or> (\<exists>n e r' w'. first_from w r = Some (Inr ((n, e), r', w'))
        \<and> transfers ahead reader_ok (\<lambda>w. w) (\<lambda>_. True) r w n r' w' \<and> (e = None \<longrightarrow> at_eof EOF (ahead r')))"
    using k ahead_advance [OF r, where n = k and k = "-1"] run by (auto simp: transfers_def at_eof_def)
qed

text \<open>One item, written and flushed to the client's writer that takes one item per call; then a \<open>ReadFrom\<close>, delegated.\<close>

lemma demo_trace:
  "bufw_trace 0 first_only Reader_Read (Some first_from) reader_ok (\<lambda>_. True) demo_writer
    [(WItem 5, WErr None), (WFlush, WErr None),
     (WReadFrom (NewReader [6, 7]), WRead 1 (Some (Foreign 0)) \<lparr>rd_s = [6, 7], rd_i = 1, prevRune = -1\<rparr>)]
    \<lparr>bw_err = Some (Foreign 0), bw_buf = [5, 0], bw_n = 0, bw_wr = [5, 6]\<rparr>"
proof -
  have 1: "bufw_call 0 first_only Reader_Read (Some first_from) (WItem 5) demo_writer
      = Some (Inr (WErr None, \<lparr>bw_err = None, bw_buf = [5, 0], bw_n = 1, bw_wr = []\<rparr>))"
    by (simp add: BufWriter_WriteItem_def newWriter_def BufWriter_Available_def go_update_def numeral_2_eq_2)
  have 2: "bufw_call 0 first_only Reader_Read (Some first_from) WFlush \<lparr>bw_err = None, bw_buf = [5, 0], bw_n = 1, bw_wr = []\<rparr>
      = Some (Inr (WErr None, \<lparr>bw_err = None, bw_buf = [5, 0], bw_n = 0, bw_wr = [5]\<rparr>))"
    by (simp add: BufWriter_Flush_def go_slice_def sub_def first_only_def)
  have 3: "bufw_call 0 first_only Reader_Read (Some first_from) (WReadFrom (NewReader [6, 7]))
        \<lparr>bw_err = None, bw_buf = [5, 0], bw_n = 0, bw_wr = [5]\<rparr>
      = Some (Inr (WRead 1 (Some (Foreign 0)) \<lparr>rd_s = [6, 7], rd_i = 1, prevRune = -1\<rparr>,
          \<lparr>bw_err = Some (Foreign 0), bw_buf = [5, 0], bw_n = 0, bw_wr = [5, 6]\<rparr>))"
    by (simp add: BufWriter_ReadFrom_def BufWriter_ReadFrom_loop.simps BufWriter_Available_def BufWriter_Buffered_def
        first_from_def NewReader_def ahead_def)
  show ?thesis
    using bufw_trace.call [OF bufw_trace.call [OF bufw_trace.call [OF bufw_trace.start _ 1] _ 2] _ 3]
    by (simp add: reader_ok_def NewReader_def maxInt_def)
qed

lemma BufWriter_refines_queue_witness:
  "sink_trace at_eof ahead (\<lambda>w. w) 2 ([], [], None)
      [(WItem 5, WErr None), (WFlush, WErr None),
       (WReadFrom (NewReader [6, 7]), WRead 1 (Some (Foreign 0)) \<lparr>rd_s = [6, 7], rd_i = 1, prevRune = -1\<rparr>)]
      ([5 :: int, 6], [], Some (Foreign 0))
    \<and> returns_or {} (bufw_refined at_eof ahead (\<lambda>w. w) (\<lambda>_. True) (WWrite [1, 2, 3])
          \<lparr>bw_err = Some (Foreign 0), bw_buf = [5, 0], bw_n = 0, bw_wr = [5 :: int, 6]\<rparr>)
        (bufw_call 0 first_only Reader_Read (Some first_from) (WWrite [1, 2, 3])
          \<lparr>bw_err = Some (Foreign 0), bw_buf = [5, 0], bw_n = 0, bw_wr = [5, 6]\<rparr>)"
proof -
  have "sink_view (\<lambda>w. w) demo_writer = ([], [], None)" "BufWriter_Size demo_writer = 2"
    "sink_view (\<lambda>w. w) \<lparr>bw_err = Some (Foreign 0), bw_buf = [5 :: int, 0], bw_n = 0, bw_wr = [5, 6]\<rparr>
      = ([5, 6], [], Some (Foreign 0))"
    by (simp_all add: sink_view_def newWriter_def BufWriter_Size_def)
  moreover have "bufw_valid reader_ok (\<lambda>_. True) (WWrite [1, 2, 3] :: (int Reader, int list, int) bufw_op)" by simp
  moreover have "\<forall>m. Some first_from = Some m \<longrightarrow> gio_reader_from m ahead reader_ok at_eof (\<lambda>w. w) (\<lambda>_. True) {}"
    using first_from.gio_reader_from_axioms by simp
  ultimately show ?thesis
    using BufWriter_refines_queue [OF slice_reader.gio_source_axioms first_only.gio_sink_axioms demo_writer_ok(1) _ demo_trace]
    by metis
qed

end
