(* ===== verification/BufioConfig.thy ===== *)
theory BufioConfig
  imports BufioLines BufioWriter
begin

text \<open>
  \<open>gbufio/config.go\<close>: the options of the package, and the exported constructors of the readers and
  of the writer, which apply them.  The external package \<open>cfg\<close> is a parameter of each definition
  that uses it.
\<close>

section \<open>Options\<close>

record 'a bufio_config =
  cfg_size :: int
  cfg_delim :: 'a
  cfg_excluded :: "'a option"

text \<open>The zero value, and the configuration the constructors of \<open>gbufio\<close> start from.\<close>

definition zero_config :: "'a \<Rightarrow> 'a bufio_config" where
  "zero_config z = \<lparr>cfg_size = 0, cfg_delim = z, cfg_excluded = None\<rparr>"

definition defaultConfig :: "'a \<Rightarrow> 'a bufio_config" where
  "defaultConfig z = \<lparr>cfg_size = defaultBufSize, cfg_delim = z, cfg_excluded = None\<rparr>"

text \<open>\<open>register\<close> and \<open>noOp\<close> are those of the external package \<open>cfg\<close>.\<close>

definition WithSize :: "(('a bufio_config \<Rightarrow> 'a bufio_config) \<Rightarrow> 'o) \<Rightarrow> int \<Rightarrow> 'o" where
  "WithSize register n = register (\<lambda>c. c\<lparr>cfg_size := n\<rparr>)"

definition WithDelim :: "(('a bufio_config \<Rightarrow> 'a bufio_config) \<Rightarrow> 'o) \<Rightarrow> 'a \<Rightarrow> 'o" where
  "WithDelim register d = register (\<lambda>c. c\<lparr>cfg_delim := d\<rparr>)"

definition WithExcluded ::
  "(('a bufio_config \<Rightarrow> 'a bufio_config) \<Rightarrow> 'o) \<Rightarrow> 'o \<Rightarrow> 'a option \<Rightarrow> 'o" where
  "WithExcluded register noOp x =
     (if x = None then noOp else register (\<lambda>c. c\<lparr>cfg_excluded := x\<rparr>))"

section \<open>Constructors\<close>

text \<open>\<open>cfg_set\<close> is \<open>cfg.Set\<close>: the configuration after the options.\<close>

definition NewComparableReader ::
  "'a \<Rightarrow> ('a bufio_config \<Rightarrow> 'o list \<Rightarrow> 'a bufio_config)
   \<Rightarrow> ('r \<Rightarrow> ('s, 'a) comparable_reader option) \<Rightarrow> ('r \<Rightarrow> ('s, 'a) bufio_reader option)
   \<Rightarrow> 'r \<Rightarrow> 'o list \<Rightarrow> go_panic + ('s, 'a) comparable_reader" where
  "NewComparableReader z cfg_set asComparable asReader rd opts =
     (let config = cfg_set (defaultConfig z) opts
      in newComparableReader asComparable asReader rd (cfg_size config) (cfg_delim config))"

definition NewReader_bufio ::
  "'a \<Rightarrow> ('a bufio_config \<Rightarrow> 'o list \<Rightarrow> 'a bufio_config) \<Rightarrow> ('r \<Rightarrow> ('r, 'a) bufio_reader option)
   \<Rightarrow> 'r \<Rightarrow> 'o list \<Rightarrow> ('r, 'a) bufio_reader" where
  "NewReader_bufio z cfg_set asReader rd opts =
     (let config = cfg_set (defaultConfig z) opts in newReader z asReader rd (cfg_size config))"

definition NewWriter ::
  "'a \<Rightarrow> ('a bufio_config \<Rightarrow> 'o list \<Rightarrow> 'a bufio_config) \<Rightarrow> ('w \<Rightarrow> ('w, 'a) bufio_writer option)
   \<Rightarrow> 'w \<Rightarrow> 'o list \<Rightarrow> ('w, 'a) bufio_writer" where
  "NewWriter z cfg_set asWriter w opts =
     (let config = cfg_set (defaultConfig z) opts in newWriter z asWriter w (cfg_size config))"

end
