(* ===== verification/BufioScanner.thy ===== *)
theory BufioScanner
  imports BufioConfig
begin

text \<open>
  \<open>gbufio/scanner.go\<close>: the \<open>Scanner[T]\<close>.
  The contract: with \<open>ScanLines\<close> and an excluded item, \<open>Scan\<close> steps through the lines of the
  client's reader, whatever the sizes of its reads; with any split function that does not panic it
  returns, and never drops items it has not shown to the split function.
\<close>

section \<open>Errors and constants of the scanner\<close>

definition ErrTooLong :: go_error where "ErrTooLong = Sentinel ''gbufio.ErrTooLong''"
definition ErrNegativeAdvance :: go_error where "ErrNegativeAdvance = Sentinel ''gbufio.ErrNegativeAdvance''"
definition ErrAdvanceTooFar :: go_error where "ErrAdvanceTooFar = Sentinel ''gbufio.ErrAdvanceTooFar''"
definition ErrBadReadCount :: go_error where "ErrBadReadCount = Sentinel ''gbufio.ErrBadReadCount''"
definition ErrFinalToken :: go_error where "ErrFinalToken = Sentinel ''gbufio.ErrFinalToken''"

definition MaxScanTokenSize :: int where "MaxScanTokenSize = 64 * 1024"
definition startBufSize :: int where "startBufSize = 4096"

section \<open>The scanner\<close>

text \<open>
  A split function gets the data, the delimiter, the excluded item and whether the reader is at
  its end.  A token is a slice that may be nil (\<open>None\<close>); it stands by its items at the time of the
  assignment.
\<close>

type_synonym 'a split_fn =
  "'a list \<Rightarrow> 'a \<Rightarrow> 'a option \<Rightarrow> bool \<Rightarrow> go_panic + (int \<times> 'a list option \<times> go_error option)"

record ('r, 'a) scanner =
  sc_r :: 'r
  sc_split :: "'a split_fn"
  sc_delim :: 'a
  sc_excluded :: "'a option"
  sc_maxTokenSize :: int
  sc_token :: "'a list option"
  sc_buf :: "'a list"
  sc_start :: int
  sc_end :: int
  sc_err :: "go_error option"
  sc_empties :: nat
  sc_scanCalled :: bool
  sc_done :: bool

text \<open>
  \<open>dropExcluded\<close>.  \<open>is_nil\<close> is the comparison of an item with nil in \<open>*zero != nil\<close>; \<open>*zero\<close>
  is evaluated whenever there is data, so that a nil \<open>zero\<close> panics.
\<close>

definition dropExcluded :: "('a \<Rightarrow> bool) \<Rightarrow> 'a list \<Rightarrow> 'a option \<Rightarrow> go_panic + 'a list" where
  "dropExcluded is_nil data zero =
     (if data = [] then Inr data
      else
        (case zero of
           None \<Rightarrow> Inl NilDeref
         | Some x \<Rightarrow> Inr (if \<not> is_nil x \<and> last data = x then butlast data else data)))"

definition ScanLines :: "('a \<Rightarrow> bool) \<Rightarrow> 'a split_fn" where
  "ScanLines is_nil data delim excluded atEOF =
     (if atEOF \<and> data = [] then Inr (0, None, None)
      else
        let i = slices_Index data delim
        in if i \<ge> 0 then
             andThen (dropExcluded is_nil (take (nat i) data) excluded) (\<lambda>line. Inr (i + 1, Some line, None))
           else if atEOF then
             andThen (dropExcluded is_nil data excluded) (\<lambda>line. Inr (int (length data), Some line, None))
           else Inr (0, None, None))"

text \<open>\<open>cfg_new\<close> is \<open>cfg.New\<close>: the zero configuration after the options.\<close>

definition NewScanner ::
  "('a \<Rightarrow> bool) \<Rightarrow> ('o list \<Rightarrow> 'a bufio_config) \<Rightarrow> 'r \<Rightarrow> 'o list \<Rightarrow> ('r, 'a) scanner" where
  "NewScanner is_nil cfg_new r opts =
     (let config = cfg_new opts
      in \<lparr>sc_r = r, sc_split = ScanLines is_nil, sc_delim = cfg_delim config,
          sc_excluded = cfg_excluded config, sc_maxTokenSize = MaxScanTokenSize, sc_token = None,
          sc_buf = [], sc_start = 0, sc_end = 0, sc_err = None, sc_empties = 0,
          sc_scanCalled = False, sc_done = False\<rparr>)"

definition Scanner_Err :: "('r, 'a) scanner \<Rightarrow> go_error option" where
  "Scanner_Err s = (if sc_err s = Some EOF then None else sc_err s)"

definition Scanner_Value :: "('r, 'a) scanner \<Rightarrow> 'a list option" where
  "Scanner_Value s = sc_token s"

definition Scanner_setErr :: "('r, 'a) scanner \<Rightarrow> go_error \<Rightarrow> ('r, 'a) scanner" where
  "Scanner_setErr s e = (if sc_err s = None \<or> sc_err s = Some EOF then s\<lparr>sc_err := Some e\<rparr> else s)"

definition Scanner_advance :: "('r, 'a) scanner \<Rightarrow> int \<Rightarrow> bool \<times> ('r, 'a) scanner" where
  "Scanner_advance s n =
     (if n < 0 then (False, Scanner_setErr s ErrNegativeAdvance)
      else if n > sc_end s - sc_start s then (False, Scanner_setErr s ErrAdvanceTooFar)
      else (True, s\<lparr>sc_start := sc_start s + n\<rparr>))"

text \<open>\<open>Buffer\<close>: all the cells of the slice up to its capacity become the buffer.\<close>

definition Scanner_Buffer :: "('r, 'a) scanner \<Rightarrow> 'a slice \<Rightarrow> int \<Rightarrow> go_panic + ('r, 'a) scanner" where
  "Scanner_Buffer s xs m =
     (if sc_scanCalled s then Inl (PanicStr ''Buffer called after Scan'')
      else Inr (s\<lparr>sc_buf := s_cells xs, sc_maxTokenSize := m\<rparr>))"

definition Scanner_Split :: "('r, 'a) scanner \<Rightarrow> 'a split_fn \<Rightarrow> go_panic + ('r, 'a) scanner" where
  "Scanner_Split s split =
     (if sc_scanCalled s then Inl (PanicStr ''Split called after Scan'')
      else Inr (s\<lparr>sc_split := split\<rparr>))"

section \<open>Scan\<close>

text \<open>
  What a token without an error leads to.  \<open>Some ok\<close> is a return from \<open>Scan\<close>, \<open>None\<close> that it
  goes on.
\<close>

definition Scan_deliver ::
  "('r, 'a) scanner \<Rightarrow> int \<Rightarrow> 'a list option \<Rightarrow> go_panic + (bool option \<times> ('r, 'a) scanner)" where
  "Scan_deliver s adv token =
     (let (legal, s1) = Scanner_advance s adv
      in if \<not> legal then Inr (Some False, s1)
         else
           let s2 = s1\<lparr>sc_token := token\<rparr>
           in if token \<noteq> None then
                if sc_err s2 = None \<or> adv > 0 then Inr (Some True, s2\<lparr>sc_empties := 0\<rparr>)
                else
                  let s3 = s2\<lparr>sc_empties := sc_empties s2 + 1\<rparr>
                  in if sc_empties s3 > maxConsecutiveEmptyReads then
                       Inl (PanicStr ''bufio.Scan: too many empty tokens without progressing'')
                     else Inr (Some True, s3)
              else Inr (None, s2))"

text \<open>The first part of the loop: what the items in the buffer yield.\<close>

definition Scan_token :: "('r, 'a) scanner \<Rightarrow> go_panic + (bool option \<times> ('r, 'a) scanner)" where
  "Scan_token s =
     (if sc_end s > sc_start s \<or> sc_err s \<noteq> None then
        andThen (go_slice (sc_buf s) (sc_start s) (sc_end s)) (\<lambda>data.
        andThen (sc_split s data (sc_delim s) (sc_excluded s) (sc_err s \<noteq> None)) (\<lambda>(adv, token, err).
          case err of
            Some e \<Rightarrow>
              if errors_Is e ErrFinalToken then Inr (Some True, s\<lparr>sc_token := token, sc_done := True\<rparr>)
              else Inr (Some False, Scanner_setErr s e)
          | None \<Rightarrow> Scan_deliver s adv token))
      else Inr (None, s))"

text \<open>Making room for a read: the data is moved to the front, or the buffer grows.\<close>

definition Scan_shift :: "('r, 'a) scanner \<Rightarrow> go_panic + ('r, 'a) scanner" where
  "Scan_shift s =
     (if sc_start s > 0 \<and> (sc_end s = int (length (sc_buf s)) \<or> sc_start s > int (length (sc_buf s)) div 2) then
        andThen (go_slice (sc_buf s) (sc_start s) (sc_end s)) (\<lambda>ys.
        andThen (go_copy (sc_buf s) 0 (int (length (sc_buf s))) ys) (\<lambda>(_, xs).
          Inr (s\<lparr>sc_buf := xs, sc_end := sc_end s - sc_start s, sc_start := 0\<rparr>)))
      else Inr s)"

definition Scan_resize :: "'a \<Rightarrow> ('r, 'a) scanner \<Rightarrow> go_panic + (bool \<times> ('r, 'a) scanner)" where
  "Scan_resize z s =
     (let len = int (length (sc_buf s))
      in if sc_end s = len then
           if len \<ge> sc_maxTokenSize s \<or> len > maxInt div 2 then Inr (False, Scanner_setErr s ErrTooLong)
           else
             let n1 = len * 2;
                 n2 = (if n1 = 0 then startBufSize else n1);
                 n3 = (if n2 > sc_maxTokenSize s then sc_maxTokenSize s else n2)
             in if n3 < 0 then Inl MakeLen
                else
                  andThen (go_slice (sc_buf s) (sc_start s) (sc_end s)) (\<lambda>ys.
                  andThen (go_copy (replicate (nat n3) z) 0 n3 ys) (\<lambda>(_, xs).
                    Inr (True, s\<lparr>sc_buf := xs, sc_end := sc_end s - sc_start s, sc_start := 0\<rparr>)))
         else Inr (True, s))"

text \<open>The attempts to read, \<open>i\<close> of them left: one more than \<open>maxConsecutiveEmptyReads\<close>.\<close>

fun Scan_reads :: "nat \<Rightarrow> ('r, 'a) reader_fn \<Rightarrow> ('r, 'a) scanner \<Rightarrow> go_panic + ('r, 'a) scanner" where
  "Scan_reads 0 rd s = Inr (Scanner_setErr s ErrNoProgress)"
| "Scan_reads (Suc i) rd s =
     andThen (go_slice (sc_buf s) (sc_end s) (int (length (sc_buf s)))) (\<lambda>p.
     andThen (rd (sc_r s) p) (\<lambda>((n, e, q), r').
       let s1 = s\<lparr>sc_r := r', sc_buf := overlay (sc_buf s) (nat (sc_end s)) q\<rparr>
       in if n < 0 \<or> int (length (sc_buf s1)) - sc_end s1 < n then Inr (Scanner_setErr s1 ErrBadReadCount)
          else
            let s2 = s1\<lparr>sc_end := sc_end s1 + n\<rparr>
            in case e of
                 Some x \<Rightarrow> Inr (Scanner_setErr s2 x)
               | None \<Rightarrow>
                   if n > 0 then Inr (s2\<lparr>sc_empties := 0\<rparr>)
                   else Scan_reads i rd s2))"

text \<open>One round of the loop of \<open>Scan\<close>.\<close>

definition Scan_round ::
  "'a \<Rightarrow> ('r, 'a) reader_fn \<Rightarrow> ('r, 'a) scanner \<Rightarrow> go_panic + (bool option \<times> ('r, 'a) scanner)" where
  "Scan_round z rd s =
     andThen (Scan_token s) (\<lambda>(res, s1).
       if res \<noteq> None then Inr (res, s1)
       else if sc_err s1 \<noteq> None then Inr (Some False, s1\<lparr>sc_start := 0, sc_end := 0\<rparr>)
       else
         andThen (Scan_shift s1) (\<lambda>s2.
         andThen (Scan_resize z s2) (\<lambda>(room, s3).
           if \<not> room then Inr (Some False, s3)
           else
             andThen (Scan_reads (maxConsecutiveEmptyReads + 1) rd s3) (\<lambda>s4. Inr (None, s4)))))"

partial_function (option) Scan_loop ::
  "'a \<Rightarrow> ('r, 'a) reader_fn \<Rightarrow> ('r, 'a) scanner \<Rightarrow> (go_panic + (bool \<times> ('r, 'a) scanner)) option" where
  "Scan_loop z rd s =
     (case Scan_round z rd s of
        Inl f \<Rightarrow> Some (Inl f)
      | Inr (Some ok, s1) \<Rightarrow> Some (Inr (ok, s1))
      | Inr (None, s1) \<Rightarrow> Scan_loop z rd s1)"

definition Scanner_Scan ::
  "'a \<Rightarrow> ('r, 'a) reader_fn \<Rightarrow> ('r, 'a) scanner \<Rightarrow> (go_panic + (bool \<times> ('r, 'a) scanner)) option" where
  "Scanner_Scan z rd s =
     (if sc_done s then Some (Inr (False, s))
      else Scan_loop z rd (s\<lparr>sc_scanCalled := True\<rparr>))"

section \<open>The stream of a scanner\<close>

definition unseen :: "('r, 'a) scanner \<Rightarrow> 'a list" where
  "unseen s = sub (sc_buf s) (nat (sc_start s)) (nat (sc_end s))"

definition scan_stream :: "('r \<Rightarrow> 'a list) \<Rightarrow> ('r, 'a) scanner \<Rightarrow> 'a list" where
  "scan_stream rest s = unseen s @ rest (sc_r s)"

definition scan_ok :: "('r \<Rightarrow> bool) \<Rightarrow> ('r, 'a) scanner \<Rightarrow> bool" where
  "scan_ok ri s \<longleftrightarrow> 0 \<le> sc_start s \<and> sc_start s \<le> sc_end s \<and> sc_end s \<le> int (length (sc_buf s)) \<and> ri (sc_r s)"

text \<open>What no part of a round changes.\<close>

definition same_setup :: "('r, 'a) scanner \<Rightarrow> ('r, 'a) scanner \<Rightarrow> bool" where
  "same_setup s s' \<longleftrightarrow> sc_split s' = sc_split s \<and> sc_delim s' = sc_delim s \<and> sc_excluded s' = sc_excluded s
     \<and> sc_maxTokenSize s' = sc_maxTokenSize s"

lemma same_setup_refl [simp]: "same_setup s s"
  by (simp add: same_setup_def)

lemma same_setup_trans: "same_setup s t \<Longrightarrow> same_setup t u \<Longrightarrow> same_setup s u"
  by (simp add: same_setup_def)

lemma length_unseen: "scan_ok ri s \<Longrightarrow> int (length (unseen s)) = sc_end s - sc_start s"
  by (simp add: scan_ok_def unseen_def min_def) linarith

lemma unseen_slice: "scan_ok ri s \<Longrightarrow> go_slice (sc_buf s) (sc_start s) (sc_end s) = Inr (unseen s)"
  by (simp add: scan_ok_def unseen_def go_slice_def)

lemma scan_ok_upd [simp]:
  "scan_ok ri (s\<lparr>sc_token := t\<rparr>) = scan_ok ri s" "scan_ok ri (s\<lparr>sc_empties := c\<rparr>) = scan_ok ri s"
  "scan_ok ri (s\<lparr>sc_done := b\<rparr>) = scan_ok ri s" "scan_ok ri (s\<lparr>sc_scanCalled := b\<rparr>) = scan_ok ri s"
  by (simp_all add: scan_ok_def)

lemma unseen_upd [simp]:
  "unseen (s\<lparr>sc_token := t\<rparr>) = unseen s" "unseen (s\<lparr>sc_empties := c\<rparr>) = unseen s"
  "unseen (s\<lparr>sc_done := b\<rparr>) = unseen s" "unseen (s\<lparr>sc_scanCalled := b\<rparr>) = unseen s"
  by (simp_all add: unseen_def)

lemma scan_stream_upd [simp]:
  "scan_stream rest (s\<lparr>sc_token := t\<rparr>) = scan_stream rest s"
  "scan_stream rest (s\<lparr>sc_empties := c\<rparr>) = scan_stream rest s"
  "scan_stream rest (s\<lparr>sc_done := b\<rparr>) = scan_stream rest s"
  "scan_stream rest (s\<lparr>sc_scanCalled := b\<rparr>) = scan_stream rest s"
  by (simp_all add: scan_stream_def)

lemma same_setup_upd [simp]:
  "same_setup s (s'\<lparr>sc_token := t\<rparr>) = same_setup s s'" "same_setup s (s'\<lparr>sc_empties := c\<rparr>) = same_setup s s'"
  "same_setup s (s'\<lparr>sc_done := b\<rparr>) = same_setup s s'" "same_setup s (s'\<lparr>sc_scanCalled := b\<rparr>) = same_setup s s'"
  by (simp_all add: same_setup_def)

lemma Scanner_setErr_frame [simp]:
  "scan_ok ri (Scanner_setErr s e) = scan_ok ri s" "scan_stream rest (Scanner_setErr s e) = scan_stream rest s"
  "same_setup s (Scanner_setErr s e)" "sc_done (Scanner_setErr s e) = sc_done s"
  "sc_r (Scanner_setErr s e) = sc_r s" "unseen (Scanner_setErr s e) = unseen s" "sc_err (Scanner_setErr s e) \<noteq> None"
  by (simp_all add: Scanner_setErr_def scan_ok_def scan_stream_def unseen_def same_setup_def)

lemma Scanner_setErr_fresh: "sc_err s = None \<Longrightarrow> sc_err (Scanner_setErr s e) = Some e"
  by (simp add: Scanner_setErr_def)

lemma Scanner_advance_cases:
  assumes "scan_ok ri s" "Scanner_advance s n = (legal, s1)"
  obtains (refused) "\<not> legal" "\<exists>e. s1 = Scanner_setErr s e"
    | (moved) k where "legal" "n = int k" "k \<le> length (unseen s)" "scan_ok ri s1"
        "s1 = s\<lparr>sc_start := sc_start s + n\<rparr>" "unseen s1 = drop k (unseen s)"
        "scan_stream rest s1 = drop k (scan_stream rest s)"
proof (cases "n < 0 \<or> n > sc_end s - sc_start s")
  case True
  then show ?thesis using assms(2) by (intro refused) (auto simp: Scanner_advance_def split: if_splits)
next
  case False
  define k where "k = nat n"
  have k: "n = int k" "k \<le> length (unseen s)" using False length_unseen [OF assms(1)] by (auto simp: k_def)
  have s1: "legal" "s1 = s\<lparr>sc_start := sc_start s + n\<rparr>" using False assms(2) by (auto simp: Scanner_advance_def)
  have "nat (sc_start s + int k) = nat (sc_start s) + k" using assms(1) by (simp add: scan_ok_def nat_add_distrib)
  then have "unseen s1 = drop k (unseen s)" unfolding s1(2) k(1) by (simp add: unseen_def drop_sub)
  moreover have "scan_ok ri s1" using assms(1) False unfolding s1(2) by (simp add: scan_ok_def)
  moreover have "sc_r s1 = sc_r s" unfolding s1(2) by simp
  ultimately show ?thesis using k s1 by (intro moved [of k]) (simp_all add: scan_stream_def)
qed

text \<open>The measure that bounds the rounds: the items still to be read, and one more for \<open>io.EOF\<close>.\<close>

definition to_read :: "('r \<Rightarrow> 'a list) \<Rightarrow> ('r, 'a) scanner \<Rightarrow> nat" where
  "to_read rest s = length (rest (sc_r s)) + (if sc_err s = None then 1 else 0)"

text \<open>The scanner stops, if it does, at the end of its reader.\<close>

definition scan_live :: "('r \<Rightarrow> 'a list) \<Rightarrow> ('r, 'a) scanner \<Rightarrow> bool" where
  "scan_live rest s \<longleftrightarrow> (\<forall>x. sc_err s = Some x \<longrightarrow> x = EOF \<and> rest (sc_r s) = [])"

section \<open>Making room and reading\<close>

lemma sub_overlay_grow:
  assumes "i \<le> j" "j + n \<le> length xs" "n \<le> length ys"
  shows "sub (overlay xs j ys) i (j + n) = sub xs i j @ take n ys"
proof -
  have "sub (overlay xs j ys) i j = sub (take j (overlay xs j ys)) i j" by (simp only: sub_take)
  also have "\<dots> = sub xs i j" using assms(2) by (simp add: sub_take)
  finally show ?thesis
    using sub_append [OF assms(1), of "j + n" "overlay xs j ys"] overlay_sub [of j "j + n" ys xs] assms by simp
qed

lemma Scan_shift_ok:
  assumes "scan_ok ri s"
  shows "\<exists>s'. Scan_shift s = Inr s' \<and> scan_ok ri s' \<and> unseen s' = unseen s \<and> same_setup s s'
    \<and> sc_r s' = sc_r s \<and> sc_err s' = sc_err s \<and> sc_done s' = sc_done s
    \<and> sc_token s' = sc_token s \<and> length (sc_buf s') = length (sc_buf s)
    \<and> (sc_end s' = int (length (sc_buf s')) \<longrightarrow> sc_start s' = 0) \<and> sc_empties s' = sc_empties s"
proof (cases "sc_start s > 0 \<and> (sc_end s = int (length (sc_buf s)) \<or> sc_start s > int (length (sc_buf s)) div 2)")
  case True
  let ?xs = "overlay (sc_buf s) 0 (unseen s)"
  have len: "length (unseen s) \<le> length (sc_buf s)" "length (unseen s) < length (sc_buf s)"
    using length_unseen [OF assms] assms True by (auto simp: scan_ok_def)
  have "go_copy (sc_buf s) 0 (int (length (sc_buf s))) (unseen s) = Inr (int (length (unseen s)), ?xs)"
    using len by (simp add: go_copy_def)
  then have "Scan_shift s = Inr (s\<lparr>sc_buf := ?xs, sc_end := sc_end s - sc_start s, sc_start := 0\<rparr>)"
    using True unseen_slice [OF assms] by (simp add: Scan_shift_def)
  moreover have "sub ?xs 0 (nat (sc_end s - sc_start s)) = unseen s"
    using overlay_take_fits [of 0 "unseen s" "sc_buf s"] len length_unseen [OF assms]
    by (simp add: sub_from_start flip: length_unseen [OF assms])
  ultimately show ?thesis
    using assms len length_unseen [OF assms] by (auto simp: scan_ok_def unseen_def same_setup_def)
next
  case False
  then show ?thesis using assms by (auto simp: Scan_shift_def scan_ok_def)
qed

lemma Scan_resize_ok:
  assumes "scan_ok ri s" "sc_end s = int (length (sc_buf s)) \<longrightarrow> sc_start s = 0"
  shows "Scan_resize z s = Inr (False, Scanner_setErr s ErrTooLong)
      \<and> (int (length (unseen s)) \<ge> sc_maxTokenSize s \<or> int (length (unseen s)) > maxInt div 2)
    \<or> (\<exists>s'. Scan_resize z s = Inr (True, s') \<and> scan_ok ri s' \<and> unseen s' = unseen s \<and> same_setup s s'
        \<and> sc_r s' = sc_r s \<and> sc_err s' = sc_err s \<and> sc_done s' = sc_done s \<and> sc_end s' < int (length (sc_buf s'))
        \<and> (int (length (sc_buf s)) \<le> sc_maxTokenSize s \<longrightarrow> int (length (sc_buf s')) \<le> sc_maxTokenSize s)
        \<and> sc_empties s' = sc_empties s)"
proof (cases "sc_end s = int (length (sc_buf s))")
  case True
  with assms have s: "sc_start s = 0" "unseen s = sc_buf s" by (simp_all add: unseen_def)
  define n where "n = (let n1 = int (length (sc_buf s)) * 2; n2 = (if n1 = 0 then startBufSize else n1)
    in if n2 > sc_maxTokenSize s then sc_maxTokenSize s else n2)"
  show ?thesis
  proof (cases "int (length (sc_buf s)) \<ge> sc_maxTokenSize s \<or> int (length (sc_buf s)) > maxInt div 2")
    case True
    then show ?thesis using \<open>sc_end s = _\<close> s by (simp add: Scan_resize_def)
  next
    case False
    then have n: "int (length (sc_buf s)) < n" "n \<le> sc_maxTokenSize s" by (auto simp: n_def Let_def startBufSize_def)
    let ?xs = "overlay (replicate (nat n) z) 0 (sc_buf s)"
    have "go_copy (replicate (nat n) z) 0 n (sc_buf s) = Inr (int (length (sc_buf s)), ?xs)"
      using n by (simp add: go_copy_def)
    moreover have "Scan_resize z s =
        (if n < 0 then Inl MakeLen
         else andThen (go_slice (sc_buf s) (sc_start s) (sc_end s)) (\<lambda>ys.
           andThen (go_copy (replicate (nat n) z) 0 n ys) (\<lambda>(_, xs).
             Inr (True, s\<lparr>sc_buf := xs, sc_end := sc_end s - sc_start s, sc_start := 0\<rparr>))))"
      unfolding Scan_resize_def n_def Let_def using True False by (simp only: if_True if_False simp_thms)
    ultimately have "Scan_resize z s = Inr (True, s\<lparr>sc_buf := ?xs, sc_end := sc_end s - sc_start s, sc_start := 0\<rparr>)"
      using n s unseen_slice [OF assms(1)] by simp
    moreover have "sub ?xs 0 (length (sc_buf s)) = sc_buf s"
      using overlay_take_fits [of 0 "sc_buf s" "replicate (nat n) z"] n by (simp add: sub_from_start)
    ultimately show ?thesis
      using assms n s True by (auto simp: scan_ok_def unseen_def same_setup_def)
  qed
next
  case False
  then show ?thesis using assms by (auto simp: Scan_resize_def scan_ok_def)
qed

context gio_reader
begin

lemma Scan_reads_ok:
  assumes "scan_ok reader_inv s" "sc_end s < int (length (sc_buf s))" "sc_err s = None"
  shows "\<exists>s'. Scan_reads (Suc i) read_call s = Inr s' \<and> scan_ok reader_inv s'
    \<and> scan_stream rest s' = scan_stream rest s \<and> same_setup s s' \<and> sc_done s' = sc_done s
    \<and> length (sc_buf s') = length (sc_buf s)
    \<and> (sc_err s' = None \<and> length (rest (sc_r s')) < length (rest (sc_r s))
       \<or> sc_err s' = Some EOF \<and> rest (sc_r s') = [])
    \<and> sc_empties s' \<le> sc_empties s"
proof -
  let ?e = "nat (sc_end s)"
  let ?p = "sub (sc_buf s) ?e (length (sc_buf s))"
  have e: "int ?e = sc_end s" "?e < length (sc_buf s)" "nat (sc_start s) \<le> ?e"
    and r: "reader_inv (sc_r s)"
    using assms(1,2) by (auto simp: scan_ok_def)
  have p: "length ?p = length (sc_buf s) - ?e" by simp
  then have "0 < length ?p" using e(2) by linarith
  then have "?p \<noteq> []" by (rule length_greater_0_conv [THEN iffD1])
  from read_ok [OF r this] obtain res r' where call: "read_call (sc_r s) ?p = Inr (res, r')" "reader_inv r'"
    and out: "read_outcome ?p (rest (sc_r s)) res (rest r')" by blast
  have until: "nat (sc_end s + int n) = ?e + n" for n using e(1) by linarith
  have win: "go_slice (sc_buf s) (sc_end s) (int (length (sc_buf s))) = Inr ?p"
    using assms(1,2) by (simp add: scan_ok_def go_slice_def)
  have grown: "sub (overlay (sc_buf s) ?e q) (nat (sc_start s)) (?e + n) = unseen s @ take n q"
    if "length q = length ?p" "n \<le> length ?p" for n q
    using sub_overlay_grow [OF e(3), of n "sc_buf s" q] that e(2) p unfolding unseen_def by linarith
  from out show ?thesis
  proof (cases rule: read_outcomeE)
    case (progress n q)
    let ?s = "s\<lparr>sc_r := r', sc_buf := overlay (sc_buf s) ?e q, sc_end := sc_end s + int n, sc_empties := 0\<rparr>"
    have "Scan_reads (Suc i) read_call s = Inr ?s"
      using win call(1) progress e p by (simp add: Let_def)
    moreover have "unseen ?s = unseen s @ take n (rest (sc_r s))"
      using grown [of q n] progress by (simp add: unseen_def until)
    moreover have "scan_ok reader_inv ?s"
      using assms(1) call(2) progress(3,5) e p by (simp add: scan_ok_def)
    ultimately show ?thesis
      using progress assms(3) e(2) by (intro exI [of _ ?s]) (simp add: scan_stream_def same_setup_def)
  next
    case (eof q)
    let ?s = "s\<lparr>sc_r := r', sc_buf := overlay (sc_buf s) ?e q,
      sc_end := sc_end s + int (length (rest (sc_r s))), sc_err := Some EOF\<rparr>"
    have "Scan_reads (Suc i) read_call s = Inr ?s"
      using win call(1) eof e p assms(3) by (simp add: Let_def Scanner_setErr_def)
    moreover have "unseen ?s = unseen s @ rest (sc_r s)"
      using grown [of q "length (rest (sc_r s))"] eof by (simp add: unseen_def until)
    moreover have "scan_ok reader_inv ?s"
      using assms(1) call(2) eof(2,3) e p by (simp add: scan_ok_def)
    ultimately show ?thesis
      using eof e(2) by (intro exI [of _ ?s]) (simp add: scan_stream_def same_setup_def)
  qed
qed

text \<open>The part of a round after a split that gave no token.\<close>

lemma Scan_more_ok:
  assumes "Scan_token s0 = Inr (None, s)" "scan_ok reader_inv s" "sc_err s = None"
  shows "(\<exists>s'. Scan_round z read_call s0 = Inr (Some False, s') \<and> scan_ok reader_inv s'
        \<and> scan_stream rest s' = scan_stream rest s \<and> same_setup s s'
        \<and> \<not> (int (length (unseen s)) < sc_maxTokenSize s \<and> int (length (unseen s)) \<le> maxInt div 2)
        \<and> sc_err s' = Some ErrTooLong \<and> sc_token s' = sc_token s)
    \<or> (\<exists>s'. Scan_round z read_call s0 = Inr (None, s') \<and> scan_ok reader_inv s'
        \<and> scan_stream rest s' = scan_stream rest s \<and> same_setup s s' \<and> sc_done s' = sc_done s
        \<and> scan_live rest s' \<and> to_read rest s' < to_read rest s
        \<and> (int (length (sc_buf s)) \<le> sc_maxTokenSize s \<longrightarrow> int (length (sc_buf s')) \<le> sc_maxTokenSize s)
        \<and> sc_empties s' \<le> sc_empties s)"
proof -
  obtain s2 where s2: "Scan_shift s = Inr s2" "scan_ok reader_inv s2" "unseen s2 = unseen s" "same_setup s s2"
    "sc_r s2 = sc_r s" "sc_err s2 = None" "sc_done s2 = sc_done s"
    "sc_end s2 = int (length (sc_buf s2)) \<longrightarrow> sc_start s2 = 0"
    "sc_token s2 = sc_token s" "length (sc_buf s2) = length (sc_buf s)" "sc_empties s2 = sc_empties s"
    using Scan_shift_ok [OF assms(2)] assms(3) by auto
  have long: "sc_err (Scanner_setErr s2 ErrTooLong) = Some ErrTooLong"
    "sc_token (Scanner_setErr s2 ErrTooLong) = sc_token s"
    using s2(6,9) by (simp_all add: Scanner_setErr_def)
  have st: "scan_stream rest s2 = scan_stream rest s" using s2(3,5) by (simp add: scan_stream_def)
  have run: "Scan_round z read_call s0 = andThen (Scan_resize z s2) (\<lambda>(room, s3).
      if \<not> room then Inr (Some False, s3)
      else andThen (Scan_reads (maxConsecutiveEmptyReads + 1) read_call s3) (\<lambda>s4. Inr (None, s4)))"
    using assms(1,3) s2(1) by (simp add: Scan_round_def)
  from Scan_resize_ok [OF s2(2,8), of z] show ?thesis
  proof (elim disjE exE conjE)
    assume "Scan_resize z s2 = Inr (False, Scanner_setErr s2 ErrTooLong)"
      "sc_maxTokenSize s2 \<le> int (length (unseen s2))"
    then show ?thesis using run s2(2,3) s2(4) [unfolded same_setup_def] st long
      by (intro disjI1 exI [of _ "Scanner_setErr s2 ErrTooLong"])
        (simp add: same_setup_trans [OF s2(4)])
  next
    assume "Scan_resize z s2 = Inr (False, Scanner_setErr s2 ErrTooLong)"
      "maxInt div 2 < int (length (unseen s2))"
    then show ?thesis using run s2(2,3) s2(4) [unfolded same_setup_def] st long
      by (intro disjI1 exI [of _ "Scanner_setErr s2 ErrTooLong"])
        (simp add: same_setup_trans [OF s2(4)])
  next
    fix s3 assume s3: "Scan_resize z s2 = Inr (True, s3)" "scan_ok reader_inv s3" "unseen s3 = unseen s2" "same_setup s2 s3"
      "sc_r s3 = sc_r s2" "sc_err s3 = sc_err s2" "sc_done s3 = sc_done s2" "sc_end s3 < int (length (sc_buf s3))"
      "int (length (sc_buf s2)) \<le> sc_maxTokenSize s2 \<longrightarrow> int (length (sc_buf s3)) \<le> sc_maxTokenSize s2"
      "sc_empties s3 = sc_empties s2"
    have "sc_err s3 = None" using s3(6) s2(6) by simp
    from Scan_reads_ok [OF s3(2,8) this, of maxConsecutiveEmptyReads] obtain s4 where s4:
      "Scan_reads (maxConsecutiveEmptyReads + 1) read_call s3 = Inr s4" "scan_ok reader_inv s4"
      "scan_stream rest s4 = scan_stream rest s3" "same_setup s3 s4" "sc_done s4 = sc_done s3"
      "length (sc_buf s4) = length (sc_buf s3)"
      "sc_err s4 = None \<and> length (rest (sc_r s4)) < length (rest (sc_r s3)) \<or> sc_err s4 = Some EOF \<and> rest (sc_r s4) = []"
      "sc_empties s4 \<le> sc_empties s3"
      unfolding Suc_eq_plus1 by blast
    have "scan_stream rest s3 = scan_stream rest s2" using s3(3,5) by (simp add: scan_stream_def)
    moreover have "same_setup s s4" by (rule same_setup_trans [OF same_setup_trans [OF s2(4) s3(4)] s4(4)])
    moreover have "scan_live rest s4" "to_read rest s4 < to_read rest s"
      using s4(7) s3(5) s2(5) assms(3) by (auto simp: scan_live_def to_read_def)
    moreover have "int (length (sc_buf s)) \<le> sc_maxTokenSize s \<longrightarrow> int (length (sc_buf s4)) \<le> sc_maxTokenSize s"
      using s3(9) s2(4,10) s4(6) by (simp add: same_setup_def)
    ultimately show ?thesis
      using run s3 s4(1-5,8) s2(7,11) st by (intro disjI2 exI [of _ s4]) (simp del: Scan_reads.simps)
  qed
qed

end

section \<open>Any split function\<close>

text \<open>
  What a call of \<open>Scan\<close> may do on the stream \<open>st\<close>, seen from the split function: the result, the token,
  the error that \<open>Err\<close> reports afterwards, and what is left of the stream.  \<open>shown lv st d f\<close>: the
  split function may be called with the data \<open>d\<close> and the flag \<open>atEOF\<close> being \<open>f\<close>.  \<open>lv\<close> says that the
  scanner had not stopped before the call (\<open>scan_live\<close>), and \<open>stuck\<close> is the error it had.
\<close>

definition shown :: "bool \<Rightarrow> 'a list \<Rightarrow> 'a list \<Rightarrow> bool \<Rightarrow> bool" where
  "shown lv st d f \<longleftrightarrow> d = take (length d) st \<and> (d \<noteq> [] \<or> f) \<and> (lv \<and> f \<longrightarrow> d = st)"

definition first_error :: "go_error option \<Rightarrow> go_error \<Rightarrow> go_error option" where
  "first_error stuck e = (if stuck \<noteq> None then stuck else if e = EOF then None else Some e)"

inductive scan_outcome ::
  "'a split_fn \<Rightarrow> 'a \<Rightarrow> 'a option \<Rightarrow> int \<Rightarrow> bool \<Rightarrow> go_error option
   \<Rightarrow> 'a list \<Rightarrow> bool \<Rightarrow> 'a list option \<Rightarrow> go_error option \<Rightarrow> 'a list \<Rightarrow> bool"
  for split v x lim lv stuck where
  skip: "shown lv st d False \<Longrightarrow> split d v x False = Inr (int k, None, None) \<Longrightarrow> k \<le> length d \<Longrightarrow>
    scan_outcome split v x lim lv stuck (drop k st) res t e st' \<Longrightarrow> scan_outcome split v x lim lv stuck st res t e st'"
| token: "shown lv st d f \<Longrightarrow> split d v x f = Inr (int k, Some t, None) \<Longrightarrow> k \<le> length d \<Longrightarrow>
    scan_outcome split v x lim lv stuck st True (Some t) stuck (drop k st)"
| final: "shown lv st d f \<Longrightarrow> split d v x f = Inr (a, t, Some e) \<Longrightarrow> errors_Is e ErrFinalToken \<Longrightarrow>
    scan_outcome split v x lim lv stuck st True t stuck st"
| fail: "shown lv st d f \<Longrightarrow> split d v x f = Inr (a, t', Some e) \<Longrightarrow> \<not> errors_Is e ErrFinalToken \<Longrightarrow>
    scan_outcome split v x lim lv stuck st False t (first_error stuck e) st"
| illegal: "shown lv st d f \<Longrightarrow> split d v x f = Inr (a, t', None) \<Longrightarrow> a < 0 \<or> a > int (length d) \<Longrightarrow>
    scan_outcome split v x lim lv stuck st False t
      (first_error stuck (if a < 0 then ErrNegativeAdvance else ErrAdvanceTooFar)) st"
| stop: "shown lv st d True \<Longrightarrow> split d v x True = Inr (int k, None, None) \<Longrightarrow> k \<le> length d \<Longrightarrow>
    scan_outcome split v x lim lv stuck st False None stuck (drop (length d) st)"
| too_long: "d = take (length d) st \<Longrightarrow> \<not> (int (length d) < lim \<and> int (length d) \<le> maxInt div 2) \<Longrightarrow> stuck = None \<Longrightarrow>
    scan_outcome split v x lim lv stuck st False t (Some ErrTooLong) st"

lemma Scanner_Err_setErr: "Scanner_Err (Scanner_setErr s e) = first_error (Scanner_Err s) e"
  by (auto simp: Scanner_Err_def Scanner_setErr_def first_error_def)

lemma Scanner_Err_upd [simp]:
  "Scanner_Err (s\<lparr>sc_token := t\<rparr>) = Scanner_Err s" "Scanner_Err (s\<lparr>sc_empties := c\<rparr>) = Scanner_Err s"
  "Scanner_Err (s\<lparr>sc_done := b\<rparr>) = Scanner_Err s" "Scanner_Err (s\<lparr>sc_start := i\<rparr>) = Scanner_Err s"
  "Scanner_Err (s\<lparr>sc_end := i\<rparr>) = Scanner_Err s" "Scanner_Err (s\<lparr>sc_scanCalled := b\<rparr>) = Scanner_Err s"
  by (simp_all add: Scanner_Err_def)

abbreviation too_many_empties :: go_panic where
  "too_many_empties \<equiv> PanicStr ''bufio.Scan: too many empty tokens without progressing''"

text \<open>The outcomes of a call on \<open>s\<close> that gives \<open>res\<close> and \<open>s'\<close>.\<close>

definition scans :: "('r \<Rightarrow> 'a list) \<Rightarrow> bool \<Rightarrow> ('r, 'a) scanner \<Rightarrow> bool \<Rightarrow> ('r, 'a) scanner \<Rightarrow> bool" where
  "scans rest lv s res s' \<longleftrightarrow> scan_outcome (sc_split s) (sc_delim s) (sc_excluded s) (sc_maxTokenSize s) lv (Scanner_Err s)
     (scan_stream rest s) res (Scanner_Value s') (Scanner_Err s') (scan_stream rest s')"

lemma shown_unseen:
  assumes "scan_ok ri s" "sc_end s > sc_start s \<or> sc_err s \<noteq> None" "lv \<longrightarrow> scan_live rest s"
  shows "shown lv (scan_stream rest s) (unseen s) (sc_err s \<noteq> None)"
proof -
  have "unseen s \<noteq> [] \<or> sc_err s \<noteq> None" using assms(2) length_unseen [OF assms(1)] by auto
  with assms(3) show ?thesis by (auto simp: shown_def scan_stream_def scan_live_def)
qed

text \<open>The part of a round before reading: it ends the call, or it had no data, or it skips \<open>k\<close> items.\<close>

context gio_reader
begin

lemma Scan_token_ok:
  assumes s: "scan_ok reader_inv s" and lv: "lv \<longrightarrow> scan_live rest s"
    and total: "\<And>d v x f. \<exists>r. sc_split s d v x f = Inr r"
  obtains (panic) "Scan_token s = Inl too_many_empties" "maxConsecutiveEmptyReads \<le> sc_empties s"
  | (ends) res s' where "Scan_token s = Inr (Some res, s')" "scan_ok reader_inv s'" "same_setup s s'" "scans rest lv s res s'"
  | (none) "Scan_token s = Inr (None, s)" "sc_err s = None"
  | (skips) k s' where "Scan_token s = Inr (None, s')" "scan_ok reader_inv s'" "same_setup s s'" "sc_r s' = sc_r s"
      "sc_err s' = sc_err s" "sc_empties s' = sc_empties s" "sc_token s' = None" "unseen s' = drop k (unseen s)"
      "shown lv (scan_stream rest s) (unseen s) (sc_err s \<noteq> None)" "k \<le> length (unseen s)"
      "sc_split s (unseen s) (sc_delim s) (sc_excluded s) (sc_err s \<noteq> None) = Inr (int k, None, None)"
proof (cases "sc_end s > sc_start s \<or> sc_err s \<noteq> None")
  case False
  then show thesis by (intro none) (auto simp: Scan_token_def)
next
  case True
  note sh = shown_unseen [OF s True lv]
  obtain adv token err where sp:
    "sc_split s (unseen s) (sc_delim s) (sc_excluded s) (sc_err s \<noteq> None) = Inr (adv, token, err)"
    using total by (metis prod_cases3)
  have run: "Scan_token s = (case err of
            Some e \<Rightarrow>
              if errors_Is e ErrFinalToken then Inr (Some True, s\<lparr>sc_token := token, sc_done := True\<rparr>)
              else Inr (Some False, Scanner_setErr s e)
          | None \<Rightarrow> Scan_deliver s adv token)"
    using True sp unseen_slice [OF s] by (simp add: Scan_token_def)
  show thesis
  proof (cases err)
    case (Some e)
    show thesis
    proof (cases "errors_Is e ErrFinalToken")
      case final: True
      from scan_outcome.final [where split = "sc_split s", OF sh sp [unfolded Some] final] show thesis
        by (intro ends [of True "s\<lparr>sc_token := token, sc_done := True\<rparr>"])
          (simp_all add: run Some final s scans_def Scanner_Value_def)
    next
      case False
      from scan_outcome.fail [where split = "sc_split s", OF sh sp [unfolded Some] False] show thesis
        by (intro ends [of False "Scanner_setErr s e"])
          (simp_all add: run Some False s scans_def Scanner_Err_setErr)
    qed
  next
    case None
    note sp = sp [unfolded None]
    have run: "Scan_token s = Scan_deliver s adv token" using run None by simp
    obtain legal s1 where adv: "Scanner_advance s adv = (legal, s1)" by force
    from s adv show thesis
    proof (cases rule: Scanner_advance_cases [where rest = rest])
      case refused
      then have adv_bad: "adv < 0 \<or> adv > int (length (unseen s))"
        using adv length_unseen [OF s] by (auto simp: Scanner_advance_def split: if_splits)
      have s1: "s1 = Scanner_setErr s (if adv < 0 then ErrNegativeAdvance else ErrAdvanceTooFar)"
        using refused(1) adv by (auto simp: Scanner_advance_def split: if_splits)
      from scan_outcome.illegal [where split = "sc_split s", OF sh sp adv_bad] show thesis
        by (intro ends [of False s1])
          (use refused(1) s in \<open>simp_all add: run Scan_deliver_def adv scans_def Scanner_Err_setErr s1\<close>)
    next
      case (moved k)
      have keep: "same_setup s s1" "sc_r s1 = sc_r s" "sc_err s1 = sc_err s" "sc_empties s1 = sc_empties s"
        "Scanner_Err s1 = Scanner_Err s"
        by (simp_all add: moved(5) same_setup_def Scanner_Err_def)
      show thesis
      proof (cases token)
        case None
        then have "Scan_token s = Inr (None, s1\<lparr>sc_token := None\<rparr>)"
          using adv moved(1) by (simp add: run Scan_deliver_def)
        then show thesis using moved(2-4,6) keep sh sp None by (intro skips [of "s1\<lparr>sc_token := None\<rparr>" k]) simp_all
      next
        case (Some t)
        let ?s = "s1\<lparr>sc_token := Some t, sc_empties := if sc_err s = None \<or> adv > 0 then 0 else sc_empties s + 1\<rparr>"
        have "scans rest lv s True ?s"
          using scan_outcome.token [OF sh, where split = "sc_split s"] sp moved(2,3,7) keep(5)
          by (simp add: scans_def Scanner_Value_def Some)
        moreover have "Scan_deliver s adv token =
            (if \<not> (sc_err s = None \<or> adv > 0) \<and> sc_empties s + 1 > maxConsecutiveEmptyReads then Inl too_many_empties
             else Inr (Some True, ?s))"
          using adv moved(1) keep(3,4) by (simp add: Scan_deliver_def Some Let_def)
        ultimately show thesis
          using panic ends [of True ?s] moved(4) keep(1) unfolding run by (auto split: if_splits)
      qed
    qed
  qed
qed

lemma scans_skip:
  assumes "shown lv (scan_stream rest s) d False" "sc_split s d (sc_delim s) (sc_excluded s) False = Inr (int k, None, None)"
    "k \<le> length d" "scan_stream rest s1 = drop k (scan_stream rest s)" "same_setup s s1"
    "Scanner_Err s1 = Scanner_Err s" "scans rest lv s1 res s'"
  shows "scans rest lv s res s'"
  using scan_outcome.skip [where split = "sc_split s", OF assms(1-3)] assms(4-7) unfolding scans_def same_setup_def by simp

text \<open>
  The rest of a round after a split that gave no token: it ends the call with \<open>ErrTooLong\<close>, or more
  items have been read.
\<close>

lemma Scan_reads_on:
  assumes "Scan_token s0 = Inr (None, s)" "scan_ok reader_inv s" "sc_err s = None"
  obtains (long) s' where "Scan_round z read_call s0 = Inr (Some False, s')" "scan_ok reader_inv s'" "same_setup s s'"
      "scans rest lv s False s'"
  | (read) s' where "Scan_round z read_call s0 = Inr (None, s')" "scan_ok reader_inv s'" "same_setup s s'"
      "scan_stream rest s' = scan_stream rest s" "scan_live rest s'" "to_read rest s' < to_read rest s"
      "Scanner_Err s' = None" "sc_empties s' \<le> sc_empties s"
  using Scan_more_ok [OF assms, of z]
proof (elim disjE exE conjE)
  fix s' assume s': "Scan_round z read_call s0 = Inr (Some False, s')" "scan_ok reader_inv s'"
    "scan_stream rest s' = scan_stream rest s" "same_setup s s'" "sc_err s' = Some ErrTooLong"
    "\<not> (int (length (unseen s)) < sc_maxTokenSize s \<and> int (length (unseen s)) \<le> maxInt div 2)"
  have "scan_outcome (sc_split s) (sc_delim s) (sc_excluded s) (sc_maxTokenSize s) lv (Scanner_Err s)
     (scan_stream rest s) False (Scanner_Value s') (Some ErrTooLong) (scan_stream rest s)"
    by (rule scan_outcome.too_long [of "unseen s"])
      (use s'(6) assms(3) in \<open>simp_all add: scan_stream_def Scanner_Err_def\<close>)
  then have "scans rest lv s False s'"
    using s'(3,5) by (simp add: scans_def) (simp add: Scanner_Err_def ErrTooLong_def)
  with s'(1,2,4) show thesis by (intro long)
next
  fix s' assume s': "Scan_round z read_call s0 = Inr (None, s')" "scan_ok reader_inv s'" "same_setup s s'"
    "scan_stream rest s' = scan_stream rest s" "scan_live rest s'" "to_read rest s' < to_read rest s"
    "sc_empties s' \<le> sc_empties s"
  have "Scanner_Err s' = None" using s'(5) by (cases "sc_err s'") (simp_all add: Scanner_Err_def scan_live_def)
  with s' show thesis by (intro read)
qed

lemma Scan_loop_ok:
  assumes "scan_ok reader_inv s" "lv \<longrightarrow> scan_live rest s" "\<And>d v x f. \<exists>r. sc_split s d v x f = Inr r"
  shows "Scan_loop z read_call s = Some (Inl too_many_empties) \<and> maxConsecutiveEmptyReads \<le> sc_empties s
    \<or> (\<exists>res s'. Scan_loop z read_call s = Some (Inr (res, s')) \<and> scan_ok reader_inv s' \<and> same_setup s s'
        \<and> scans rest lv s res s')"
  using assms
proof (induction "to_read rest s" arbitrary: s rule: less_induct)
  case less
  from less.prems show ?case
  proof (cases rule: Scan_token_ok [case_names panic ends none skips])
    case panic
    then have "Scan_loop z read_call s = Some (Inl too_many_empties)"
      by (subst Scan_loop.simps) (simp add: Scan_round_def)
    with panic(2) show ?thesis by simp
  next
    case (ends res s')
    then have "Scan_loop z read_call s = Some (Inr (res, s'))"
      by (subst Scan_loop.simps) (simp add: Scan_round_def)
    with ends(2-4) show ?thesis by blast
  next
    case none
    have err: "Scanner_Err s = None" using none(2) by (simp add: Scanner_Err_def)
    from none(1) less.prems(1) none(2) show ?thesis
    proof (cases rule: Scan_reads_on [where z = z and lv = lv, case_names long read])
      case (long s')
      then have "Scan_loop z read_call s = Some (Inr (False, s'))" by (subst Scan_loop.simps) simp
      with long show ?thesis by blast
    next
      case (read s')
      have run: "Scan_loop z read_call s = Scan_loop z read_call s'" using read(1) by (subst Scan_loop.simps) simp
      have IH: "Scan_loop z read_call s' = Some (Inl too_many_empties) \<and> maxConsecutiveEmptyReads \<le> sc_empties s'
        \<or> (\<exists>res s2. Scan_loop z read_call s' = Some (Inr (res, s2)) \<and> scan_ok reader_inv s2 \<and> same_setup s' s2
            \<and> scans rest lv s' res s2)"
        by (rule less.hyps) (use read less.prems(3) in \<open>auto simp: same_setup_def\<close>)
      from IH show ?thesis
      proof (elim disjE exE conjE)
        fix res s2
        assume "Scan_loop z read_call s' = Some (Inr (res, s2))" "scan_ok reader_inv s2" and s2: "same_setup s' s2"
          and "scans rest lv s' res s2"
        moreover from this(4) have "scans rest lv s res s2" using read(3,4,7) err by (simp add: scans_def same_setup_def)
        ultimately show ?thesis using same_setup_trans [OF read(3) s2] by (simp add: run)
      qed (use read(8) in \<open>simp add: run\<close>)
    qed
  next
    case (skips k s1)
    have st: "scan_stream rest s1 = drop k (scan_stream rest s)"
      using skips(4,8,10) by (simp add: scan_stream_def)
    have err: "Scanner_Err s1 = Scanner_Err s" using skips(5) by (simp add: Scanner_Err_def)
    show ?thesis
    proof (cases "sc_err s = None")
      case False
      let ?s = "s1\<lparr>sc_start := 0, sc_end := 0\<rparr>"
      have "Scan_loop z read_call s = Some (Inr (False, ?s))"
        using skips(1,5) False by (subst Scan_loop.simps) (simp add: Scan_round_def)
      moreover have "scan_stream rest ?s = drop (length (unseen s)) (scan_stream rest s)"
        using skips(4) by (simp add: scan_stream_def) (simp add: unseen_def)
      then have "scans rest lv s False ?s"
        using scan_outcome.stop [of lv "scan_stream rest s" "unseen s" "sc_split s"] skips(7,9-11) False err
        by (simp add: scans_def Scanner_Value_def)
      moreover have "scan_ok reader_inv ?s" "same_setup s ?s"
        using skips(2,3) by (simp_all add: scan_ok_def same_setup_def)
      ultimately show ?thesis by blast
    next
      case True
      have err1: "sc_err s1 = None" "Scanner_Err s1 = None" using skips(5) True by (simp_all add: Scanner_Err_def)
      have via: "scans rest lv s res s2" if "scans rest lv s1 res s2" for res s2
        using scans_skip [OF _ _ skips(10) st skips(3) err that] skips(9,11) True by simp
      from skips(1,2) err1(1) show ?thesis
      proof (cases rule: Scan_reads_on [where z = z and lv = lv, case_names long read])
        case (long s')
        then have "Scan_loop z read_call s = Some (Inr (False, s'))" by (subst Scan_loop.simps) simp
        with long via same_setup_trans [OF skips(3)] show ?thesis by blast
      next
        case (read s')
        have run: "Scan_loop z read_call s = Scan_loop z read_call s'" using read(1) by (subst Scan_loop.simps) simp
        have ss: "same_setup s s'" by (rule same_setup_trans [OF skips(3) read(3)])
        have "to_read rest s' < to_read rest s" using read(6) skips(4,5) by (simp add: to_read_def)
        then have IH: "Scan_loop z read_call s' = Some (Inl too_many_empties) \<and> maxConsecutiveEmptyReads \<le> sc_empties s'
          \<or> (\<exists>res s2. Scan_loop z read_call s' = Some (Inr (res, s2)) \<and> scan_ok reader_inv s2 \<and> same_setup s' s2
              \<and> scans rest lv s' res s2)"
          by (rule less.hyps) (use read ss less.prems(3) in \<open>auto simp: same_setup_def\<close>)
        from IH show ?thesis
        proof (elim disjE exE conjE)
          fix res s2
          assume "Scan_loop z read_call s' = Some (Inr (res, s2))" "scan_ok reader_inv s2" and s2: "same_setup s' s2"
            and "scans rest lv s' res s2"
          moreover from this(4) have "scans rest lv s res s2"
            using read(3,4,7) err1(2) by (intro via) (simp add: scans_def same_setup_def)
          ultimately show ?thesis using same_setup_trans [OF ss s2] by (simp add: run)
        qed (use read(8) skips(6) in \<open>simp add: run\<close>)
      qed
    qed
  qed
qed

end

section \<open>Lines\<close>

text \<open>What \<open>ScanLines\<close> does with the data in the buffer.\<close>

lemma dropExcluded_strip:
  "\<not> is_nil x \<Longrightarrow> dropExcluded is_nil d (Some x) = Inr (strip_excluded (Some x) d)"
  by (auto simp: dropExcluded_def strip_excluded_def)

lemma length_through: "length (through v d) = (if v \<in> set d then Suc (length (before v d)) else length d)"
  by (simp add: through_before upto_delim_no_match)

lemma ScanLines_line:
  assumes "\<not> is_nil x" "v \<in> set d \<or> f \<and> d \<noteq> []"
  shows "ScanLines is_nil d v (Some x) f
    = Inr (int (length (through v d)), Some (strip_excluded (Some x) (before v d)), None)"
proof (cases "v \<in> set d")
  case True
  moreover have "take (length (before v d)) d = before v d" by (metis takeWhile_eq_take)
  ultimately show ?thesis
    using assms(1) by (auto simp: ScanLines_def slices_Index_eq Let_def dropExcluded_strip length_through)
next
  case False
  then have eq: "before v d = d" by (subst takeWhile_eq_all_conv) auto
  from False assms show ?thesis
    unfolding eq by (auto simp: ScanLines_def slices_Index_eq Let_def dropExcluded_strip length_through)
qed

lemma ScanLines_none: "v \<notin> set d \<Longrightarrow> \<not> f \<or> d = [] \<Longrightarrow> ScanLines is_nil d v e f = Inr (0, None, None)"
  by (auto simp: ScanLines_def slices_Index_eq Let_def)

lemma Scan_deliver_moves:
  assumes "scan_ok ri s" "k \<le> length (unseen s)" "t = None \<or> 0 < k"
  shows "\<exists>s'. Scan_deliver s (int k) t = Inr (if t = None then None else Some True, s') \<and> scan_ok ri s'
    \<and> same_setup s s' \<and> sc_token s' = t \<and> unseen s' = drop k (unseen s)
    \<and> scan_stream rest s' = drop k (scan_stream rest s)
    \<and> sc_r s' = sc_r s \<and> sc_err s' = sc_err s \<and> sc_done s' = sc_done s \<and> sc_buf s' = sc_buf s"
proof -
  obtain legal s1 where adv: "Scanner_advance s (int k) = (legal, s1)" by force
  from assms(1) adv show ?thesis
  proof (cases rule: Scanner_advance_cases [where rest = rest])
    case refused
    then show ?thesis using adv assms(2) length_unseen [OF assms(1)] by (auto simp: Scanner_advance_def)
  next
    case (moved i)
    have keep: "scan_ok ri s1" "scan_stream rest s1 = drop k (scan_stream rest s)" "unseen s1 = drop k (unseen s)"
      "same_setup s s1" "sc_r s1 = sc_r s" "sc_err s1 = sc_err s" "sc_done s1 = sc_done s" "sc_buf s1 = sc_buf s"
      using moved by (simp_all add: same_setup_def)
    show ?thesis
      using adv moved(1) assms(3) keep by (cases t) (simp_all add: Scan_deliver_def)
  qed
qed

context gio_reader
begin

text \<open>What \<open>Scan_token\<close> does with it.\<close>

lemma Scan_token_runs:
  assumes "scan_ok reader_inv s" "sc_split s = ScanLines is_nil"
    and "ScanLines is_nil (unseen s) (sc_delim s) (sc_excluded s) (sc_err s \<noteq> None) = Inr (k, t, None)"
    and "unseen s \<noteq> [] \<or> sc_err s \<noteq> None"
  shows "Scan_token s = Scan_deliver s k t"
proof -
  have "sc_end s > sc_start s \<or> sc_err s \<noteq> None"
    using assms(4) length_unseen [OF assms(1)] by (cases "unseen s") auto
  then show ?thesis using assms(2,3) unseen_slice [OF assms(1)] by (simp add: Scan_token_def)
qed

lemma Scan_token_line:
  assumes "scan_ok reader_inv s" "sc_split s = ScanLines is_nil" "sc_excluded s = Some x" "\<not> is_nil x"
    and "d = unseen s" "v = sc_delim s" "v \<in> set d \<or> sc_err s \<noteq> None \<and> d \<noteq> []"
  shows "\<exists>s'. Scan_token s = Inr (Some True, s')
      \<and> scan_ok reader_inv s' \<and> same_setup s s' \<and> sc_token s' = Some (strip_excluded (Some x) (before v d))
      \<and> scan_stream rest s' = drop (length (through v d)) (scan_stream rest s)
      \<and> sc_r s' = sc_r s \<and> sc_err s' = sc_err s \<and> sc_done s' = sc_done s"
proof -
  let ?n = "length (through v d)" and ?l = "strip_excluded (Some x) (before v d)"
  have "d \<noteq> []" using assms(7) by auto
  then have "Scan_token s = Scan_deliver s (int ?n) (Some ?l)"
    using Scan_token_runs [OF assms(1,2), of "int ?n" "Some ?l"]
      ScanLines_line [of is_nil x v d "sc_err s \<noteq> None"] assms(3-7) by simp
  moreover have "0 < ?n" "?n \<le> length (unseen s)"
    using assms(7) length_before [of v d] unfolding assms(5) [symmetric] by (auto simp: length_through)
  ultimately show ?thesis using Scan_deliver_moves [OF assms(1), of ?n "Some ?l" rest] by auto
qed

lemma Scan_token_none:
  assumes "scan_ok reader_inv s" "sc_split s = ScanLines is_nil"
    and "sc_delim s \<notin> set (unseen s)" "sc_err s = None \<or> unseen s = []"
  shows "\<exists>s'. Scan_token s = Inr (None, s')
      \<and> scan_ok reader_inv s' \<and> same_setup s s' \<and> unseen s' = unseen s \<and> scan_stream rest s' = scan_stream rest s
      \<and> sc_r s' = sc_r s \<and> sc_err s' = sc_err s \<and> sc_done s' = sc_done s
      \<and> length (sc_buf s') = length (sc_buf s)
      \<and> (unseen s \<noteq> [] \<or> sc_err s \<noteq> None \<longrightarrow> sc_token s' = None)"
proof (cases "unseen s = [] \<and> sc_err s = None")
  case True
  then show ?thesis using assms(1) length_unseen [OF assms(1)]
    by (intro exI [of _ s]) (simp add: Scan_token_def)
next
  case False
  have "Scan_token s = Scan_deliver s 0 None"
    by (rule Scan_token_runs [OF assms(1,2)]) (use ScanLines_none [of "sc_delim s" "unseen s"] assms(3,4) False in auto)
  then show ?thesis using Scan_deliver_moves [OF assms(1), of 0 None rest] by auto
qed

text \<open>A round that only brings in more items, where there is no delimiter yet.\<close>

lemma Scan_refill:
  assumes "scan_ok reader_inv s" "sc_split s = ScanLines is_nil" "sc_err s = None"
    and "v = sc_delim s" "v \<notin> set (unseen s)" "st = scan_stream rest s"
    and "int (length (before v st)) < sc_maxTokenSize s" "int (length (before v st)) \<le> maxInt div 2"
  shows "\<exists>s2. Scan_loop z read_call s = Scan_loop z read_call s2 \<and> scan_ok reader_inv s2 \<and> scan_live rest s2
    \<and> scan_stream rest s2 = scan_stream rest s \<and> same_setup s s2 \<and> sc_done s2 = sc_done s
    \<and> to_read rest s2 < to_read rest s"
proof -
  obtain s1 where s1:
    "Scan_token s = Inr (None, s1)" "scan_ok reader_inv s1" "same_setup s s1" "unseen s1 = unseen s"
    "scan_stream rest s1 = scan_stream rest s" "sc_r s1 = sc_r s" "sc_err s1 = None" "sc_done s1 = sc_done s"
    using Scan_token_none [OF assms(1,2)] assms(3-5) by auto
  have "length (unseen s) \<le> length (before v st)"
    using assms(5) unfolding assms(6) scan_stream_def by (subst takeWhile_append2) auto
  then have "int (length (unseen s1)) < sc_maxTokenSize s1 \<and> int (length (unseen s1)) \<le> maxInt div 2"
    using assms(7,8) s1(3,4) by (simp add: same_setup_def)
  with Scan_more_ok [OF s1(1,2,7), of z] obtain s2 where s2:
    "Scan_round z read_call s = Inr (None, s2)" "scan_ok reader_inv s2" "scan_stream rest s2 = scan_stream rest s1"
    "same_setup s1 s2" "sc_done s2 = sc_done s1" "scan_live rest s2" "to_read rest s2 < to_read rest s1" by blast
  moreover from s2(1) have "Scan_loop z read_call s = Scan_loop z read_call s2"
    by (subst Scan_loop.simps) simp
  moreover have "to_read rest s2 < to_read rest s" using s2(7) s1(6,7) assms(3) by (simp add: to_read_def)
  ultimately show ?thesis using s1 same_setup_trans [OF s1(3) s2(4)] by auto
qed

text \<open>\<open>Scan\<close> on a stream whose first line fits.\<close>

lemma Scan_loop_lines:
  assumes "scan_ok reader_inv s" "scan_live rest s"
    and sp: "sc_split s = ScanLines is_nil" "sc_excluded s = Some x" "\<not> is_nil x"
    and st: "st = scan_stream rest s" "v = sc_delim s"
    and fits: "int (length (before v st)) < sc_maxTokenSize s" "int (length (before v st)) \<le> maxInt div 2"
  shows "\<exists>s'. Scan_loop z read_call s = Some (Inr (st \<noteq> [], s')) \<and> same_setup s s' \<and> scan_ok reader_inv s'
    \<and> scan_live rest s' \<and> scan_stream rest s' = drop (length (through v st)) st \<and> sc_done s' = sc_done s
    \<and> sc_token s' = (if st = [] then None else Some (strip_excluded (Some x) (before v st)))
    \<and> (st = [] \<longrightarrow> sc_err s' = Some EOF)"
  using assms
proof (induction "to_read rest s" arbitrary: s rule: less_induct)
  case less
  let ?d = "unseen s"
  have split: "st = ?d @ rest (sc_r s)" using less.prems(6) by (simp add: scan_stream_def)
  consider (line) "v \<in> set ?d \<or> sc_err s \<noteq> None \<and> ?d \<noteq> []" | (over) "?d = []" "sc_err s \<noteq> None"
    | (more) "v \<notin> set ?d" "sc_err s = None" by auto
  then show ?case
  proof cases
    case line
    from Scan_token_line [OF less.prems(1,3-5) refl less.prems(7) line] obtain s1 where s1:
      "Scan_token s = Inr (Some True, s1)" "scan_ok reader_inv s1" "same_setup s s1"
      "sc_token s1 = Some (strip_excluded (Some x) (before v ?d))"
      "scan_stream rest s1 = drop (length (through v ?d)) st" "sc_r s1 = sc_r s" "sc_err s1 = sc_err s" "sc_done s1 = sc_done s"
      unfolding less.prems(6) by blast
    have "through v ?d = through v st \<and> before v ?d = before v st"
    proof (cases "v \<in> set ?d")
      case True
      then show ?thesis unfolding split by (simp add: upto_prefix takeWhile_append1)
    next
      case False
      then have "rest (sc_r s) = []" using line less.prems(2) by (auto simp: scan_live_def)
      then show ?thesis unfolding split by simp
    qed
    moreover have "Scan_round z read_call s = Inr (Some True, s1)"
      using s1(1) by (simp add: Scan_round_def ex_bool_eq)
    then have "Scan_loop z read_call s = Some (Inr (True, s1))" by (subst Scan_loop.simps) simp
    moreover have "st \<noteq> []" using line split by auto
    moreover have "scan_live rest s1" using less.prems(2) s1(6,7) by (simp add: scan_live_def)
    ultimately show ?thesis using s1 by auto
  next
    case over
    then have "st = []" "sc_err s = Some EOF" using less.prems(2) split by (auto simp: scan_live_def)
    moreover have "sc_delim s \<notin> set ?d" using over by simp
    from Scan_token_none [OF less.prems(1,3) this] over obtain s1 where s1:
      "Scan_token s = Inr (None, s1)" "scan_ok reader_inv s1" "same_setup s s1" "sc_token s1 = None"
      "sc_r s1 = sc_r s" "sc_err s1 = sc_err s" "sc_done s1 = sc_done s" by blast
    let ?s = "s1\<lparr>sc_start := 0, sc_end := 0\<rparr>"
    have "Scan_loop z read_call s = Some (Inr (False, ?s))"
      using s1(1,6) over(2) by (subst Scan_loop.simps) (auto simp: Scan_round_def)
    moreover have "scan_ok reader_inv ?s" "same_setup s ?s" "unseen ?s = []"
      using s1(2,3) by (simp_all add: scan_ok_def same_setup_def unseen_def)
    moreover have "rest (sc_r s) = []" using split \<open>st = []\<close> by simp
    ultimately show ?thesis using s1(4-7)
      by (intro exI [of _ ?s]) (auto simp: scan_live_def scan_stream_def)
  next
    case more
    from Scan_refill [OF less.prems(1,3) more(2), of v st z] more(1) less.prems(6-9) obtain s2 where
      s2: "Scan_loop z read_call s = Scan_loop z read_call s2" "scan_ok reader_inv s2" "scan_live rest s2"
      "scan_stream rest s2 = scan_stream rest s" "same_setup s s2" "sc_done s2 = sc_done s"
      "to_read rest s2 < to_read rest s" by blast
    from less.hyps [OF s2(7,2,3)] s2(4,5) less.prems(3-9) obtain s' where s':
      "Scan_loop z read_call s2 = Some (Inr (st \<noteq> [], s'))" "same_setup s2 s'" "scan_ok reader_inv s'"
      "scan_live rest s'" "scan_stream rest s' = drop (length (through v st)) st" "sc_done s' = sc_done s2"
      "sc_token s' = (if st = [] then None else Some (strip_excluded (Some x) (before v st)))"
      "st = [] \<longrightarrow> sc_err s' = Some EOF" by (auto simp: same_setup_def)
    then show ?thesis using same_setup_trans [OF s2(5) s'(2)] s2(1,6) by auto
  qed
qed

text \<open>Without an item to exclude, a first line that is not empty ends in a panic.\<close>

lemma Scan_loop_nil:
  assumes "scan_ok reader_inv s" "scan_live rest s" "sc_split s = ScanLines is_nil" "sc_excluded s = None"
    and "st = scan_stream rest s" "v = sc_delim s" "before v st \<noteq> []"
    and "int (length (before v st)) < sc_maxTokenSize s" "int (length (before v st)) \<le> maxInt div 2"
  shows "Scan_loop z read_call s = Some (Inl NilDeref)"
  using assms
proof (induction "to_read rest s" arbitrary: s rule: less_induct)
  case less
  let ?d = "unseen s"
  have split: "st = ?d @ rest (sc_r s)" using less.prems(5) by (simp add: scan_stream_def)
  show ?case
  proof (cases "v \<in> set ?d \<or> sc_err s \<noteq> None")
    case True
    have "?d \<noteq> []" using True split less.prems(2,7) by (auto simp: scan_live_def)
    then have "sc_end s > sc_start s" using length_unseen [OF less.prems(1)] by (cases ?d) auto
    moreover have "hd ?d \<noteq> v"
      using \<open>?d \<noteq> []\<close> less.prems(7) unfolding split by (cases ?d) (auto split: if_splits)
    then have "v \<in> set ?d \<Longrightarrow> before v ?d \<noteq> []" using \<open>?d \<noteq> []\<close> by (cases ?d) auto
    then have "ScanLines is_nil ?d v None (sc_err s \<noteq> None) = Inl NilDeref"
      using True \<open>?d \<noteq> []\<close> by (auto simp: ScanLines_def slices_Index_eq Let_def dropExcluded_def)
    ultimately have "Scan_round z read_call s = Inl NilDeref"
      using less.prems(3,4,6) unseen_slice [OF less.prems(1)] by (simp add: Scan_round_def Scan_token_def)
    then show ?thesis by (subst Scan_loop.simps) simp
  next
    case False
    with Scan_refill [OF less.prems(1,3), of v st z] less.prems(5,6,8,9) obtain s2 where s2:
      "Scan_loop z read_call s = Scan_loop z read_call s2" "scan_ok reader_inv s2" "scan_live rest s2"
      "scan_stream rest s2 = scan_stream rest s" "same_setup s s2" "to_read rest s2 < to_read rest s" by auto
    have "Scan_loop z read_call s2 = Some (Inl NilDeref)"
      by (rule less.hyps [OF s2(6,2,3)]) (use s2(4,5) less.prems(3-9) in \<open>auto simp: same_setup_def\<close>)
    with s2(1) show ?thesis by simp
  qed
qed

text \<open>A line that does not fit: the buffer grows up to the limit and no further.\<close>

lemma Scan_loop_long:
  assumes "scan_ok reader_inv s" "scan_live rest s" "sc_split s = ScanLines is_nil"
    and "st = scan_stream rest s" "int (length (sc_buf s)) \<le> sc_maxTokenSize s" "0 < sc_maxTokenSize s"
    and "sc_maxTokenSize s < int (length st)" "sc_delim s \<notin> set (take (nat (sc_maxTokenSize s)) st)"
  shows "\<exists>s'. Scan_loop z read_call s = Some (Inr (False, s')) \<and> scan_ok reader_inv s'
    \<and> scan_stream rest s' = st \<and> sc_err s' = Some ErrTooLong \<and> sc_token s' = None"
  using assms
proof (induction "to_read rest s" arbitrary: s rule: less_induct)
  case less
  have split: "st = unseen s @ rest (sc_r s)" using less.prems(4) by (simp add: scan_stream_def)
  have len: "int (length (unseen s)) \<le> sc_maxTokenSize s"
    using length_unseen [OF less.prems(1)] less.prems(1,5) by (simp add: scan_ok_def)
  then have "unseen s = take (length (unseen s)) (take (nat (sc_maxTokenSize s)) st)" by (simp add: split)
  then have none: "sc_delim s \<notin> set (unseen s)" using less.prems(8) in_set_takeD by metis
  have "rest (sc_r s) \<noteq> []" using len less.prems(7) unfolding split by auto
  then have err: "sc_err s = None" using less.prems(2) by (auto simp: scan_live_def)
  from Scan_token_none [OF less.prems(1,3) none disjI1 [OF err]] obtain s1 where s1:
    "Scan_token s = Inr (None, s1)" "scan_ok reader_inv s1" "same_setup s s1" "unseen s1 = unseen s"
    "scan_stream rest s1 = st" "sc_r s1 = sc_r s" "sc_err s1 = None" "length (sc_buf s1) = length (sc_buf s)"
    "unseen s \<noteq> [] \<longrightarrow> sc_token s1 = None"
    using err less.prems(4) by auto
  have max: "sc_maxTokenSize s1 = sc_maxTokenSize s" using s1(3) by (simp add: same_setup_def)
  from Scan_more_ok [OF s1(1,2,7), of z] show ?case
  proof (elim disjE exE conjE)
    fix s' assume s': "Scan_round z read_call s = Inr (Some False, s')" "scan_ok reader_inv s'"
      "scan_stream rest s' = scan_stream rest s1" "sc_err s' = Some ErrTooLong" "sc_token s' = sc_token s1"
      "\<not> (int (length (unseen s1)) < sc_maxTokenSize s1 \<and> int (length (unseen s1)) \<le> maxInt div 2)"
    then have "unseen s \<noteq> []" using less.prems(6) s1(4) max by (auto simp: maxInt_def)
    moreover have "Scan_loop z read_call s = Some (Inr (False, s'))" using s'(1) by (subst Scan_loop.simps) simp
    ultimately show ?thesis using s' s1(5,9) by auto
  next
    fix s' assume s': "Scan_round z read_call s = Inr (None, s')" "scan_ok reader_inv s'"
      "scan_stream rest s' = scan_stream rest s1" "same_setup s1 s'" "scan_live rest s'" "to_read rest s' < to_read rest s1"
      "int (length (sc_buf s1)) \<le> sc_maxTokenSize s1 \<longrightarrow> int (length (sc_buf s')) \<le> sc_maxTokenSize s1"
    note set = same_setup_trans [OF s1(3) s'(4), unfolded same_setup_def]
    have "to_read rest s' < to_read rest s" using s'(6) s1(6,7) err by (simp add: to_read_def)
    from less.hyps [OF this s'(2,5)] have
      "\<exists>s''. Scan_loop z read_call s' = Some (Inr (False, s'')) \<and> scan_ok reader_inv s''
        \<and> scan_stream rest s'' = st \<and> sc_err s'' = Some ErrTooLong \<and> sc_token s'' = None"
      using set s'(3,7) s1(5,8) max less.prems(3,5-8) by simp
    moreover have "Scan_loop z read_call s = Scan_loop z read_call s'" using s'(1) by (subst Scan_loop.simps) simp
    ultimately show ?thesis by simp
  qed
qed

lemma Scan_line:
  assumes "scan_ok reader_inv s" "scan_live rest s" "\<not> sc_done s"
    and "sc_split s = ScanLines is_nil" "sc_excluded s = Some x" "\<not> is_nil x"
    and "st = scan_stream rest s" "v = sc_delim s"
    and "int (length (before v st)) < sc_maxTokenSize s" "int (length (before v st)) \<le> maxInt div 2"
  shows "\<exists>s'. Scanner_Scan z read_call s = Some (Inr (st \<noteq> [], s')) \<and> same_setup s s' \<and> scan_ok reader_inv s'
    \<and> scan_live rest s' \<and> scan_stream rest s' = drop (length (through v st)) st \<and> \<not> sc_done s'
    \<and> sc_token s' = (if st = [] then None else Some (strip_excluded (Some x) (before v st)))
    \<and> (st = [] \<longrightarrow> sc_err s' = Some EOF)"
proof -
  let ?s = "s\<lparr>sc_scanCalled := True\<rparr>"
  have "scan_ok reader_inv ?s" "scan_live rest ?s" using assms(1,2) by (simp_all add: scan_live_def)
  from Scan_loop_lines [OF this, of is_nil x st v z] assms(3-10) show ?thesis
    by (simp add: Scanner_Scan_def same_setup_def)
qed

end

section \<open>What the operations do\<close>

text \<open>The lines of a list: what lies between the delimiters, and what follows the last one.\<close>

function lines_of :: "'a \<Rightarrow> 'a list \<Rightarrow> 'a list list" where
  "lines_of v st = (if st = [] then []
     else takeWhile (\<lambda>x. x \<noteq> v) st # lines_of v (drop (length (upto_delim (\<lambda>x. x = v) st)) st))"
  by auto
termination
  by (relation "measure (\<lambda>(v, st). length st)") (auto simp: upto_delim_def neq_Nil_conv)

declare lines_of.simps [simp del]

text \<open>\<open>for s.Scan() { use(s.Value()) }\<close>, with fuel for the number of tokens.\<close>

fun scan_all ::
  "nat \<Rightarrow> 'a \<Rightarrow> ('r, 'a) reader_fn \<Rightarrow> ('r, 'a) scanner \<Rightarrow> ('a list option list \<times> ('r, 'a) scanner) option" where
  "scan_all 0 z rd s = None"
| "scan_all (Suc k) z rd s =
     (case Scanner_Scan z rd s of
        Some (Inr (True, s1)) \<Rightarrow>
          map_option (\<lambda>(ts, s2). (Scanner_Value s1 # ts, s2)) (scan_all k z rd s1)
      | Some (Inr (False, s1)) \<Rightarrow> Some ([], s1)
      | _ \<Rightarrow> None)"

text \<open>
  C35: A scanner that splits lines and has not stopped, with an item to exclude that is set and not
  nil, over a client's reader that keeps the \<open>gio_reader\<close> contract: if every line of the stream is
  shorter than its \<open>maxTokenSize\<close> (and than half of the largest \<open>int\<close>), calling \<open>Scan\<close> until it returns
  false gives all the lines in order, each less one excluded item at its end, and then stops without
  an error and with the reader at its end; this takes one call of \<open>Scan\<close> for each line and one more.
\<close>

theorem Scanner_steps_through_lines:
  assumes "gio_reader rc rest ri" "scan_ok ri s" "scan_live rest s" "\<not> sc_done s"
    and "sc_split s = ScanLines is_nil" "sc_excluded s = Some x" "\<not> is_nil x"
    and "st = scan_stream rest s"
    and "\<forall>l \<in> set (lines_of (sc_delim s) st). int (length l) < sc_maxTokenSize s \<and> int (length l) \<le> maxInt div 2"
    and "0 < sc_maxTokenSize s" "length (lines_of (sc_delim s) st) < k"
  shows "\<exists>s'. scan_all k z rc s = Some (map (\<lambda>l. Some (strip_excluded (Some x) l)) (lines_of (sc_delim s) st), s')
    \<and> scan_stream rest s' = [] \<and> Scanner_Err s' = None \<and> Scanner_Value s' = None"
  using assms(2-11)
proof (induction k arbitrary: s st)
  case (Suc k)
  let ?v = "sc_delim s"
  let ?t = "drop (length (through ?v st)) st"
  have lines: "lines_of ?v st = (if st = [] then [] else before ?v st # lines_of ?v ?t)"
    by (subst lines_of.simps) simp
  have "int (length (before ?v st)) < sc_maxTokenSize s \<and> int (length (before ?v st)) \<le> maxInt div 2"
    using Suc.prems(8,9) lines by (cases "st = []") (auto simp: maxInt_def)
  from gio_reader.Scan_line [OF assms(1) Suc.prems(1-7) refl conjunct1 [OF this] conjunct2 [OF this], of z]
  obtain s1 where s1: "Scanner_Scan z rc s = Some (Inr (st \<noteq> [], s1))" "same_setup s s1" "scan_ok ri s1"
    "scan_live rest s1" "scan_stream rest s1 = ?t" "\<not> sc_done s1"
    "sc_token s1 = (if st = [] then None else Some (strip_excluded (Some x) (before ?v st)))"
    "st = [] \<longrightarrow> sc_err s1 = Some EOF" by blast
  show ?case
  proof (cases "st = []")
    case True
    then show ?thesis using s1 lines by (simp add: Scanner_Err_def Scanner_Value_def)
  next
    case False
    have "\<exists>s'. scan_all k z rc s1 = Some (map (\<lambda>l. Some (strip_excluded (Some x) l)) (lines_of (sc_delim s1) ?t), s')
      \<and> scan_stream rest s' = [] \<and> Scanner_Err s' = None \<and> Scanner_Value s' = None"
      by (rule Suc.IH) (use s1 Suc.prems(4-6,8-10) lines False in \<open>auto simp: same_setup_def\<close>)
    then show ?thesis
      using s1 lines False by (auto simp: same_setup_def Scanner_Value_def)
  qed
qed simp

text \<open>
  C36: With any split function that does not panic itself, over a client's reader that keeps the
  \<open>gio_reader\<close> contract, \<open>Scan\<close> returns what \<open>scan_outcome\<close> allows, or panics for too many empty tokens;
  that only happens after \<open>maxConsecutiveEmptyReads\<close> of them.  The split function sees fronts of the
  stream only, an empty one only with \<open>atEOF\<close>, and where the scanner had not stopped before, \<open>atEOF\<close>
  means all that is left.  A token is what the split function gave on such a front, and the items
  skipped are exactly those by which it asked to advance.  \<open>Scan\<close> returns false only with the first
  error (that of the split function, of an illegal advance, or \<open>ErrTooLong\<close> where the items unseen reach
  the limit), or when the split function gives no token at the end.  A scanner that is done (after
  \<open>ErrFinalToken\<close>) returns false and stays as it is.
\<close>

theorem Scanner_Scan_returns:
  assumes "gio_reader rc rest ri" "scan_ok ri s" "\<forall>d v x f. \<exists>r. sc_split s d v x f = Inr r"
  shows "(sc_done s \<longrightarrow> Scanner_Scan z rc s = Some (Inr (False, s)))
    \<and> (\<not> sc_done s \<longrightarrow>
        Scanner_Scan z rc s = Some (Inl too_many_empties) \<and> maxConsecutiveEmptyReads \<le> sc_empties s
        \<or> (\<exists>ok s'. Scanner_Scan z rc s = Some (Inr (ok, s')) \<and> scan_ok ri s' \<and> same_setup s s'
            \<and> scan_outcome (sc_split s) (sc_delim s) (sc_excluded s) (sc_maxTokenSize s) (scan_live rest s) (Scanner_Err s)
                (scan_stream rest s) ok (Scanner_Value s') (Scanner_Err s') (scan_stream rest s')))"
proof -
  let ?s = "s\<lparr>sc_scanCalled := True\<rparr>"
  have 1: "scan_ok ri ?s" "scan_live rest s \<longrightarrow> scan_live rest ?s" "\<And>d v x f. \<exists>r. sc_split ?s d v x f = Inr r"
    using assms(2,3) by (simp_all add: scan_live_def)
  from gio_reader.Scan_loop_ok [OF assms(1) 1, of z] show ?thesis
    by (simp add: Scanner_Scan_def scans_def) (simp add: same_setup_def)
qed

text \<open>
  C37: A line of more items than the limit of the scanner makes \<open>Scan\<close> return false with \<open>ErrTooLong\<close>
  and without a token, however the reader delivers and however small the buffer was at first; the
  buffer has grown to the limit at most, and the items read are still there.
\<close>

theorem Scanner_line_too_long:
  assumes "gio_reader rc rest ri" "scan_ok ri s" "scan_live rest s" "\<not> sc_done s" "sc_split s = ScanLines is_nil"
    and "int (length (sc_buf s)) \<le> sc_maxTokenSize s" "0 < sc_maxTokenSize s"
    and "sc_maxTokenSize s < int (length (scan_stream rest s))"
    and "sc_delim s \<notin> set (take (nat (sc_maxTokenSize s)) (scan_stream rest s))"
  shows "\<exists>s'. Scanner_Scan z rc s = Some (Inr (False, s')) \<and> scan_ok ri s' \<and> Scanner_Err s' = Some ErrTooLong
    \<and> Scanner_Value s' = None \<and> scan_stream rest s' = scan_stream rest s"
proof -
  let ?s = "s\<lparr>sc_scanCalled := True\<rparr>"
  have "scan_ok ri ?s" "scan_live rest ?s" using assms(2,3) by (simp_all add: scan_live_def)
  from gio_reader.Scan_loop_long [OF assms(1) this, of is_nil "scan_stream rest s" z] assms(4-9) obtain s' where
    "Scan_loop z rc ?s = Some (Inr (False, s'))" "scan_ok ri s'" "scan_stream rest s' = scan_stream rest s"
    "sc_err s' = Some ErrTooLong" "sc_token s' = None" by auto
  then show ?thesis
    using assms(4) by (intro exI [of _ s']) (simp add: Scanner_Scan_def Scanner_Err_def Scanner_Value_def ErrTooLong_def)
qed

text \<open>
  C38: The scanner that \<open>NewScanner\<close> makes without \<open>WithExcluded\<close> panics in its first \<open>Scan\<close> with a
  nil dereference, if the first line is not empty and shorter than \<open>MaxScanTokenSize\<close>:
  \<open>dropExcluded\<close> reads through the nil pointer before it looks whether there is an item to exclude.
  (A first line beyond the limit is \<open>ErrTooLong\<close>, as for every scanner that splits lines.)
\<close>

theorem NewScanner_default_panics:
  assumes "gio_reader rc rest ri" "ri r" "cfg_excluded (cfg_new opts) = None"
    and "line = takeWhile (\<lambda>x. x \<noteq> cfg_delim (cfg_new opts)) (rest r)" "line \<noteq> []"
    and "int (length line) < MaxScanTokenSize"
  shows "Scanner_Scan z rc (NewScanner is_nil cfg_new r opts) = Some (Inl NilDeref)"
proof -
  let ?s = "(NewScanner is_nil cfg_new r opts)\<lparr>sc_scanCalled := True\<rparr>"
  have "scan_ok ri ?s" "scan_live rest ?s" "sc_split ?s = ScanLines is_nil" "sc_excluded ?s = None"
    "rest r = scan_stream rest ?s"
    using assms(2,3) by (simp_all add: NewScanner_def Let_def scan_ok_def scan_live_def scan_stream_def unseen_def)
  from gio_reader.Scan_loop_nil [OF assms(1) this refl, of z] assms(4-6) show ?thesis
    by (simp add: Scanner_Scan_def NewScanner_def Let_def MaxScanTokenSize_def maxInt_def)
qed

section \<open>Witnesses\<close>

text \<open>Options as functions, applied in order.\<close>

definition apply_options :: "(int bufio_config \<Rightarrow> int bufio_config) list \<Rightarrow> int bufio_config" where
  "apply_options opts = fold (\<lambda>f. f) opts (zero_config 0)"

definition line_scanner :: "int list \<Rightarrow> (int Reader, int) scanner" where
  "line_scanner xs = NewScanner (\<lambda>_. False) apply_options (NewReader xs)
     [WithDelim id 9, WithExcluded id id (Some 13)]"

lemma line_scanner_ok:
  assumes "int (length xs) \<le> maxInt"
  shows "scan_ok reader_ok (line_scanner xs)" "scan_live ahead (line_scanner xs)"
    "scan_stream ahead (line_scanner xs) = xs" "\<not> sc_done (line_scanner xs)"
    "sc_split (line_scanner xs) = ScanLines (\<lambda>_. False)" "sc_excluded (line_scanner xs) = Some 13"
    "sc_delim (line_scanner xs) = 9" "sc_maxTokenSize (line_scanner xs) = 65536"
  using reader_ok_New(1) [OF assms] reader_ok_New(2) [of xs]
  by (simp_all add: line_scanner_def NewScanner_def Let_def scan_ok_def scan_live_def scan_stream_def unseen_def
    apply_options_def zero_config_def WithDelim_def WithExcluded_def MaxScanTokenSize_def)

lemma lines_of_sample: "lines_of 9 [1, 2, 13, 9, 9, 4] = [[1, 2, 13], [], [4 :: int]]"
  by (simp add: lines_of.simps upto_delim_def)

lemma Scanner_steps_through_lines_witness:
  "\<exists>s'. scan_all 4 0 Reader_Read (line_scanner [1, 2, 13, 9, 9, 4]) = Some ([Some [1, 2], Some [], Some [4]], s')
    \<and> Scanner_Err s' = None"
  using Scanner_steps_through_lines [OF slice_reader.gio_reader_axioms line_scanner_ok(1,2,4,5,6) _
      line_scanner_ok(3) [symmetric], of "[1, 2, 13, 9, 9, 4]" 4 0]
    line_scanner_ok(7,8) [of "[1, 2, 13, 9, 9, 4]"]
  by (auto simp: lines_of_sample maxInt_def strip_excluded_def)

text \<open>A split function that gives an empty token and never advances: the scanner does not panic before the end.\<close>

lemma Scanner_Scan_returns_witness:
  "\<exists>res s'. Scanner_Scan 0 Reader_Read ((line_scanner [1])\<lparr>sc_split := \<lambda>d v x f. Inr (0, Some [], None)\<rparr>) = Some (Inr (res, s'))
    \<and> scan_outcome (\<lambda>d v x f. Inr (0, Some [], None)) 9 (Some 13) 65536 True None
        [1] res (Scanner_Value s') (Scanner_Err s') (scan_stream ahead s')"
proof -
  let ?s = "(line_scanner [1])\<lparr>sc_split := \<lambda>d v x f. Inr (0, Some [], None)\<rparr>"
  have "scan_ok reader_ok ?s" "scan_live ahead ?s" "scan_stream ahead ?s = [1]" "\<not> sc_done ?s" "Scanner_Err ?s = None"
    "sc_delim ?s = 9" "sc_excluded ?s = Some 13" "sc_maxTokenSize ?s = 65536"
    using line_scanner_ok(1-4,6-8) [of "[1]"]
    by (simp_all add: scan_ok_def scan_stream_def unseen_def maxInt_def scan_live_def)
      (simp add: Scanner_Err_def line_scanner_def NewScanner_def Let_def)
  moreover have "sc_empties ?s = 0" "sc_split ?s = (\<lambda>d v x f. Inr (0, Some [], None))"
    by (simp_all add: line_scanner_def NewScanner_def Let_def)
  ultimately show ?thesis
    using Scanner_Scan_returns [OF slice_reader.gio_reader_axioms, of ?s 0]
    by (auto simp: maxConsecutiveEmptyReads_def simp del: scanner.update_convs scanner.select_convs)
qed

lemma NewScanner_default_panics_witness:
  "Scanner_Scan 0 Reader_Read (NewScanner (\<lambda>_. False) apply_options (NewReader [1, 9]) [WithDelim id 9])
     = Some (Inl NilDeref)"
  by (rule NewScanner_default_panics [where line = "[1]", OF slice_reader.gio_reader_axioms])
    (simp_all add: reader_ok_New maxInt_def apply_options_def zero_config_def WithDelim_def MaxScanTokenSize_def)

lemma Scanner_line_too_long_witness:
  "\<exists>s'. Scanner_Scan 0 Reader_Read ((line_scanner [1, 2, 3, 9])\<lparr>sc_maxTokenSize := 2\<rparr>) = Some (Inr (False, s'))
    \<and> Scanner_Err s' = Some ErrTooLong"
proof -
  let ?s = "(line_scanner [1, 2, 3, 9])\<lparr>sc_maxTokenSize := 2\<rparr>"
  have "scan_ok reader_ok ?s" "scan_live ahead ?s" "scan_stream ahead ?s = [1, 2, 3, 9]" "sc_buf ?s = []"
    using line_scanner_ok(1-3) [of "[1, 2, 3, 9]"]
    by (simp_all add: scan_ok_def scan_live_def scan_stream_def unseen_def maxInt_def line_scanner_def NewScanner_def Let_def)
  with Scanner_line_too_long [OF slice_reader.gio_reader_axioms, of ?s "\<lambda>_. False" 0]
    line_scanner_ok(4-7) [of "[1, 2, 3, 9]"] show ?thesis by (auto simp: maxInt_def)
qed

end
