(* ===== verification/Spec2Isabelle.thy ===== *)
theory Spec2Isabelle
  imports Errs Buffer Peek SliceReader RingBuffer RingQueue RingStream RingFilter Items ContainerHeap ListSteps CircularRing
    BufioSteps BufioWriterSteps BufioConfig BufioScanner
begin

text \<open>
  A verification development of the Go library \<open>gbuf\<close>: generic counterparts of the buffers and
  containers of Go's standard library.  Every type of the library is modelled, with all its
  operations; definitions carry the names of the functions they translate, a method \<open>m\<close> of type
  \<open>T\<close> being \<open>T_m\<close> (\<open>Bufio_m\<close>, \<open>BufWriter_m\<close>, \<open>Comparable_m\<close> in package \<open>gbufio\<close>).

  \<^bold>\<open>Conventions.\<close>  Structs are records, one field per field of the struct.  A Go \<open>int\<close> is a HOL
  \<open>int\<close>; where the code can overflow, the wrap-around is written out (\<open>wrap64\<close>, \<open>maxInt\<close>).  Every
  operation that may panic has a value of \<open>go_panic + 'a\<close>, \<open>Inl\<close> being the panic; \<open>andThen\<close>
  sequences two steps.  Slice expressions, index expressions and \<open>copy\<close> check their bounds
  (\<open>go_slice\<close>, \<open>go_index\<close>, \<open>go_update\<close>, \<open>go_copy\<close>), so that \<^emph>\<open>no panic\<close> is a theorem and not an
  assumption.  The returned \<open>error\<close> is an option, \<open>None\<close> being nil.  Items are of an arbitrary type.

  \<^bold>\<open>Foundations.\<close>
  \<^item> \<open>Prelude\<close>: wrap-around, sequencing of fallible steps, windows of lists and block copy.
  \<^item> \<open>Errs\<close> (\<open>errs/errs.go\<close>, \<open>errors.go\<close>): error values, \<open>errors.Is\<close>, panics, the checked
    slice operations.
  \<^item> \<open>Slices\<close>: slices with a capacity, for \<open>Buffer\<close>; the allocator is a parameter (\<open>runtime\<close>).
  \<^item> \<open>Gio\<close>: the interfaces \<open>gio.Reader\<close> and \<open>gio.Writer\<close>, which the library implements and
    consumes, as locales.  \<open>gio_reader\<close> delivers what is left, in order, until \<open>io.EOF\<close>;
    \<open>gio_clean_reader\<close> and \<open>gio_tidy_reader\<close> extend it; \<open>gio_source\<close> is the weaker contract of a
    reader that may stop early or make no progress.  \<open>gio_writer\<close> accepts everything or panics;
    \<open>gio_sink\<close> is the weaker contract of a writer that may accept less with an error.
    \<open>gio_writer_to\<close> and \<open>gio_reader_from\<close> are the contracts of clients that have a \<open>WriteTo\<close> or a
    \<open>ReadFrom\<close> of their own, to which the buffered readers and writers delegate.

  \<^bold>\<open>Containers.\<close>
  \<^item> \<open>Buffer\<close> (\<open>buffer.go\<close>): the growing buffer.  \<open>buf_inv\<close> is its invariant; a step relation over
    all operations keeps it, and the panics of every operation in a reachable state are given
    (\<open>Buffer_reach_safe\<close>); runs of its writes, reads and \<open>Grow\<close> are first-in first-out
    (\<open>Buffer_fifo\<close>).  \<open>buffer_reader\<close> and \<open>buffer_writer\<close> interpret the interfaces.
  \<^item> \<open>Peek\<close> (\<open>peek.go\<close>, \<open>peek_buffer.go\<close>): reading without consuming.
  \<^item> \<open>SliceReader\<close> (\<open>reader.go\<close>): the \<open>Reader\<close> over a slice (\<open>slice_reader\<close>), with \<open>ReadAt\<close> and
    \<open>Seek\<close>, and what \<open>ReadFrom\<close> and \<open>WriteTo\<close> do between it and a \<open>Buffer\<close> (\<open>slice_to_buffer\<close>,
    \<open>buffer_from_slice\<close>).
  \<^item> \<open>RingBuffer\<close>, \<open>RingQueue\<close>, \<open>RingStream\<close> (\<open>ringbuffer.go\<close>): the operations; their refinement of
    a log of the last \<open>cap\<close> items with a count of the unread ones (\<open>log_op\<close>), which is a queue where
    nothing reads past its end (\<open>RingBuffer_refines_queue\<close>); \<open>ReadFrom\<close> and \<open>WriteTo\<close>.
  \<^item> \<open>RingFilter\<close> (\<open>ringfilter.go\<close>): the ring buffer that shows its items to a function.
  \<^item> \<open>ContainerHeap\<close> (\<open>heap.go\<close>): the heap routines over a client given by its methods (locale
    \<open>heap_client\<close>), interpreted on a slice of integers.
  \<^item> \<open>Items\<close> (\<open>items.go\<close>): \<open>Repeat\<close>.
  \<^item> \<open>Links\<close>, \<open>LinkedList\<close> (\<open>list.go\<close>), \<open>CircularRing\<close> (\<open>ring.go\<close>): the two linked containers over an
    explicit store of nodes, since elements are shared by pointers.  \<open>circle\<close> says that the links
    of a store close through a list of nodes; the operations are shown to turn one such sequence
    into another and to leave the rest of the store alone.  \<open>ListSteps\<close> puts the list operations
    together, \<open>Init\<close> and zero values included: any sequence of them refines sequences of elements
    (\<open>List_refines_sequences\<close>), and the stores it leads to are well formed
    (\<open>List_stores_well_formed\<close>), as long as the elements that a list had when \<open>Init\<close> cleared it are
    not used again; \<open>ListRetire\<close> shows that no operation depends on the \<open>list\<close> fields of those.

  \<^bold>\<open>Package gbufio.\<close>
  \<^item> \<open>BufioReader\<close> (\<open>gbufio/reader.go\<close>): the buffered reader.  The client's reader is a state inside
    the record and a function argument.  \<open>stream\<close> is the buffered items followed by what the client
    still has; \<open>bufio_ok\<close> is the invariant; every operation takes items off the front of the stream.
    Over a \<open>gio_reader\<close> the \<open>Reader\<close> is one itself (\<open>bufio_slice\<close>, \<open>bufio_buffer\<close>).
  \<^item> \<open>BufioLines\<close> (\<open>gbufio/reader_comparable.go\<close>): reading up to a delimiter, however often the buffer
    has to be refilled.
  \<^item> \<open>BufioSteps\<close>: any sequence of calls on a buffered reader refines taking items from the front of
    one stream, whatever the size of the buffer (\<open>Bufio_refines_stream\<close>).
  \<^item> \<open>BufioWriter\<close> (\<open>gbufio/writer.go\<close>, \<open>gbufio/bufio.go\<close>): the buffered writer.  \<open>flow\<close> is what the
    client's writer has accepted followed by the buffered items; \<open>gio_pipe\<close> puts a reader and a
    writer together for \<open>ReadFrom\<close>.
  \<^item> \<open>BufioWriterSteps\<close>: any sequence of calls on a buffered writer refines a queue, no longer than
    the buffer, in front of the client's writer, short writes and errors included
    (\<open>BufWriter_refines_queue\<close>).
  \<^item> \<open>BufioConfig\<close> (\<open>gbufio/config.go\<close>): the options, and the exported constructors that apply them.
  \<^item> \<open>BufioScanner\<close> (\<open>gbufio/scanner.go\<close>): the scanner.  \<open>Scan_round\<close> is one round of the loop of
    \<open>Scan\<close>.  For every split function that does not panic, \<open>Scan\<close> does what \<open>scan_outcome\<close> allows, seen
    from the split function, or panics for too many empty tokens; with \<open>ScanLines\<close> and an excluded
    item it steps through the lines of the client's reader (\<open>lines_of\<close>), if they are shorter than its
    limit, and reports \<open>ErrTooLong\<close> for a line beyond it.

  After this header: a new buffered writer that reads from a new buffered reader and is flushed
  hands exactly the client's items over (\<open>gbufio_copies\<close>).

  \<^bold>\<open>Loops.\<close>  Loops bounded by the data are structural recursions or \<open>function\<close>s with a measure.
  \<open>ReadFrom\<close> of \<open>Buffer\<close>, \<open>RingBuffer\<close> and \<open>RingFilter\<close> carry fuel; their theorems give the fuel
  that is enough, one round for each item of the source and one more (or two).  The loops of
  \<open>gbufio\<close>, of \<open>Ring.Len\<close> and of \<open>Ring.Do\<close> are \<open>partial_function\<close>s, where \<open>None\<close> is a run that
  never ends; the theorems state \<open>Some\<close>, hence termination, under the contract of the client.  The
  bounds on empty reads (\<open>maxConsecutiveEmptyReads\<close>) are the code's.

  \<^bold>\<open>What modelling showed.\<close>
  \<^item> \<open>PeekRange\<close> panics for every pair of different valid indexes (\<open>PeekRange_panics\<close>).
  \<^item> \<open>RingBuffer.Write\<close> of \<open>cap\<close> items or more leaves them rotated unless the write index is 0
    (\<open>RingBuffer_Write_oversize\<close>); \<open>UnreadItem\<close> at read index 0 leaves a negative index
    (\<open>RingBuffer_UnreadItem_undo\<close>); \<open>ReadItems\<close> of a ring that is not wrapped scans from cell 0;
    \<open>WriteTo\<close> of an empty ring writes its stale cells; \<open>RingFilter.Reset\<close> leaves a full ring full
    (\<open>RingFilter_Reset_keeps_full\<close>).
  \<^item> \<open>ReadItem\<close> on an empty \<open>RingBuffer\<close> delivers a stale cell with a nil error and makes the other
    cells unread again (\<open>log_op\<close>); \<open>Grow\<close> of a \<open>Buffer\<close> leaves \<open>UnreadItem\<close> permitted, which may then
    restore nothing (\<open>UnreadItem_after_slide\<close>); the filter's function gets the argument of \<open>Write\<close> and
    the batches of \<open>ReadFrom\<close>, not the ring (\<open>RingFilter_Write_filters\<close>, \<open>RingFilter_ReadFrom_filters\<close>).
  \<^item> \<open>Init\<close> leaves the old elements of a list believing that they are in it, so that removing one
    makes the length negative (\<open>Init_Remove_breaks\<close>).
  \<^item> \<open>UnreadItem\<close> of the buffered reader has its condition inverted and never succeeds
    (\<open>Bufio_UnreadItem_never_succeeds\<close>).
  \<^item> \<open>newComparableReader\<close> panics for every reader that is not already one of the package's, since it
    resets through a nil pointer (\<open>newComparableReader_panics\<close>), and it never passes the excluded
    item on.
  \<^item> A scanner made without \<open>WithExcluded\<close> panics on the first line, if it is not empty and fits the
    limit (\<open>NewScanner_default_panics\<close>).

  \<^bold>\<open>Not modelled.\<close>  Capacity growth is the allocator's (\<open>alloc\<close> of \<open>runtime\<close>, a parameter with the
  documented bound); running out of memory is not, nor is the
  panic of \<open>make\<close> for a size it cannot make in \<open>NewRingBuffer\<close>, \<open>NewRingFilter\<close>, the buffers of
  \<open>gbufio\<close> (in \<open>newComparableReader\<close> it would come before the nil dereference) and \<open>Scan_resize\<close>, which
  panics for a negative size only; in \<open>Repeat\<close> it is a parameter.  A \<open>PeekBuffer\<close> is its embedded
  \<open>Buffer\<close>: the nil pointer in a zero \<open>PeekBuffer\<close> is not modelled.  The nil \<open>buf\<close> that \<open>BufWriter_Reset\<close>
  looks for is the empty list.  The field \<open>fn\<close> of a \<open>RingFilter\<close> is an argument of its operations.  The pointer \<open>lastItem\<close> and the slices that
  \<open>Peek\<close>, \<open>ReadSlice\<close>, \<open>Next\<close> and \<open>Value\<close> return share memory with the buffer in Go; here they are
  the items at the time of the call.  \<open>cfg\<close> (\<open>Register\<close>, \<open>NoOp\<close>, \<open>New\<close>, \<open>Set\<close>), the seek constants
  of \<open>gio\<close>, the functions given to \<open>RingFilter\<close> and \<open>Do\<close>, and the dynamic types behind interface
  values are parameters.  \<open>dropExcluded\<close> compares an item with nil; that comparison is a parameter.
  \<open>tools/\<close> has no code.
\<close>

section \<open>The parts of \<open>gbufio\<close> together\<close>

text \<open>What the exported constructors make of a client's reader and writer that are not buffered yet.\<close>

lemma NewReader_fresh:
  assumes "ri r"
  shows "bufio_ok rest ri stop (NewReader_bufio z cfg_set (\<lambda>_. None) r opts)"
    "stream rest (NewReader_bufio z cfg_set (\<lambda>_. None) r opts) = rest r"
  using bufio_fresh_ok [of "replicate (nat (if cfg_size c < minReadBufferSize then minReadBufferSize else cfg_size c)) z" ri r rest stop
      for c :: "'b bufio_config"] assms
  by (auto simp: NewReader_bufio_def newReader_def minReadBufferSize_def Let_def)

lemma NewWriter_fresh:
  assumes "wi w"
  shows "bufw_ok wi (NewWriter z cfg_set (\<lambda>_. None) w opts)" "bw_err (NewWriter z cfg_set (\<lambda>_. None) w opts) = None"
    "flow got (NewWriter z cfg_set (\<lambda>_. None) w opts) = got w"
  using assms by (simp_all add: NewWriter_def newWriter_def bufw_ok_def BufWriter_Size_def flow_def Let_def defaultBufSize_def)

text \<open>
  C32: Copying through buffers: a new buffered writer reading from a new buffered reader, both with any
  options, returns (or panics as the client's writer does).  If it reports no error, it has
  counted every item of the client's reader, and if the \<open>Flush\<close> after it reports none either, the
  client's writer has got exactly these items, in order, behind those it had.  The client's reader
  keeps the \<open>gio_reader\<close> contract, its writer the \<open>gio_sink\<close> contract, and so does its \<open>ReadFrom\<close>,
  if it has one (\<open>rf\<close>), which then reads the buffered reader itself.
\<close>

theorem gbufio_copies:
  assumes "gio_reader rc rest ri" "gio_sink wr got wi faults" "ri r" "wi w"
    and "\<forall>m. rf = Some m \<longrightarrow> gio_reader_from m (stream rest) (bufio_ok rest ri at_eof) at_eof got wi faults"
  shows "returns_or faults
    (\<lambda>((n, e), r', b'). e = None \<longrightarrow> n = int (length (rest r))
      \<and> panics_or faults (\<lambda>(e', b2). e' = None \<longrightarrow> got (bw_wr b2) = got w @ rest r) (BufWriter_Flush wr b'))
    (BufWriter_ReadFrom wr (Bufio_Read rc) rf (NewWriter z cfg_set (\<lambda>_. None) w wopts)
      (NewReader_bufio z' cfg_set' (\<lambda>_. None) r ropts))" (is "returns_or faults ?P _")
proof -
  let ?b = "NewWriter z cfg_set (\<lambda>_. None) w wopts" and ?r = "NewReader_bufio z' cfg_set' (\<lambda>_. None) r ropts"
  have rd: "gio_reader (Bufio_Read rc) (stream rest) (bufio_ok rest ri at_eof)"
    by (rule source_at_eof_reader [OF gio_source.bufio_is_source [OF gio_reader.reader_is_source [OF assms(1)]]])
  have r: "bufio_ok rest ri at_eof ?r" "stream rest ?r = rest r" by (rule NewReader_fresh [of ri, OF assms(3)])+
  have b: "bufw_ok wi ?b" "bw_err ?b = None" "flow got ?b = got w" by (rule NewWriter_fresh [of wi, OF assms(4)])+
  have pipe: "gio_pipe (Bufio_Read rc) (stream rest) (bufio_ok rest ri at_eof) at_eof wr got wi faults"
    by (rule gio_pipe.intro [OF gio_reader.reader_is_source [OF rd] assms(2)])
  have "returns_or faults (gio_pipe.moved (stream rest) (bufio_ok rest ri at_eof) at_eof got wi ?b ?r 0)
      (BufWriter_ReadFrom wr (Bufio_Read rc) rf ?b ?r)"
    using gio_pipe.ReadFrom_loop_ok [OF pipe b(1,2) r(1) assms(5)] b(2) by (simp add: BufWriter_ReadFrom_def)
  then show ?thesis
  proof (rule returns_or_mono)
    fix x
    assume mv: "gio_pipe.moved (stream rest) (bufio_ok rest ri at_eof) at_eof got wi ?b ?r 0 x"
    obtain n e r' b' where x: "x = ((n, e), r', b')" by (metis prod.exhaust)
    have "n = int (length (rest r)) \<and> panics_or faults (\<lambda>(e', b2). e' = None \<longrightarrow> got (bw_wr b2) = got w @ rest r)
        (BufWriter_Flush wr b')" if "e = None"
    proof
      have moved: "n = int (length (rest r))" "bufw_ok wi b'" "flow got b' = got w @ rest r"
        using that mv by (auto simp: gio_pipe.moved_def [OF pipe] x r(2) b(3) at_eof_def)
      show "n = int (length (rest r))" by (rule moved(1))
      show "panics_or faults (\<lambda>(e', b2). e' = None \<longrightarrow> got (bw_wr b2) = got w @ rest r) (BufWriter_Flush wr b')"
        by (rule panics_or_mono [OF gio_sink.Flush_ok [OF assms(2) moved(2)]]) (use moved(3) in \<open>auto simp: flow_def\<close>)
    qed
    then show "?P x"
      by (simp add: x)
  qed
qed

lemma gbufio_copies_witness:
  "returns_or {PanicErr ErrBufferTooLarge}
    (\<lambda>((n, e), _, b'). e = None \<longrightarrow> n = 2
      \<and> panics_or {PanicErr ErrBufferTooLarge} (\<lambda>(e', b2). e' = None \<longrightarrow> unread (bw_wr b2) = [1, 2])
        (BufWriter_Flush (Buffer_Write int_runtime) b'))
    (BufWriter_ReadFrom (Buffer_Write int_runtime) (Bufio_Read Reader_Read)
      (Some (\<lambda>b r. Buffer_ReadFrom (Suc (length (stream ahead r))) int_runtime (Bufio_Read Reader_Read) b r))
      (NewWriter 0 (foldl (\<lambda>c f. f c)) (\<lambda>_. None) zero_Buffer [WithSize id 4])
      (NewReader_bufio 0 (foldl (\<lambda>c f. f c)) (\<lambda>_. None) (NewReader [1, 2]) []))"
proof -
  have "buf_inv (zero_Buffer :: int Buffer)" "unread (zero_Buffer :: int Buffer) = []" by (rule buf_inv_zero)+
  moreover have "reader_ok (NewReader [1, 2 :: int])" by (rule reader_ok_New) (simp add: maxInt_def)
  ultimately show ?thesis
    using gbufio_copies [OF slice_reader.gio_reader_axioms buffer_writer.gio_sink_axioms, of "NewReader [1, 2]" int_runtime zero_Buffer
        "Some (\<lambda>b r. Buffer_ReadFrom (Suc (length (stream ahead r))) int_runtime (Bufio_Read Reader_Read) b r)" 0 "foldl (\<lambda>c f. f c)" "[WithSize id 4]" 0 "foldl (\<lambda>c f. f c)" "[]"] int_runtime_ok buffer_from_bufio.gio_reader_from_axioms [of int_runtime]
    by (simp add: reader_ok_New(2))
qed

end
